(* ===== verification/Prelude.thy ===== *)
theory Prelude
  imports Main "HOL-Library.Word" "HOL-Library.Sublist" "HOL-Library.List_Lexorder"
    "HOL-Library.Char_ord"
begin

text \<open>
  Shared material: bytes and 64-bit signed arithmetic as Go computes it, the functions of
  Go's package strings that the code calls, and the facts on lexicographic order, sorting
  and filtering that several components need.
  A Go string is a byte sequence, so it is a \<open>string\<close> (a list of 8-bit \<open>char\<close>) here,
  and \<open><\<close> on strings is the bytewise lexicographic order of Go.
\<close>

section \<open>Collections\<close>

named_theorems i64_simps "facts that evaluate 64-bit signed arithmetic"

section \<open>Bytes and 64-bit integers\<close>

type_synonym byte = "8 word"
type_synonym bytes = "byte list"

text \<open>Two's complement wrap-around of Go's int64, on \<open>int\<close>.\<close>

definition wrap64 :: "int \<Rightarrow> int" where
  "wrap64 x = (x + 2 ^ 63) mod 2 ^ 64 - 2 ^ 63"

definition is_i64 :: "int \<Rightarrow> bool" where
  "is_i64 x \<longleftrightarrow> - (2 ^ 63) \<le> x \<and> x < 2 ^ 63"

lemma wrap64_id [simp, i64_simps]: "is_i64 x \<Longrightarrow> wrap64 x = x"
  by (simp add: wrap64_def is_i64_def)

lemma wrap64_small: "- 9223372036854775808 \<le> x \<Longrightarrow> x < 9223372036854775808 \<Longrightarrow> wrap64 x = x"
  by (simp add: wrap64_def)

lemma is_i64_wrap64 [simp]: "is_i64 (wrap64 x)"
proof -
  have "0 \<le> (x + 2 ^ 63) mod 2 ^ 64" and "(x + 2 ^ 63) mod 2 ^ 64 < 2 ^ 64"
    by simp_all
  then show ?thesis by (simp add: wrap64_def is_i64_def)
qed

text \<open>Wrapping in the middle of a sum does not change the wrapped sum.\<close>

lemma wrap64_minus_left: "wrap64 (wrap64 x - y) = wrap64 (x - y)"
proof -
  have "wrap64 (wrap64 x - y) = ((x + 2 ^ 63) mod 2 ^ 64 - y) mod 2 ^ 64 - 2 ^ 63"
    by (simp add: wrap64_def)
  also have "((x + 2 ^ 63) mod 2 ^ 64 - y) mod 2 ^ 64 = (x - y + 2 ^ 63) mod 2 ^ (64::nat)"
    by (simp only: mod_diff_left_eq) (simp add: algebra_simps)
  finally show ?thesis by (simp add: wrap64_def)
qed

lemma wrap64_plus_left: "wrap64 (wrap64 x + y) = wrap64 (x + y)"
  using wrap64_minus_left [of x "- y"] by simp

lemma wrap64_over: "2 ^ 63 \<le> x \<Longrightarrow> x < 2 ^ 64 \<Longrightarrow> wrap64 x = x - 2 ^ 64"
proof -
  assume a: "2 ^ 63 \<le> x" "x < 2 ^ 64"
  have "(x + 2 ^ 63) mod 2 ^ 64 = (x + 2 ^ 63 - 2 ^ 64) mod (2 ^ 64 :: int)"
    by (simp only: minus_mod_self2)
  also have "\<dots> = x + 2 ^ 63 - 2 ^ 64"
    using a by (intro mod_pos_pos_trivial) auto
  finally show ?thesis by (simp add: wrap64_def)
qed

section \<open>Go's package strings\<close>

text \<open>
  \<open>strings.HasPrefix s p\<close> is \<open>prefix p s\<close>, \<open>strings.HasSuffix s p\<close> is
  \<open>suffix p s\<close> and \<open>strings.Contains s p\<close> is \<open>sublist p s\<close>, all of
  HOL-Library.Sublist.
\<close>

definition trimPrefix :: "string \<Rightarrow> string \<Rightarrow> string" where
  "trimPrefix s p = (if prefix p s then drop (length p) s else s)"

lemma trimPrefix_append [simp]: "trimPrefix (p @ s) p = s"
  by (simp add: trimPrefix_def)

text \<open>\<open>strings.Split(s, sep)\<close> for a separator of one byte.\<close>

fun split_on :: "char \<Rightarrow> string \<Rightarrow> string list" where
  "split_on sep [] = [[]]"
| "split_on sep (c # cs) =
     (if c = sep then [] # split_on sep cs
      else (case split_on sep cs of [] \<Rightarrow> [[c]] | w # ws \<Rightarrow> (c # w) # ws))"

text \<open>\<open>strings.Join(ws, sep)\<close>.\<close>

fun join_with :: "char \<Rightarrow> string list \<Rightarrow> string" where
  "join_with sep [] = []"
| "join_with sep [w] = w"
| "join_with sep (w # v # ws) = w @ sep # join_with sep (v # ws)"

lemma split_on_not_Nil [simp]: "split_on sep s \<noteq> []"
  by (induction s) (auto split: list.splits)

lemma join_with_Cons: "join_with sep (w # ws) = w @ (if ws = [] then [] else sep # join_with sep ws)"
  by (cases ws) auto

lemma join_split [simp]: "join_with sep (split_on sep s) = s"
proof (induction s)
  case Nil
  then show ?case by simp
next
  case (Cons c cs)
  then show ?case
    by (cases "split_on sep cs") (auto simp: join_with_Cons)
qed

lemma split_on_no_sep: "w \<in> set (split_on sep s) \<Longrightarrow> sep \<notin> set w"
proof (induction s arbitrary: w)
  case Nil
  then show ?case by simp
next
  case (Cons c cs)
  then show ?case
    by (cases "split_on sep cs") (auto split: if_splits)
qed

lemma split_on_word: "sep \<notin> set w \<Longrightarrow> split_on sep w = [w]"
  by (induction w) auto

lemma split_on_append_sep: "sep \<notin> set w \<Longrightarrow> split_on sep (w @ sep # s) = w # split_on sep s"
  by (induction w) auto

lemma split_join:
  "ws \<noteq> [] \<Longrightarrow> (\<And>w. w \<in> set ws \<Longrightarrow> sep \<notin> set w) \<Longrightarrow> split_on sep (join_with sep ws) = ws"
proof (induction ws rule: join_with.induct)
  case (2 sep w)
  then show ?case by (simp add: split_on_word)
next
  case (3 sep w v ws)
  then show ?case by (simp add: split_on_append_sep)
qed simp

lemma split_on_inj: "split_on sep s = split_on sep t \<longleftrightarrow> s = t"
  by (metis join_split)

lemma sublist_join_with:
  assumes "w \<in> set ws"
  shows "sublist w (join_with sep ws)"
  using assms
proof (induction ws rule: join_with.induct)
  case (3 sep v u ws)
  show ?case
  proof (cases "w = v")
    case True
    then show ?thesis by (simp add: sublist_def) (metis append_Nil)
  next
    case False
    with 3 have "sublist w (join_with sep (u # ws))" by auto
    then obtain a b where "join_with sep (u # ws) = a @ w @ b"
      by (auto simp: sublist_def)
    then have "join_with sep (v # u # ws) = (v @ sep # a) @ w @ b" by simp
    then show ?thesis unfolding sublist_def by blast
  qed
qed simp_all

section \<open>Lexicographic order\<close>

lemma append_less_cancel [simp]:
  fixes p :: "'a::linorder list"
  shows "p @ xs < p @ ys \<longleftrightarrow> xs < ys"
  by (induction p) auto

lemma append_le_cancel [simp]:
  fixes p :: "'a::linorder list"
  shows "p @ xs \<le> p @ ys \<longleftrightarrow> xs \<le> ys"
  by (simp add: list_le_def)

lemma Nil_less_iff: "([] :: 'a::linorder list) < xs \<longleftrightarrow> xs \<noteq> []"
  by (cases xs) auto

section \<open>Sorting\<close>

text \<open>A list sorted by distinct keys is the sorted list of its keys.\<close>

lemma map_sort_key_distinct:
  assumes "distinct (map f xs)"
  shows "map f (sort_key f xs) = sorted_list_of_set (f ` set xs)"
proof -
  have "sorted (map f (sort_key f xs))" by simp
  moreover have "distinct (map f (sort_key f xs))"
    using assms by (simp add: distinct_map)
  ultimately have "map f (sort_key f xs) = sorted_list_of_set (set (map f (sort_key f xs)))"
    by (simp only: sorted_list_of_set.idem_if_sorted_distinct)
  then show ?thesis by simp
qed

lemma sorted_list_of_set_filter:
  assumes "finite A"
  shows "filter P (sorted_list_of_set A) = sorted_list_of_set {x \<in> A. P x}"
proof -
  have "sorted (filter P (sorted_list_of_set A))" and "distinct (filter P (sorted_list_of_set A))"
    by (simp_all add: sorted_wrt_filter)
  then have "filter P (sorted_list_of_set A)
      = sorted_list_of_set (set (filter P (sorted_list_of_set A)))"
    by (simp only: sorted_list_of_set.idem_if_sorted_distinct)
  then show ?thesis using assms by simp
qed

lemma sorted_list_of_set_image_append:
  fixes p :: "'a::linorder list"
  assumes "finite A"
  shows "sorted_list_of_set ((@) p ` A) = map ((@) p) (sorted_list_of_set A)"
proof (rule sorted_list_of_set_unique [THEN iffD1])
  show "finite ((@) p ` A)" using assms by simp
  have "sorted_wrt (<) (map ((@) p) xs)" if "sorted_wrt (<) xs" for xs :: "'a list list"
    using that by (induction xs) auto
  then show "sorted_wrt (<) (map ((@) p) (sorted_list_of_set A)) \<and>
      set (map ((@) p) (sorted_list_of_set A)) = (@) p ` A \<and>
      length (map ((@) p) (sorted_list_of_set A)) = card ((@) p ` A)"
    using assms by (simp add: card_image inj_on_def)
qed

lemma sum_list_update_less:
  "i < length xs \<Longrightarrow> f y < f (xs ! i) \<Longrightarrow> sum_list (map f (xs[i := y])) < sum_list (map f xs)"
  for f :: "'a \<Rightarrow> nat"
  by (subst (2) id_take_nth_drop [of i xs]) (simp_all add: upd_conv_take_nth_drop)

lemma list_all_update:
  assumes "list_all P xs" and "P y"
  shows "list_all P (xs[i := y])"
  using assms by (auto simp: list_all_iff dest: subsetD [OF set_update_subset_insert])

end
