(* ===== verification/Errors.thy ===== *)
theory Errors
  imports Prelude
begin

text \<open>
  Go's error values and contexts as the package uses them: the sentinels of bucket.go, the
  operating system's errors, the error types of the S3 SDK that s3.go inspects, wrapping
  with \<open>%w\<close>, \<open>errors.Is\<close> and \<open>errors.As\<close>; and the request-scoped values of
  cachecontrol.go and consistentread.go.
  The text of a wrapped error is its constant part; the interpolated arguments (keys,
  paths, sizes) carry no control flow and are left out.
\<close>

section \<open>Errors\<close>

text \<open>
  \<open>EFault\<close> is any error the environment may produce at any system call (EIO, ENOSPC,
  EACCES, EMFILE, ...); the others are the ones the state of the file system determines.
\<close>

datatype oserr = ENOENT | EEXIST | ENOTDIR | EISDIR | ENOTEMPTY | EPERM | EBUSY | ENXIO
  | EFault string

text \<open>What \<open>ctx.Err()\<close> can be.\<close>

datatype ctxerr = Canceled | DeadlineExceeded

datatype err =
    ErrNotFound
  | ErrPreconditionFailed
  | EEOF
  | EUnexpectedEOF
  | ECtx ctxerr
  | EClosed
  | EOS oserr
  | ENoSuchKey
  | ENotFoundAPI
  | EResponse nat err
  | EMsg string
  | EWrap string err
  | EWrap2 err err

text \<open>The errors that \<open>errors.Is\<close> and \<open>errors.As\<close> visit, outermost first.\<close>

fun errTree :: "err \<Rightarrow> err list" where
  "errTree (EWrap m e) = EWrap m e # errTree e"
| "errTree (EWrap2 a b) = EWrap2 a b # errTree a @ errTree b"
| "errTree (EResponse st e) = EResponse st e # errTree e"
| "errTree e = [e]"

definition errIs :: "err \<Rightarrow> err \<Rightarrow> bool" where
  "errIs e t \<longleftrightarrow> t \<in> set (errTree e)"

text \<open>
  \<open>errors.Is(err, os.ErrNotExist)\<close> and \<open>errors.Is(err, os.ErrExist)\<close>: the rule of
  Go's \<open>syscall.Errno.Is\<close>. ENOTDIR is not a "does not exist" error.
\<close>

definition isErrNotExist :: "err \<Rightarrow> bool" where
  "isErrNotExist e \<longleftrightarrow> EOS ENOENT \<in> set (errTree e)"

definition isErrExist :: "err \<Rightarrow> bool" where
  "isErrExist e \<longleftrightarrow> EOS EEXIST \<in> set (errTree e) \<or> EOS ENOTEMPTY \<in> set (errTree e)"

lemma errIs_simps [simp]:
  "errIs (EWrap m e) ErrNotFound = errIs e ErrNotFound"
  "errIs (EWrap m e) ErrPreconditionFailed = errIs e ErrPreconditionFailed"
  "errIs (EWrap m e) EEOF = errIs e EEOF"
  "errIs (EWrap2 a b) ErrNotFound = (errIs a ErrNotFound \<or> errIs b ErrNotFound)"
  "errIs (EWrap2 a b) ErrPreconditionFailed
     = (errIs a ErrPreconditionFailed \<or> errIs b ErrPreconditionFailed)"
  "errIs (EResponse n e) ErrNotFound = errIs e ErrNotFound"
  "errIs (EResponse n e) ErrPreconditionFailed = errIs e ErrPreconditionFailed"
  "errIs (EResponse n e) EEOF = errIs e EEOF"
  "errIs (EOS o1) ErrNotFound = False"
  "errIs (EOS o1) ErrPreconditionFailed = False"
  "errIs (EOS o1) EEOF = False"
  "errIs (EMsg m) ErrNotFound = False"
  "errIs (EMsg m) ErrPreconditionFailed = False"
  "errIs (EMsg m) EEOF = False"
  "errIs ErrNotFound t = (t = ErrNotFound)"
  "errIs ErrPreconditionFailed t = (t = ErrPreconditionFailed)"
  "errIs EEOF t = (t = EEOF)"
  "errIs EUnexpectedEOF t = (t = EUnexpectedEOF)"
  "errIs (ECtx x) t = (t = ECtx x)"
  "errIs EClosed t = (t = EClosed)"
  "errIs ENoSuchKey t = (t = ENoSuchKey)"
  "errIs ENotFoundAPI t = (t = ENotFoundAPI)"
  by (auto simp: errIs_def)

lemma isErrNotExist_simps [simp]:
  "isErrNotExist (EOS e) = (e = ENOENT)"
  "isErrNotExist (EWrap m e') = isErrNotExist e'"
  "isErrNotExist (EMsg m) = False"
  by (auto simp: isErrNotExist_def)

lemma isErrExist_simps [simp]:
  "isErrExist (EOS e) = (e = EEXIST \<or> e = ENOTEMPTY)"
  "isErrExist (EWrap m e') = isErrExist e'"
  by (auto simp: isErrExist_def)

section \<open>Contexts\<close>

text \<open>
  A context as seen by one call: its state (\<open>ctx.Err()\<close>) and its values, the most
  recently attached first. The two key types of the package are the two constructors.
\<close>

datatype ctxval = CacheControl string | ConsistentRead bool

record ctx =
  ctxErr :: "ctxerr option"
  ctxVals :: "ctxval list"

definition ctx_background :: ctx where
  "ctx_background = \<lparr>ctxErr = None, ctxVals = []\<rparr>"

definition withValue :: "ctx \<Rightarrow> ctxval \<Rightarrow> ctx" where
  "withValue c v = c\<lparr>ctxVals := v # ctxVals c\<rparr>"

definition withCacheControl :: "ctx \<Rightarrow> string \<Rightarrow> ctx" where
  "withCacheControl c cc = (if cc = '''' then c else withValue c (CacheControl cc))"

fun lookupCacheControl :: "ctxval list \<Rightarrow> string" where
  "lookupCacheControl [] = ''''"
| "lookupCacheControl (CacheControl s # vs) = s"
| "lookupCacheControl (v # vs) = lookupCacheControl vs"

definition cacheControlFromContext :: "ctx \<Rightarrow> string" where
  "cacheControlFromContext c = lookupCacheControl (ctxVals c)"

definition withConsistentRead :: "ctx \<Rightarrow> ctx" where
  "withConsistentRead c = withValue c (ConsistentRead True)"

fun lookupConsistentRead :: "ctxval list \<Rightarrow> bool" where
  "lookupConsistentRead [] = False"
| "lookupConsistentRead (ConsistentRead b # vs) = b"
| "lookupConsistentRead (v # vs) = lookupConsistentRead vs"

definition consistentReadFromContext :: "ctx \<Rightarrow> bool" where
  "consistentReadFromContext c = lookupConsistentRead (ctxVals c)"

definition isConsistentRead :: "ctx \<Rightarrow> bool" where
  "isConsistentRead c = consistentReadFromContext c"

text \<open>The hints are independent of each other and of cancellation.\<close>

lemmas ctx_defs = withValue_def withCacheControl_def withConsistentRead_def
  cacheControlFromContext_def consistentReadFromContext_def isConsistentRead_def

text \<open>
  The two request hints do not interfere: the innermost non-empty cache policy wins, an
  empty one keeps the policy in force, a consistent-read request changes neither the policy
  nor the cancellation state, and it is visible through every later cache policy.
\<close>

theorem context_hints_independent:
  "cacheControlFromContext (withCacheControl c cc)
     = (if cc = '''' then cacheControlFromContext c else cc)
   \<and> isConsistentRead (withCacheControl c cc) = isConsistentRead c
   \<and> isConsistentRead (withCacheControl (withConsistentRead c) cc)
   \<and> cacheControlFromContext (withConsistentRead c) = cacheControlFromContext c
   \<and> ctxErr (withCacheControl (withConsistentRead c) cc) = ctxErr c"
  by (simp add: ctx_defs)

end
