(* ===== verification/Body.thy ===== *)
theory Body
  imports Errors
begin

text \<open>
  Readers and response bodies. An \<open>io.Reader\<close> handed to a write, and a response body of a
  remote store, are scripts: the deliveries the environment chooses, each some bytes and
  possibly an error. A local file is an open handle, and \<open>limitedFile\<close> of fs.go wraps one.
  \<open>copy_all\<close> is what \<open>io.Copy\<close> and \<open>io.ReadAll\<close> get out of a body; the lemmas on
  \<open>drain\<close> show that it is what any sequence of Read calls delivers.
\<close>

section \<open>Readers\<close>

type_synonym reader = "(bytes \<times> err option) list"

text \<open>One Read call with a buffer of \<open>m\<close> bytes; the empty script is at EOF.\<close>

fun rd_read :: "nat \<Rightarrow> reader \<Rightarrow> bytes \<times> err option \<times> reader" where
  "rd_read m [] = ([], Some EEOF, [])"
| "rd_read m ((bs, e) # r) =
     (if length bs \<le> m then (bs, e, r) else (take m bs, None, (drop m bs, e) # r))"

text \<open>
  Reading to the end: the bytes, and the error that stopped it (\<open>None\<close> for EOF), as
  \<open>io.Copy\<close> reports it.
\<close>

fun readAll :: "reader \<Rightarrow> bytes \<times> err option" where
  "readAll [] = ([], None)"
| "readAll ((bs, None) # r) = (bs @ fst (readAll r), snd (readAll r))"
| "readAll ((bs, Some e) # r) = (bs, if e = EEOF then None else Some e)"

text \<open>The bytes a script still holds, and the part that a full read leaves behind.\<close>

definition reader_total :: "reader \<Rightarrow> nat" where
  "reader_total r = sum_list (map (length \<circ> fst) r)"

fun readerRest :: "reader \<Rightarrow> reader" where
  "readerRest [] = []"
| "readerRest ((bs, None) # r) = readerRest r"
| "readerRest ((bs, Some e) # r) = r"

section \<open>Bodies\<close>

datatype fhandle = FReg bytes | FDirH

datatype body = FileB fhandle | LimitedB fhandle int | NetB reader | ClosedB

text \<open>\<open>(*os.File).Read\<close> at the handle's position; reading a directory is EISDIR.\<close>

fun fh_read :: "nat \<Rightarrow> fhandle \<Rightarrow> bytes \<times> err option \<times> fhandle" where
  "fh_read m (FReg c) =
     (take m c, if c = [] \<and> 0 < m then Some EEOF else None, FReg (drop m c))"
| "fh_read m FDirH = ([], Some (EOS EISDIR), FDirH)"

text \<open>\<open>(*limitedFile).Read\<close> of fs.go.\<close>

definition limitedFile_read :: "nat \<Rightarrow> fhandle \<Rightarrow> int \<Rightarrow> bytes \<times> err option \<times> fhandle \<times> int" where
  "limitedFile_read m h n =
     (if n \<le> 0 then ([], Some EEOF, h, n)
      else let m' = (if int m > n then nat n else m);
               (bs, e, h') = fh_read m' h
           in (bs, e, h', wrap64 (n - int (length bs))))"

fun body_read :: "nat \<Rightarrow> body \<Rightarrow> bytes \<times> err option \<times> body" where
  "body_read m (FileB h) = (case fh_read m h of (bs, e, h') \<Rightarrow> (bs, e, FileB h'))"
| "body_read m (LimitedB h n) =
     (case limitedFile_read m h n of (bs, e, h', n') \<Rightarrow> (bs, e, LimitedB h' n'))"
| "body_read m (NetB r) = (case rd_read m r of (bs, e, r') \<Rightarrow> (bs, e, NetB r'))"
| "body_read m ClosedB = ([], Some EClosed, ClosedB)"

definition body_close :: "body \<Rightarrow> body" where
  "body_close b = ClosedB"

text \<open>The bytes a body delivers, and the error that ends it (\<open>None\<close> for a clean EOF).\<close>

fun copy_all :: "body \<Rightarrow> bytes \<times> err option" where
  "copy_all (FileB (FReg c)) = (c, None)"
| "copy_all (FileB FDirH) = ([], Some (EOS EISDIR))"
| "copy_all (LimitedB (FReg c) n) = (take (nat n) c, None)"
| "copy_all (LimitedB FDirH n) = ([], if n \<le> 0 then None else Some (EOS EISDIR))"
| "copy_all (NetB r) = readAll r"
| "copy_all ClosedB = ([], Some EClosed)"

abbreviation body_bytes :: "body \<Rightarrow> bytes" where
  "body_bytes b \<equiv> fst (copy_all b)"

text \<open>A caller's sequence of Read calls with the given buffer sizes, stopped by an error.\<close>

fun drain :: "nat list \<Rightarrow> body \<Rightarrow> bytes \<times> err option \<times> body" where
  "drain [] b = ([], None, b)"
| "drain (m # ms) b =
     (case body_read m b of
        (bs, Some e, b') \<Rightarrow> (bs, Some e, b')
      | (bs, None, b') \<Rightarrow> (case drain ms b' of (bs', e, b'') \<Rightarrow> (bs @ bs', e, b'')))"

text \<open>The budget of a limited file is an int64, so it never wraps.\<close>

fun body_ok :: "body \<Rightarrow> bool" where
  "body_ok (LimitedB h n) = is_i64 n"
| "body_ok b = True"

definition finish :: "err option \<Rightarrow> err" where
  "finish e = (case e of None \<Rightarrow> EEOF | Some e \<Rightarrow> e)"

text \<open>One Read takes its bytes off the front of what the body delivers.\<close>

lemma body_read_step:
  assumes "body_ok b" and "body_read m b = (bs, e, b')"
  shows "body_ok b'
    \<and> (e = None \<longrightarrow> copy_all b = (bs @ fst (copy_all b'), snd (copy_all b')))
    \<and> (\<forall>x. e = Some x \<longrightarrow> bs = fst (copy_all b) \<and> x = finish (snd (copy_all b)))"
proof (cases b)
  case (FileB h)
  with assms show ?thesis by (cases h) (auto simp: finish_def split: if_splits)
next
  case (LimitedB h n)
  show ?thesis
  proof (cases h)
    case (FReg c)
    have n: "is_i64 n" using assms LimitedB by simp
    show ?thesis
    proof (cases "n \<le> 0")
      case True
      with assms LimitedB FReg show ?thesis
        by (auto simp: limitedFile_read_def finish_def)
    next
      case False
      define m' where "m' = (if int m > n then nat n else m)"
      have m': "m' \<le> nat n" "m' \<le> m" using False by (auto simp: m'_def)
      have bs: "bs = take m' c" and e: "e = (if c = [] \<and> 0 < m' then Some EEOF else None)"
        and b': "b' = LimitedB (FReg (drop m' c)) (wrap64 (n - int (length bs)))"
        using assms LimitedB FReg False by (auto simp: limitedFile_read_def m'_def Let_def)
      have i: "is_i64 (n - int (length bs))"
        using n False m' by (auto simp: is_i64_def bs min_def)
      then have w: "wrap64 (n - int (length bs)) = n - int (length bs)"
        by (rule wrap64_id)
      have "take (nat n) c = take m' c @ take (nat n - m') (drop m' c)"
        using m' by (metis le_add_diff_inverse take_add)
      moreover have "nat (n - int (length bs)) = nat n - length bs"
        by simp
      moreover have "take (nat n - length (take m' c)) (drop m' c) = take (nat n - m') (drop m' c)"
        by (cases "m' \<le> length c") auto
      ultimately show ?thesis
        using LimitedB FReg b' w e bs n i by (auto simp: finish_def)
    qed
  next
    case FDirH
    with assms LimitedB show ?thesis
      by (auto simp: limitedFile_read_def finish_def Let_def split: if_splits)
  qed
next
  case (NetB r)
  show ?thesis
  proof (cases r)
    case Nil
    with assms NetB show ?thesis by (auto simp: finish_def)
  next
    case (Cons x r')
    obtain bs0 e0 where x: "x = (bs0, e0)" by (cases x)
    show ?thesis
    proof (cases e0)
      case None
      with assms NetB Cons x show ?thesis by (auto split: if_splits)
    next
      case (Some y)
      with assms NetB Cons x show ?thesis by (auto simp: finish_def split: if_splits)
    qed
  qed
next
  case ClosedB
  with assms show ?thesis by (auto simp: finish_def)
qed

text \<open>
  Whatever buffer sizes a caller chooses, it sees a prefix of \<open>copy_all\<close>, and when an error
  stops it, it has seen all of it.
\<close>

lemma drain_copy_all:
  "body_ok b \<Longrightarrow> drain ms b = (bs, e, b') \<Longrightarrow>
     (e = None \<longrightarrow> copy_all b = (bs @ fst (copy_all b'), snd (copy_all b')))
   \<and> (\<forall>x. e = Some x \<longrightarrow> bs = fst (copy_all b) \<and> x = finish (snd (copy_all b)))"
proof (induction ms arbitrary: b bs e b')
  case Nil
  then show ?case by simp
next
  case (Cons m ms)
  obtain bs1 e1 b1 where r: "body_read m b = (bs1, e1, b1)"
    by (cases "body_read m b") auto
  note step = body_read_step [OF Cons.prems(1) r]
  show ?case
  proof (cases e1)
    case (Some x)
    with Cons.prems r step show ?thesis by auto
  next
    case None
    obtain bs2 e2 b2 where d: "drain ms b1 = (bs2, e2, b2)"
      by (cases "drain ms b1") auto
    have "body_ok b1" using step by blast
    from Cons.IH [OF this d] step None show ?thesis
      using Cons.prems r d by auto
  qed
qed

section \<open>Facts on readers\<close>

lemma readAll_readerRest: "snd (readAll r) = None \<Longrightarrow> \<forall>x \<in> set r. snd x = None \<Longrightarrow> readerRest r = []"
  by (induction r rule: readAll.induct) auto

lemma reader_total_simps [simp]:
  "reader_total [] = 0"
  "reader_total (x # r) = length (fst x) + reader_total r"
  by (simp_all add: reader_total_def)

lemma reader_total_readAll: "reader_total r = length (fst (readAll r)) + reader_total (readerRest r)"
  by (induction r rule: readAll.induct) auto

end
