(* ===== verification/Bucket.thy ===== *)
theory Bucket
  imports Body
begin

text \<open>
  The interface of bucket.go: object metadata, the Bucket operations as a record of state
  transformers (a Go interface value is the record of its methods), the abstract
  specification of docs/SEMANTICS.md over a store (a map from keys to contents), and the
  interface as two locales: what every result of an operation means for the store
  (\<open>bucket_contract\<close>), and which result a call has when the environment injects no fault
  (\<open>live_bucket\<close>). A client of the contract is proved here once: paging through List
  enumerates a prefix exactly.
\<close>

section \<open>Data and operations\<close>

record objectInfo =
  oKey :: string
  oSize :: int
  oLastModified :: int
  oETag :: string

definition ifAbsentTag :: "string option" where
  "ifAbsentTag = Some ''''"

text \<open>
  A write consumes its reader, so it returns what is left of it. \<open>'s\<close> is the state behind
  the bucket, \<open>'b\<close> the type of its response bodies.
\<close>

record ('s, 'b) bucket =
  bPut :: "ctx \<Rightarrow> string \<Rightarrow> reader \<Rightarrow> int \<Rightarrow> string option \<Rightarrow> 's \<Rightarrow> (err + string) \<times> reader \<times> 's"
  bPutStream :: "ctx \<Rightarrow> string \<Rightarrow> reader \<Rightarrow> string option \<Rightarrow> 's \<Rightarrow> (err + string) \<times> reader \<times> 's"
  bGet :: "ctx \<Rightarrow> string \<Rightarrow> 's \<Rightarrow> (err + 'b \<times> string) \<times> 's"
  bGetRange :: "ctx \<Rightarrow> string \<Rightarrow> int \<Rightarrow> int \<Rightarrow> 's \<Rightarrow> (err + 'b) \<times> 's"
  bStat :: "ctx \<Rightarrow> string \<Rightarrow> 's \<Rightarrow> (err + objectInfo) \<times> 's"
  bList :: "ctx \<Rightarrow> string \<Rightarrow> string \<Rightarrow> 's \<Rightarrow> (err + objectInfo list) \<times> 's"
  bDelete :: "ctx \<Rightarrow> string \<Rightarrow> 's \<Rightarrow> (err + unit) \<times> 's"

section \<open>The abstract specification\<close>

type_synonym store = "string \<rightharpoonup> bytes"

text \<open>The precondition of a conditional write, evaluated on the object's current content.\<close>

definition precond :: "(bytes \<Rightarrow> string) \<Rightarrow> bytes option \<Rightarrow> string option \<Rightarrow> bool" where
  "precond et v ifMatch =
     (case ifMatch of None \<Rightarrow> True
      | Some t \<Rightarrow> if t = '''' then v = None
                   else (case v of None \<Rightarrow> False | Some c \<Rightarrow> et c = t))"

text \<open>The bytes of a range read: from the end for a negative offset, to the end for length 0.\<close>

definition range_start :: "nat \<Rightarrow> int \<Rightarrow> nat" where
  "range_start sz off = (if off < 0 then nat (int sz + off) else min (nat off) sz)"

definition range_of :: "bytes \<Rightarrow> int \<Rightarrow> int \<Rightarrow> bytes" where
  "range_of c off len =
     (let rest = drop (range_start (length c) off) c
      in if len \<le> 0 then rest else take (nat len) rest)"

text \<open>The keys that a List call selects, and the page it returns.\<close>

definition selects :: "string \<Rightarrow> string \<Rightarrow> string \<Rightarrow> bool" where
  "selects pre startAfter k \<longleftrightarrow> prefix pre k \<and> (startAfter \<noteq> '''' \<longrightarrow> startAfter < k)"

definition list_keys :: "(string \<rightharpoonup> 'a) \<Rightarrow> string \<Rightarrow> string \<Rightarrow> string list" where
  "list_keys m pre startAfter = sorted_list_of_set {k \<in> dom m. selects pre startAfter k}"

text \<open>A reader that does not itself fail with the package's precondition error.\<close>

definition clean_reader :: "reader \<Rightarrow> bool" where
  "clean_reader r \<longleftrightarrow> (\<forall>x. snd (readAll r) = Some x \<longrightarrow> \<not> errIs x ErrPreconditionFailed)"

text \<open>What each result of an operation says about the stores before and after it.\<close>

definition put_spec where
  "put_spec et m k r n ifMatch res m' \<longleftrightarrow>
     (case res of
        Inr e \<Rightarrow> \<exists>v. readAll r = (v, None) \<and> (0 \<le> n \<longrightarrow> n = int (length v))
              \<and> precond et (m k) ifMatch \<and> e = et v \<and> m' = m(k \<mapsto> v)
      | Inl e \<Rightarrow> m' = m \<and>
          (errIs e ErrPreconditionFailed \<longrightarrow> clean_reader r \<longrightarrow> \<not> precond et (m k) ifMatch))"

definition get_spec where
  "get_spec et bb m k res \<longleftrightarrow>
     (case res of
        Inr (b, e) \<Rightarrow> \<exists>v. m k = Some v \<and> bb b = v \<and> e = et v
      | Inl e \<Rightarrow> errIs e ErrNotFound \<longrightarrow> m k = None)"

definition getRange_spec where
  "getRange_spec bb m k off len res \<longleftrightarrow>
     (case res of
        Inr b \<Rightarrow> \<exists>v. m k = Some v \<and> (int (length v) < 2 ^ 63 \<longrightarrow> bb b = range_of v off len)
      | Inl e \<Rightarrow> errIs e ErrNotFound \<longrightarrow> m k = None)"

definition info_ok :: "(bytes \<Rightarrow> string) \<Rightarrow> store \<Rightarrow> objectInfo \<Rightarrow> bool" where
  "info_ok et m i \<longleftrightarrow> (\<exists>v. m (oKey i) = Some v \<and> oSize i = int (length v) \<and> oETag i = et v)"

definition stat_spec where
  "stat_spec et m k res \<longleftrightarrow>
     (case res of
        Inr i \<Rightarrow> oKey i = k \<and> info_ok et m i
      | Inl e \<Rightarrow> errIs e ErrNotFound \<longrightarrow> m k = None)"

definition list_spec where
  "list_spec et page m pre startAfter res \<longleftrightarrow>
     (case res of
        Inr is \<Rightarrow> map oKey is = take page (list_keys m pre startAfter) \<and> list_all (info_ok et m) is
      | Inl e \<Rightarrow> True)"

definition delete_spec :: "store \<Rightarrow> string \<Rightarrow> err + unit \<Rightarrow> store \<Rightarrow> bool" where
  "delete_spec m k res m' \<longleftrightarrow>
     (case res of
        Inr u \<Rightarrow> m k \<noteq> None \<and> m' = m(k := None)
      | Inl e \<Rightarrow> m' = m \<and> (errIs e ErrNotFound \<longrightarrow> m k = None))"

lemmas bucket_spec_defs = put_spec_def get_spec_def getRange_spec_def stat_spec_def
  list_spec_def delete_spec_def

lemma precond_None [simp]: "precond et v None"
  by (simp add: precond_def)

lemma precond_ifAbsent [simp]: "precond et v ifAbsentTag \<longleftrightarrow> v = None"
  by (simp add: precond_def ifAbsentTag_def)

lemma range_of_full [simp]: "range_of c 0 0 = c"
  by (simp add: range_of_def range_start_def)

section \<open>Objects with opaque tags\<close>

text \<open>
  A store whose entity tags are not a function of the content (S3's are not) maps a key to
  content and tag. The specifications above, for a tag function \<open>et\<close>, are instances.
\<close>

type_synonym objects = "string \<rightharpoonup> bytes \<times> string"

definition tagged :: "(bytes \<Rightarrow> string) \<Rightarrow> store \<Rightarrow> objects" where
  "tagged et m = (\<lambda>k. map_option (\<lambda>c. (c, et c)) (m k))"

definition oprecond :: "(bytes \<times> string) option \<Rightarrow> string option \<Rightarrow> bool" where
  "oprecond v ifMatch =
     (case ifMatch of None \<Rightarrow> True
      | Some t \<Rightarrow> if t = '''' then v = None else map_option snd v = Some t)"

text \<open>A body delivers a prefix of the content, and all of it unless it ends in an error.\<close>

definition delivers :: "bytes \<times> err option \<Rightarrow> bytes \<Rightarrow> bool" where
  "delivers d v \<longleftrightarrow> prefix (fst d) v \<and> (snd d = None \<longrightarrow> fst d = v)"

text \<open>
  A remote write can fail after it took effect (a lost answer), so an error leaves two stores
  possible; a failed precondition never changes the store.
\<close>

definition oput_spec where
  "oput_spec m k r n ifMatch res m' \<longleftrightarrow>
     (case res of
        Inr e \<Rightarrow> \<exists>v. readAll r = (v, None) \<and> (0 \<le> n \<longrightarrow> n = int (length v))
              \<and> oprecond (m k) ifMatch \<and> m' = m(k \<mapsto> (v, e))
      | Inl e \<Rightarrow>
          (m' = m \<or> (\<exists>v t. readAll r = (v, None) \<and> oprecond (m k) ifMatch \<and> m' = m(k \<mapsto> (v, t)))) \<and>
          (errIs e ErrPreconditionFailed \<longrightarrow> clean_reader r \<longrightarrow>
             m' = m \<and> \<not> oprecond (m k) ifMatch))"

definition odelete_spec :: "objects \<Rightarrow> string \<Rightarrow> err + unit \<Rightarrow> objects \<Rightarrow> bool" where
  "odelete_spec m k res m' \<longleftrightarrow>
     (case res of
        Inr u \<Rightarrow> m k \<noteq> None \<and> m' = m(k := None)
      | Inl e \<Rightarrow> (m' = m \<or> m' = m(k := None)) \<and> (errIs e ErrNotFound \<longrightarrow> m k = None \<and> m' = m))"

definition oget_spec where
  "oget_spec bb m k res \<longleftrightarrow>
     (case res of
        Inr (b, e) \<Rightarrow> \<exists>v. m k = Some (v, e) \<and> delivers (bb b) v
      | Inl e \<Rightarrow> errIs e ErrNotFound \<longrightarrow> m k = None)"

definition ogetRange_spec where
  "ogetRange_spec bb rng m k off len res \<longleftrightarrow>
     (case res of
        Inr b \<Rightarrow> \<exists>v e. m k = Some (v, e) \<and>
          (rng (length v) off len \<longrightarrow> delivers (bb b) (range_of v off len))
      | Inl e \<Rightarrow> errIs e ErrNotFound \<longrightarrow> m k = None)"

definition oinfo_ok :: "objects \<Rightarrow> objectInfo \<Rightarrow> bool" where
  "oinfo_ok m i \<longleftrightarrow> (\<exists>v. m (oKey i) = Some (v, oETag i) \<and> oSize i = int (length v))"

definition ostat_spec where
  "ostat_spec m k res \<longleftrightarrow>
     (case res of
        Inr i \<Rightarrow> oKey i = k \<and> oinfo_ok m i
      | Inl e \<Rightarrow> errIs e ErrNotFound \<longrightarrow> m k = None)"

definition olist_spec where
  "olist_spec page m pre startAfter res \<longleftrightarrow>
     (case res of
        Inr is \<Rightarrow> map oKey is = take page (list_keys m pre startAfter) \<and> list_all (oinfo_ok m) is
      | Inl e \<Rightarrow> True)"

text \<open>The two forms agree on a store with a tag function.\<close>

lemma tagged_app: "tagged et m k = map_option (\<lambda>c. (c, et c)) (m k)"
  by (simp add: tagged_def)

lemma tagged_None [simp]: "tagged et m k = None \<longleftrightarrow> m k = None"
  by (simp add: tagged_def)

lemma tagged_Some [simp]: "tagged et m k = Some (v, e) \<longleftrightarrow> m k = Some v \<and> e = et v"
  by (auto simp: tagged_def)

lemma tagged_inj: "tagged et m' = tagged et m \<Longrightarrow> m' = m"
proof
  fix k assume "tagged et m' = tagged et m"
  then have "tagged et m' k = tagged et m k" by simp
  then show "m' k = m k" by (cases "m' k"; cases "m k") (simp_all add: tagged_app)
qed

lemma dom_tagged [simp]: "dom (tagged et m) = dom m"
  by (auto simp: tagged_def dom_def)

lemma tagged_upd: "tagged et (m(k \<mapsto> v)) = (tagged et m)(k \<mapsto> (v, et v))"
  by (auto simp: tagged_def)

lemma tagged_del: "tagged et (m(k := None)) = (tagged et m)(k := None)"
  by (auto simp: tagged_def)

lemma oprecond_tagged [simp]: "oprecond (tagged et m k) ifMatch = precond et (m k) ifMatch"
  by (cases "m k") (auto simp: oprecond_def precond_def tagged_app split: option.splits)

lemma list_keys_tagged [simp]: "list_keys (tagged et m) p sa = list_keys m p sa"
  by (simp add: list_keys_def)

lemma oinfo_ok_tagged [simp]: "oinfo_ok (tagged et m) i = info_ok et m i"
  by (auto simp: oinfo_ok_def info_ok_def)

lemma oput_spec_tagged:
  "put_spec et m k r n t res m' \<Longrightarrow> oput_spec (tagged et m) k r n t res (tagged et m')"
  by (auto simp: put_spec_def oput_spec_def tagged_upd split: sum.splits)

lemma delivers_bytes: "fst d = v \<Longrightarrow> delivers d v"
  by (simp add: delivers_def)

lemma oget_spec_tagged:
  "get_spec et (\<lambda>b. fst (bb b)) m k res \<Longrightarrow> oget_spec bb (tagged et m) k res"
  by (auto simp: get_spec_def oget_spec_def delivers_bytes split: sum.splits)

lemma ogetRange_spec_tagged:
  "getRange_spec (\<lambda>b. fst (bb b)) m k off len res \<Longrightarrow>
     ogetRange_spec bb (\<lambda>sz off len. int sz < 2 ^ 63) (tagged et m) k off len res"
  by (auto simp: getRange_spec_def ogetRange_spec_def delivers_bytes split: sum.splits)

lemma ostat_spec_tagged: "stat_spec et m k res \<Longrightarrow> ostat_spec (tagged et m) k res"
  by (auto simp: stat_spec_def ostat_spec_def split: sum.splits)

lemma olist_spec_tagged: "list_spec et page m p sa res \<Longrightarrow> olist_spec page (tagged et m) p sa res"
  by (auto simp: list_spec_def olist_spec_def list_all_iff split: sum.splits)

lemma delete_spec_tagged:
  "delete_spec m k res m' \<Longrightarrow> odelete_spec (tagged et m) k res (tagged et m')"
  by (auto simp: delete_spec_def odelete_spec_def tagged_del split: sum.splits)

section \<open>The contract\<close>

text \<open>
  \<open>inv\<close> is the state invariant, \<open>K\<close> the key space the bucket serves, \<open>objs\<close> the
  abstraction of a state, \<open>bb\<close> what a body delivers, \<open>page\<close> the size of a List page and
  \<open>rng\<close> the range reads (size of the object, offset and length) whose answers are right.
\<close>

locale bucket_contract =
  fixes B :: "('s, 'b) bucket"
    and inv :: "'s \<Rightarrow> bool"
    and K :: "string set"
    and objs :: "'s \<Rightarrow> objects"
    and bb :: "'b \<Rightarrow> bytes \<times> err option"
    and page :: nat
    and rng :: "nat \<Rightarrow> int \<Rightarrow> int \<Rightarrow> bool"
  assumes objs_finite: "inv s \<Longrightarrow> finite (dom (objs s))"
    and objs_keys: "inv s \<Longrightarrow> dom (objs s) \<subseteq> K"
    and etag_nonempty: "inv s \<Longrightarrow> objs s k = Some (v, e) \<Longrightarrow> e \<noteq> ''''"
    and page_pos: "0 < page"
    and put_ok: "inv s \<Longrightarrow> k \<in> K \<Longrightarrow> bPut B c k r n t s = (res, r', s') \<Longrightarrow>
      inv s' \<and> oput_spec (objs s) k r n t res (objs s')"
    and putStream_ok: "inv s \<Longrightarrow> k \<in> K \<Longrightarrow> bPutStream B c k r t s = (res, r', s') \<Longrightarrow>
      inv s' \<and> oput_spec (objs s) k r (- 1) t res (objs s')"
    and get_ok: "inv s \<Longrightarrow> k \<in> K \<Longrightarrow> bGet B c k s = (gres, s') \<Longrightarrow>
      inv s' \<and> objs s' = objs s \<and> oget_spec bb (objs s) k gres"
    and getRange_ok: "inv s \<Longrightarrow> k \<in> K \<Longrightarrow> is_i64 off \<Longrightarrow> is_i64 len \<Longrightarrow>
      bGetRange B c k off len s = (rres, s') \<Longrightarrow>
      inv s' \<and> objs s' = objs s \<and> ogetRange_spec bb rng (objs s) k off len rres"
    and stat_ok: "inv s \<Longrightarrow> k \<in> K \<Longrightarrow> bStat B c k s = (ires, s') \<Longrightarrow>
      inv s' \<and> objs s' = objs s \<and> ostat_spec (objs s) k ires"
    and list_ok: "inv s \<Longrightarrow> bList B c pre sa s = (lres, s') \<Longrightarrow>
      inv s' \<and> objs s' = objs s \<and> olist_spec page (objs s) pre sa lres"
    and delete_ok: "inv s \<Longrightarrow> k \<in> K \<Longrightarrow> bDelete B c k s = (dres, s') \<Longrightarrow>
      inv s' \<and> odelete_spec (objs s) k dres (objs s')"

text \<open>
  In a quiet state (no pending environment fault) a call with a live context never fails for
  any reason but the documented ones, and a body ends cleanly. \<open>rlive\<close> are the range reads
  that then succeed.
\<close>

locale live_bucket = bucket_contract +
  fixes quiet :: "'s \<Rightarrow> bool"
    and rlive :: "nat \<Rightarrow> int \<Rightarrow> int \<Rightarrow> bool"
  assumes put_live: "inv s \<Longrightarrow> quiet s \<Longrightarrow> k \<in> K \<Longrightarrow> ctxErr c = None \<Longrightarrow>
      readAll r = (v, None) \<Longrightarrow> n = int (length v) \<Longrightarrow> bPut B c k r n t s = (res, r', s') \<Longrightarrow>
      quiet s' \<and> (if oprecond (objs s k) t then \<exists>e. res = Inr e
                  else \<exists>e. res = Inl e \<and> errIs e ErrPreconditionFailed)"
    and putStream_live: "inv s \<Longrightarrow> quiet s \<Longrightarrow> k \<in> K \<Longrightarrow> ctxErr c = None \<Longrightarrow>
      readAll r = (v, None) \<Longrightarrow> bPutStream B c k r t s = (res, r', s') \<Longrightarrow>
      quiet s' \<and> (if oprecond (objs s k) t then \<exists>e. res = Inr e
                  else \<exists>e. res = Inl e \<and> errIs e ErrPreconditionFailed)"
    and get_live: "inv s \<Longrightarrow> quiet s \<Longrightarrow> k \<in> K \<Longrightarrow> ctxErr c = None \<Longrightarrow>
      bGet B c k s = (gres, s') \<Longrightarrow>
      quiet s' \<and> (if objs s k = None then gres = Inl ErrNotFound
                  else \<exists>b e. gres = Inr (b, e) \<and> snd (bb b) = None)"
    and getRange_live: "inv s \<Longrightarrow> quiet s \<Longrightarrow> k \<in> K \<Longrightarrow> ctxErr c = None \<Longrightarrow>
      bGetRange B c k off len s = (rres, s') \<Longrightarrow>
      quiet s' \<and> (case objs s k of None \<Rightarrow> rres = Inl ErrNotFound
                  | Some (v, e) \<Rightarrow> rlive (length v) off len \<longrightarrow>
                      (\<exists>b. rres = Inr b \<and> snd (bb b) = None))"
    and stat_live: "inv s \<Longrightarrow> quiet s \<Longrightarrow> k \<in> K \<Longrightarrow> ctxErr c = None \<Longrightarrow>
      bStat B c k s = (ires, s') \<Longrightarrow>
      quiet s' \<and> (if objs s k = None then ires = Inl ErrNotFound else \<exists>x. ires = Inr x)"
    and list_live: "inv s \<Longrightarrow> quiet s \<Longrightarrow> ctxErr c = None \<Longrightarrow>
      bList B c pre sa s = (lres, s') \<Longrightarrow> quiet s' \<and> (\<exists>x. lres = Inr x)"
    and delete_live: "inv s \<Longrightarrow> quiet s \<Longrightarrow> k \<in> K \<Longrightarrow> ctxErr c = None \<Longrightarrow>
      bDelete B c k s = (dres, s') \<Longrightarrow>
      quiet s' \<and> (if objs s k = None then dres = Inl ErrNotFound else dres = Inr ())"

section \<open>Paging through List\<close>

text \<open>
  The listing loop of a client: the next page starts after the last key of the one before, and
  a page that is not full is the last. The fuel bounds the number of List calls.
\<close>

fun list_pages :: "nat \<Rightarrow> nat \<Rightarrow> ('s, 'b) bucket \<Rightarrow> ctx \<Rightarrow> string \<Rightarrow> string \<Rightarrow> 's
    \<Rightarrow> (err + objectInfo list) option \<times> 's" where
  "list_pages 0 page B c pre sa s = (None, s)"
| "list_pages (Suc n) page B c pre sa s =
     (case bList B c pre sa s of
        (Inl e, s1) \<Rightarrow> (Some (Inl e), s1)
      | (Inr is, s1) \<Rightarrow>
          if length is < page then (Some (Inr is), s1)
          else (case list_pages n page B c pre (oKey (last is)) s1 of
                  (Some (Inr js), s2) \<Rightarrow> (Some (Inr (is @ js)), s2)
                | (r, s2) \<Rightarrow> (r, s2)))"

lemma drop_sorted_filter:
  assumes "sorted xs" and "distinct xs" and "n \<le> length xs" and "0 < n"
  shows "filter (\<lambda>x. last (take n xs) < x) xs = drop n (xs :: 'a :: linorder list)"
proof -
  let ?l = "last (take n xs)"
  have ne: "take n xs \<noteq> []" using assms(3,4) by auto
  then have snoc: "take n xs = butlast (take n xs) @ [?l]" by simp
  have inl: "?l \<in> set (take n xs)" using ne by (rule last_in_set)
  have "sorted (take n xs @ drop n xs)" "distinct (take n xs @ drop n xs)"
    using assms(1,2) by simp_all
  then have "?l \<le> y \<and> ?l \<noteq> y" if "y \<in> set (drop n xs)" for y
    using inl that unfolding sorted_append distinct_append by blast
  then have hi: "\<forall>y \<in> set (drop n xs). ?l < y" using order.not_eq_order_implies_strict by blast
  have "sorted (take n xs)" using assms(1) by (rule sorted_wrt_take)
  then have "sorted (butlast (take n xs) @ [?l])" by (simp only: snoc [symmetric])
  moreover have "set (take n xs) = insert ?l (set (butlast (take n xs)))"
    using arg_cong [OF snoc, of set] by simp
  ultimately have "\<forall>x \<in> set (take n xs). x \<le> ?l" by (auto simp: sorted_append)
  then have lo: "filter (\<lambda>x. ?l < x) (take n xs) = []" by (auto simp: filter_empty_conv not_less)
  have "filter (\<lambda>x. ?l < x) xs
      = filter (\<lambda>x. ?l < x) (take n xs) @ filter (\<lambda>x. ?l < x) (drop n xs)"
    by (metis append_take_drop_id filter_append)
  also have "\<dots> = drop n xs" using lo hi by simp
  finally show ?thesis .
qed

lemma list_keys_next:
  assumes "finite (dom m)" and "0 < page" and "page \<le> length (list_keys m pre sa)"
    and "last (take page (list_keys m pre sa)) \<noteq> ''''"
  shows "list_keys m pre (last (take page (list_keys m pre sa))) = drop page (list_keys m pre sa)"
proof -
  let ?L = "list_keys m pre sa" and ?l = "last (take page (list_keys m pre sa))"
  have fin: "finite {k \<in> dom m. selects pre sa k}" using assms(1) by simp
  have srt: "sorted ?L" "distinct ?L" "set ?L = {k \<in> dom m. selects pre sa k}"
    using fin by (simp_all add: list_keys_def)
  have "take page ?L \<noteq> []" using assms(2,3) by auto
  then have "?l \<in> set ?L" by (meson in_set_takeD last_in_set)
  then have "selects pre sa ?l" using srt(3) by simp
  then have "{k \<in> dom m. selects pre ?l k} = {k \<in> {k \<in> dom m. selects pre sa k}. ?l < k}"
    using assms(4) by (auto simp: selects_def)
  then have "list_keys m pre ?l = filter (\<lambda>k. ?l < k) ?L"
    using sorted_list_of_set_filter [OF fin] by (simp add: list_keys_def)
  also have "\<dots> = drop page ?L"
    by (rule drop_sorted_filter [OF srt(1,2) assms(3,2)])
  finally show ?thesis .
qed

context live_bucket
begin

text \<open>Enough calls enumerate exactly the selected keys, in order and without repetition.\<close>

lemma list_pages_all:
  assumes "inv s" and "quiet s" and "ctxErr c = None" and "'''' \<notin> K"
    and "length (list_keys (objs s) pre sa) < n"
  shows "\<exists>is s'. list_pages n page B c pre sa s = (Some (Inr is), s') \<and> inv s' \<and> quiet s'
    \<and> objs s' = objs s \<and> map oKey is = list_keys (objs s) pre sa
    \<and> list_all (oinfo_ok (objs s)) is"
  using assms
proof (induction n arbitrary: sa s)
  case (Suc n)
  let ?L = "list_keys (objs s) pre sa"
  obtain r s1 where l: "bList B c pre sa s = (r, s1)" by fastforce
  obtain "is" where r: "r = Inr is" and q1: "quiet s1"
    using list_live [OF Suc.prems(1-3) l] by blast
  have inv1: "inv s1" "objs s1 = objs s" and keys: "map oKey is = take page ?L"
    and info: "list_all (oinfo_ok (objs s)) is"
    using list_ok [OF Suc.prems(1) l] r by (auto simp: olist_spec_def)
  have len: "length is = min page (length ?L)"
    using arg_cong [OF keys, of length] by simp
  show ?case
  proof (cases "length is < page")
    case True
    then have "take page ?L = ?L" using len by simp
    then show ?thesis using True l r q1 inv1 keys info by simp
  next
    case False
    then have le: "page \<le> length ?L" using len by simp
    have ne: "take page ?L \<noteq> []" using le page_pos by auto
    then have "last (take page ?L) \<in> set ?L" by (meson in_set_takeD last_in_set)
    then have "last (take page ?L) \<in> dom (objs s)"
      using objs_finite [OF Suc.prems(1)] by (simp add: list_keys_def)
    then have "last (take page ?L) \<noteq> ''''" using objs_keys [OF Suc.prems(1)] Suc.prems(4) by auto
    note nxt = list_keys_next [OF objs_finite [OF Suc.prems(1)] page_pos le this]
    have lastk: "oKey (last is) = last (take page ?L)"
      using ne keys by (metis last_map list.map_disc_iff)
    have "length (list_keys (objs s1) pre (oKey (last is))) < n"
      using Suc.prems(5) page_pos le nxt lastk inv1(2) by simp
    from Suc.IH [OF inv1(1) q1 Suc.prems(3,4) this] obtain js s2 where
      "list_pages n page B c pre (oKey (last is)) s1 = (Some (Inr js), s2)" "inv s2" "quiet s2"
      "objs s2 = objs s" "map oKey js = drop page ?L" "list_all (oinfo_ok (objs s)) js"
      using nxt lastk inv1(2) by auto
    then show ?thesis using False l r keys info by simp
  qed
qed simp

text \<open>What was written is what every read returns, under the tag the write returned.\<close>

lemma put_then_read:
  assumes "inv s" and "quiet s" and "k \<in> K" and "ctxErr c = None" and "ctxErr c' = None"
    and "readAll r = (v, None)" and "n = int (length v)"
    and "bPut B c k r n t s = (Inr e, r', s1)"
  shows "\<exists>b s2 i s3. bGet B c' k s1 = (Inr (b, e), s2) \<and> bb b = (v, None)
    \<and> bStat B c' k s2 = (Inr i, s3) \<and> oKey i = k \<and> oSize i = int (length v) \<and> oETag i = e
    \<and> objs s3 = (objs s)(k \<mapsto> (v, e)) \<and> inv s3 \<and> quiet s3"
proof -
  have p: "inv s1" "objs s1 = (objs s)(k \<mapsto> (v, e))"
    using put_ok [OF assms(1,3,8)] assms(6) by (auto simp: oput_spec_def)
  have q1: "quiet s1" using put_live [OF assms(1-4,6-8)] by simp
  obtain gr s2 where g: "bGet B c' k s1 = (gr, s2)" by fastforce
  note gl = get_live [OF p(1) q1 assms(3,5) g] and go = get_ok [OF p(1) assms(3) g]
  obtain b e' where b: "gr = Inr (b, e')" "snd (bb b) = None" using gl p(2) by auto
  then have be: "e' = e" "bb b = (v, None)"
    using go p(2) by (auto simp: oget_spec_def delivers_def prod_eq_iff)
  have i2: "inv s2" "objs s2 = objs s1" "quiet s2" using gl go by simp_all
  obtain ir s3 where st: "bStat B c' k s2 = (ir, s3)" by fastforce
  note sl = stat_live [OF i2(1,3) assms(3,5) st] and so = stat_ok [OF i2(1) assms(3) st]
  obtain i where "ir = Inr i" using sl i2(2) p(2) by auto
  then show ?thesis
    using g b(1) be st sl so i2(2) p(2) by (auto simp: ostat_spec_def oinfo_ok_def)
qed

text \<open>A conditional write that expects a tag already replaced never succeeds.\<close>

lemma stale_write_fails:
  assumes "inv s" and "quiet s" and "k \<in> K" and "ctxErr c = None" and "ctxErr c' = None"
    and "readAll r = (v, None)" and "n = int (length v)" and "bPut B c k r n t s = (Inr e, r', s1)"
    and "readAll r2 = (v2, None)" and "n2 = int (length v2)" and "stale \<noteq> e"
    and "bPut B c' k r2 n2 (Some stale) s1 = (res, r2', s2)"
  shows "\<exists>x. res = Inl x \<and> errIs x ErrPreconditionFailed"
proof -
  have p: "inv s1" "objs s1 k = Some (v, e)"
    using put_ok [OF assms(1,3,8)] assms(6) by (auto simp: oput_spec_def)
  have "quiet s1" using put_live [OF assms(1-4,6-8)] by simp
  then have "if oprecond (objs s1 k) (Some stale) then \<exists>e. res = Inr e
      else \<exists>x. res = Inl x \<and> errIs x ErrPreconditionFailed"
    using put_live [OF p(1) _ assms(3,5,9,10,12)] by blast
  then show ?thesis using p(2) assms(11) by (simp add: oprecond_def split: if_splits)
qed

end

section \<open>Range reads of an open range\<close>

text \<open>
  What the readers built on ranges (healing and ranged fetching) need: the answers to range
  reads from the front that do not overflow, and to those without a length, are right.
\<close>

locale ranged_bucket = bucket_contract B inv K objs copy_all page rng
  for B :: "('s, body) bucket" and inv K objs page rng +
  assumes rng_open: "int sz < 2 ^ 63 \<Longrightarrow> len \<le> 0 \<or> (0 \<le> off \<and> off + len \<le> 2 ^ 63)
      \<Longrightarrow> rng sz off len"

end
