(* ===== verification/Digest.thy ===== *)
theory Digest
  imports Prelude
begin

text \<open>
  crypto/sha256 and encoding/hex of Go's standard library (FIPS 180-4), which fs.go uses for
  its entity tags, computed on 32-bit words. Properties need only the length of a tag; the
  theory DigestTest checks the definition against the standard's test vector.
\<close>

unbundle bit_operations_syntax

section \<open>SHA-256\<close>

type_synonym w32 = "32 word"

definition sha_K :: "w32 list" where
  "sha_K = [0x428A2F98, 0x71374491, 0xB5C0FBCF, 0xE9B5DBA5, 0x3956C25B, 0x59F111F1,
    0x923F82A4, 0xAB1C5ED5, 0xD807AA98, 0x12835B01, 0x243185BE, 0x550C7DC3,
    0x72BE5D74, 0x80DEB1FE, 0x9BDC06A7, 0xC19BF174, 0xE49B69C1, 0xEFBE4786,
    0x0FC19DC6, 0x240CA1CC, 0x2DE92C6F, 0x4A7484AA, 0x5CB0A9DC, 0x76F988DA,
    0x983E5152, 0xA831C66D, 0xB00327C8, 0xBF597FC7, 0xC6E00BF3, 0xD5A79147,
    0x06CA6351, 0x14292967, 0x27B70A85, 0x2E1B2138, 0x4D2C6DFC, 0x53380D13,
    0x650A7354, 0x766A0ABB, 0x81C2C92E, 0x92722C85, 0xA2BFE8A1, 0xA81A664B,
    0xC24B8B70, 0xC76C51A3, 0xD192E819, 0xD6990624, 0xF40E3585, 0x106AA070,
    0x19A4C116, 0x1E376C08, 0x2748774C, 0x34B0BCB5, 0x391C0CB3, 0x4ED8AA4A,
    0x5B9CCA4F, 0x682E6FF3, 0x748F82EE, 0x78A5636F, 0x84C87814, 0x8CC70208,
    0x90BEFFFA, 0xA4506CEB, 0xBEF9A3F7, 0xC67178F2]"

record sha_state =
  shA :: w32
  shB :: w32
  shC :: w32
  shD :: w32
  shE :: w32
  shF :: w32
  shG :: w32
  shH :: w32

definition sha_init :: sha_state where
  "sha_init = \<lparr>shA = 0x6A09E667, shB = 0xBB67AE85, shC = 0x3C6EF372, shD = 0xA54FF53A,
     shE = 0x510E527F, shF = 0x9B05688C, shG = 0x1F83D9AB, shH = 0x5BE0CD19\<rparr>"

definition sha_s0 :: "w32 \<Rightarrow> w32" where
  "sha_s0 x = word_rotr 7 x XOR word_rotr 18 x XOR drop_bit 3 x"

definition sha_s1 :: "w32 \<Rightarrow> w32" where
  "sha_s1 x = word_rotr 17 x XOR word_rotr 19 x XOR drop_bit 10 x"

definition sha_S0 :: "w32 \<Rightarrow> w32" where
  "sha_S0 x = word_rotr 2 x XOR word_rotr 13 x XOR word_rotr 22 x"

definition sha_S1 :: "w32 \<Rightarrow> w32" where
  "sha_S1 x = word_rotr 6 x XOR word_rotr 11 x XOR word_rotr 25 x"

definition sha_round :: "w32 \<times> w32 \<Rightarrow> sha_state \<Rightarrow> sha_state" where
  "sha_round kw s =
     (let t1 = shH s + sha_S1 (shE s) + ((shE s AND shF s) XOR (NOT (shE s) AND shG s)) + fst kw + snd kw;
          t2 = sha_S0 (shA s) + ((shA s AND shB s) XOR (shA s AND shC s) XOR (shB s AND shC s))
      in \<lparr>shA = t1 + t2, shB = shA s, shC = shB s, shD = shC s,
          shE = shD s + t1, shF = shE s, shG = shF s, shH = shG s\<rparr>)"

text \<open>The message schedule, kept reversed: 48 more words after the block's 16.\<close>

fun sha_extend :: "nat \<Rightarrow> w32 list \<Rightarrow> w32 list" where
  "sha_extend 0 ws = ws"
| "sha_extend (Suc n) ws =
     sha_extend n ((sha_s1 (ws ! 1) + ws ! 6 + sha_s0 (ws ! 14) + ws ! 15) # ws)"

definition be32 :: "byte \<Rightarrow> byte \<Rightarrow> byte \<Rightarrow> byte \<Rightarrow> w32" where
  "be32 a b c d = push_bit 24 (ucast a) OR push_bit 16 (ucast b) OR push_bit 8 (ucast c) OR ucast d"

fun be_words :: "bytes \<Rightarrow> w32 list" where
  "be_words (a # b # c # d # r) = be32 a b c d # be_words r"
| "be_words _ = []"

definition sha_block :: "bytes \<Rightarrow> sha_state \<Rightarrow> sha_state" where
  "sha_block blk s =
     (let t = fold sha_round (zip sha_K (rev (sha_extend 48 (rev (be_words blk))))) s
      in \<lparr>shA = shA s + shA t, shB = shB s + shB t, shC = shC s + shC t, shD = shD s + shD t,
          shE = shE s + shE t, shF = shF s + shF t, shG = shG s + shG t, shH = shH s + shH t\<rparr>)"

definition be_bytes32 :: "w32 \<Rightarrow> bytes" where
  "be_bytes32 w = [ucast (drop_bit 24 w), ucast (drop_bit 16 w), ucast (drop_bit 8 w), ucast w]"

definition sha_pad :: "bytes \<Rightarrow> bytes" where
  "sha_pad m =
     (let n = length m; bits = (word_of_nat (8 * n) :: 64 word)
      in m @ 0x80 # replicate ((119 - n mod 64) mod 64) 0
         @ be_bytes32 (ucast (drop_bit 32 bits)) @ be_bytes32 (ucast bits))"

fun blocks64 :: "bytes \<Rightarrow> bytes list" where
  "blocks64 [] = []"
| "blocks64 (b # bs) = take 64 (b # bs) # blocks64 (drop 63 bs)"

definition sha256 :: "bytes \<Rightarrow> bytes" where
  "sha256 m =
     (let s = fold sha_block (blocks64 (sha_pad m)) sha_init
      in concat (map be_bytes32 [shA s, shB s, shC s, shD s, shE s, shF s, shG s, shH s]))"

section \<open>Hexadecimal\<close>

definition hex_digit :: "byte \<Rightarrow> char" where
  "hex_digit d = ''0123456789abcdef'' ! unat (d AND 15)"

fun hexEncode :: "bytes \<Rightarrow> string" where
  "hexEncode [] = []"
| "hexEncode (b # bs) = hex_digit (drop_bit 4 b) # hex_digit b # hexEncode bs"

definition sha256hex :: "bytes \<Rightarrow> string" where
  "sha256hex m = hexEncode (sha256 m)"

lemma length_hexEncode [simp]: "length (hexEncode bs) = 2 * length bs"
  by (induction bs) auto

lemma length_sha256hex [simp]: "length (sha256hex m) = 64"
  by (simp add: sha256hex_def sha256_def be_bytes32_def Let_def)

lemma sha256hex_not_Nil [simp]: "sha256hex m \<noteq> []"
proof
  assume "sha256hex m = []"
  then have "length (sha256hex m) = 0" by simp
  then show False by simp
qed

end
