(* ===== verification/DigestTest.thy ===== *)
theory DigestTest
  imports Digest
begin

text \<open>
  The model of SHA-256 computed by the kernel: on the test vector of FIPS 180-4 for the message
  \<open>abc\<close>, and on two contents that the examples tell apart by their tags.
\<close>

lemma sha256hex_abc:
  "sha256hex [0x61, 0x62, 0x63] = ''ba7816bf8f01cfea414140de5dae2223b00361a396177a9cb410ff61f20015ad''"
  by code_simp

lemma sha256hex_9: "sha256hex [9] = ''2b4c342f5433ebe591a1da77e013d1b72475562d48578dca8b84bac6651c3cb9''"
  by code_simp

lemma sha256hex_123: "sha256hex [1, 2, 3] = ''039058c6f2c0cb492c533b0a4d14ef77cc0f78abccced5287d84a1a2011cfb81''"
  by code_simp

lemma sha256hex_differs: "sha256hex [9] \<noteq> sha256hex [1, 2, 3]"
  by (simp add: sha256hex_9 sha256hex_123)

end
