(* ===== verification/Float64.thy ===== *)
theory Float64
  imports Prelude
begin

text \<open>
  Go's integer quotient, and its float64 as far as the package computes with it: conversions from
  integers, sums, products, quotients and comparison of normal values, rounded to the nearest value
  with a 53-bit significand, ties to even. A value is a fraction of integers with a positive denominator. No
  result here is large or small enough for the exponent to matter (from 2^-30 to 2^126).
\<close>

text \<open>The quotient of two integers truncates towards zero.\<close>

definition goQuot :: "int \<Rightarrow> int \<Rightarrow> int" where
  "goQuot a b = (if (a < 0) = (b < 0) then \<bar>a\<bar> div \<bar>b\<bar> else - (\<bar>a\<bar> div \<bar>b\<bar>))"

type_synonym f64 = "int \<times> int"

section \<open>Rounding\<close>

text \<open>The integer logarithm, and the one of a fraction.\<close>

function ilog :: "int \<Rightarrow> nat" where
  "ilog x = (if x \<le> 1 then 0 else Suc (ilog (x div 2)))"
  by pat_completeness auto
termination
  by (relation "measure nat") auto

declare ilog.simps [simp del]

definition frac_log :: "int \<Rightarrow> int \<Rightarrow> int" where
  "frac_log p q =
     (let k = int (ilog p) - int (ilog q)
      in if p * 2 ^ nat (- k) < q * 2 ^ nat k then k - 1 else k)"

text \<open>The integer nearest to a fraction, ties to even.\<close>

definition round_even :: "int \<Rightarrow> int \<Rightarrow> int" where
  "round_even a b =
     (let d = a div b; r = a mod b
      in if 2 * r < b \<or> 2 * r = b \<and> even d then d else d + 1)"

definition f64_round :: "int \<Rightarrow> int \<Rightarrow> f64" where
  "f64_round p q =
     (if p = 0 then (0, 1)
      else let s = frac_log \<bar>p\<bar> q - 52
           in (sgn p * round_even (\<bar>p\<bar> * 2 ^ nat (- s)) (q * 2 ^ nat s) * 2 ^ nat s, 2 ^ nat (- s)))"

definition f64_of_int :: "int \<Rightarrow> f64" where
  "f64_of_int n = f64_round n 1"

definition f64_add :: "f64 \<Rightarrow> f64 \<Rightarrow> f64" where
  "f64_add a b = f64_round (fst a * snd b + fst b * snd a) (snd a * snd b)"

definition f64_mul :: "f64 \<Rightarrow> f64 \<Rightarrow> f64" where
  "f64_mul a b = f64_round (fst a * fst b) (snd a * snd b)"

text \<open>The quotient by a value that is not zero.\<close>

definition f64_div :: "f64 \<Rightarrow> f64 \<Rightarrow> f64" where
  "f64_div a b = f64_round (fst a * snd b * sgn (fst b)) (snd a * \<bar>fst b\<bar>)"

definition f64_less :: "f64 \<Rightarrow> f64 \<Rightarrow> bool" where
  "f64_less a b \<longleftrightarrow> fst a * snd b < fst b * snd a"

text \<open>The conversion to an integer truncates.\<close>

definition f64_trunc :: "f64 \<Rightarrow> int" where
  "f64_trunc a = sgn (fst a) * (\<bar>fst a\<bar> div snd a)"

text \<open>\<open>Duration.Seconds\<close>: the whole seconds and the rest are converted apart.\<close>

definition seconds :: "int \<Rightarrow> f64" where
  "seconds d =
     (let sec = sgn d * (\<bar>d\<bar> div 1000000000); nsec = sgn d * (\<bar>d\<bar> mod 1000000000)
      in f64_add (f64_of_int sec) (f64_div (f64_of_int nsec) (1000000000, 1)))"

section \<open>A rate against a floor\<close>

text \<open>The comparison of \<open>n\<close> bytes in \<open>d\<close> nanoseconds with \<open>m\<close> bytes a second.\<close>

definition rate_less :: "int \<Rightarrow> int \<Rightarrow> int \<Rightarrow> bool" where
  "rate_less n d m \<longleftrightarrow> f64_less (f64_div (f64_of_int n) (seconds d)) (f64_of_int m)"

lemma goQuot_pos: "0 \<le> a \<Longrightarrow> 0 < b \<Longrightarrow> goQuot a b = a div b"
  by (simp add: goQuot_def)

end
