(* ===== verification/Float64Props.thy ===== *)
theory Float64Props
  imports Float64 Complex_Main
begin

text \<open>
  How far a computation in float64 is from the exact one: one rounding errs by at most one part in
  2^53, the errors compose over the operations, and the comparison of a rate with a floor is exact
  but for one part in 2^50.
\<close>

section \<open>The error of one rounding\<close>

lemma ilog_bounds: "0 < x \<Longrightarrow> 2 ^ ilog x \<le> x \<and> x < 2 ^ Suc (ilog x)"
proof (induction x rule: ilog.induct)
  case (1 x)
  show ?case
  proof (cases "x \<le> 1")
    case True
    then show ?thesis using 1(2) by (simp add: ilog.simps [of x])
  next
    case False
    then have "2 ^ ilog (x div 2) \<le> x div 2" "x div 2 < 2 ^ Suc (ilog (x div 2))"
      using 1(1) by simp_all
    then show ?thesis using False by (simp only: ilog.simps [of x] if_False power_Suc) linarith
  qed
qed

definition val :: "f64 \<Rightarrow> real" where
  "val a = real_of_int (fst a) / real_of_int (snd a)"

lemma power_split: "(2::real) ^ nat k / 2 ^ nat (- k) = 2 powi k"
  by (cases "0 \<le> k") (simp_all add: power_int_def power_one_over)

lemma frac_log_le:
  assumes "0 < p" and "0 < q"
  shows "2 powi frac_log p q \<le> real_of_int p / real_of_int q"
proof -
  define k where "k = int (ilog p) - int (ilog q)"
  have p: "(2::real) ^ ilog p \<le> p" using ilog_bounds [OF assms(1)] by (metis of_int_le_iff of_int_numeral of_int_power)
  have q: "real_of_int q < 2 ^ Suc (ilog q)"
    using ilog_bounds [OF assms(2)] by (metis of_int_less_iff of_int_numeral of_int_power)
  show ?thesis
  proof (cases "p * 2 ^ nat (- k) < q * 2 ^ nat k")
    case True
    then have "frac_log p q = k - 1" by (simp add: frac_log_def Let_def k_def)
    moreover have "(2::real) powi (k - 1) = 2 ^ ilog p / 2 ^ Suc (ilog q)"
      by (simp add: k_def power_int_diff)
    moreover have "(2::real) ^ ilog p / 2 ^ Suc (ilog q) \<le> p / q"
      using p q assms by (intro frac_le) simp_all
    ultimately show ?thesis by simp
  next
    case False
    then have "frac_log p q = k" by (simp add: frac_log_def Let_def k_def)
    moreover have "real_of_int (q * 2 ^ nat k) \<le> real_of_int (p * 2 ^ nat (- k))"
      using False by (simp only: of_int_le_iff not_less)
    then have "(2::real) ^ nat k / 2 ^ nat (- k) \<le> p / q"
      using assms by (simp add: field_simps)
    ultimately show ?thesis by (simp add: power_split)
  qed
qed

lemma round_even_error:
  assumes "0 < b"
  shows "\<bar>real_of_int (round_even a b) - real_of_int a / real_of_int b\<bar> \<le> 1 / 2"
proof -
  define d r where "d = a div b" and "r = a mod b"
  have a: "a = d * b + r" "0 \<le> r" "r < b" using assms by (simp_all add: d_def r_def)
  have q: "real_of_int a / real_of_int b = real_of_int d + real_of_int r / real_of_int b"
    using assms by (simp add: a(1) field_simps)
  have "round_even a b = d \<and> 2 * r \<le> b \<or> round_even a b = d + 1 \<and> b \<le> 2 * r"
    by (auto simp: round_even_def Let_def d_def r_def)
  then show ?thesis
  proof
    assume "round_even a b = d \<and> 2 * r \<le> b"
    moreover from this have "real_of_int r / real_of_int b \<le> 1 / 2" using assms by (simp add: field_simps)
    moreover have "0 \<le> real_of_int r / real_of_int b" using a assms by simp
    ultimately show ?thesis by (simp add: q)
  next
    assume r: "round_even a b = d + 1 \<and> b \<le> 2 * r"
    then have "1 / 2 \<le> real_of_int r / real_of_int b" using assms by (simp add: field_simps)
    moreover have "real_of_int r / real_of_int b \<le> 1" using a assms by simp
    ultimately show ?thesis using r by (simp add: q)
  qed
qed

lemma f64_round_pos: "0 < q \<Longrightarrow> 0 < snd (f64_round p q)"
  by (simp add: f64_round_def Let_def)

lemma f64_round_error:
  assumes "0 \<le> p" and "0 < q"
  shows "\<bar>val (f64_round p q) - real_of_int p / real_of_int q\<bar> \<le> (real_of_int p / real_of_int q) / 2 ^ 53"
proof (cases "p = 0")
  case False
  then have p: "0 < p" using assms by simp
  define s where "s = frac_log p q - 52"
  define m where "m = round_even (p * 2 ^ nat (- s)) (q * 2 ^ nat s)"
  define x where "x = real_of_int p / real_of_int q"
  have fr: "f64_round p q = (m * 2 ^ nat s, 2 ^ nat (- s))"
    using p by (simp add: f64_round_def Let_def s_def m_def)
  have v: "val (f64_round p q) = real_of_int m * 2 powi s"
    by (simp add: fr val_def power_split [symmetric])
  have quot: "real_of_int (p * 2 ^ nat (- s)) / real_of_int (q * 2 ^ nat s) = x / 2 powi s"
    using assms by (simp add: x_def power_split [symmetric] field_simps)
  have "\<bar>real_of_int m - x / 2 powi s\<bar> \<le> 1 / 2"
    using round_even_error [of "q * 2 ^ nat s" "p * 2 ^ nat (- s)"] assms unfolding quot by (simp add: m_def)
  then have "\<bar>real_of_int m - x / 2 powi s\<bar> * 2 powi s \<le> 1 / 2 * 2 powi s"
    by (intro mult_right_mono) simp_all
  then have err: "\<bar>real_of_int m * 2 powi s - x\<bar> \<le> 1 / 2 * 2 powi s"
    by (simp add: abs_mult_pos left_diff_distrib)
  have "2 powi (s + 52) \<le> x" using frac_log_le [OF p assms(2)] by (simp add: s_def x_def)
  then have "2 powi s * 2 ^ 52 \<le> x" by (simp add: power_int_add)
  then have "1 / 2 * 2 powi s \<le> x / 2 ^ 53" by simp
  then show ?thesis using err v by (simp add: x_def)
qed (simp add: f64_round_def val_def)

section \<open>The error of a computation\<close>

text \<open>A value within \<open>k\<close> roundings of a real number. The relation is closed under the operations.\<close>

definition near :: "nat \<Rightarrow> real \<Rightarrow> real \<Rightarrow> bool" where
  "near k x y \<longleftrightarrow> 0 \<le> y \<and> y * (1 - 1 / 2 ^ 53) ^ k \<le> x \<and> x * (1 - 1 / 2 ^ 53) ^ k \<le> y"

lemma near_pos: "near k x y \<Longrightarrow> 0 \<le> x \<and> 0 \<le> y"
  by (auto simp: near_def intro: order_trans [of 0 "y * (1 - 1 / 2 ^ 53) ^ k" x])

lemma near_mono:
  assumes "near k x y" and "k \<le> l"
  shows "near l x y"
proof -
  have "(1 - 1 / 2 ^ 53 :: real) ^ l \<le> (1 - 1 / 2 ^ 53) ^ k"
    using assms(2) by (intro power_decreasing) simp_all
  then have "y * (1 - 1 / 2 ^ 53) ^ l \<le> y * (1 - 1 / 2 ^ 53) ^ k"
      "x * (1 - 1 / 2 ^ 53) ^ l \<le> x * (1 - 1 / 2 ^ 53) ^ k"
    using near_pos [OF assms(1)] by (simp_all only: mult_left_mono)
  then show ?thesis using assms(1) unfolding near_def by linarith
qed

lemma near_trans:
  assumes "near k x y" and "near l y z"
  shows "near (k + l) x z"
proof -
  let ?u = "1 - 1 / 2 ^ 53 :: real"
  have "z * ?u ^ l * ?u ^ k \<le> y * ?u ^ k" "x * ?u ^ k * ?u ^ l \<le> y * ?u ^ l"
    using assms by (auto simp: near_def intro!: mult_right_mono)
  moreover have "z * ?u ^ l * ?u ^ k = z * ?u ^ (k + l)" "x * ?u ^ k * ?u ^ l = x * ?u ^ (k + l)"
    by (simp_all only: power_add mult_ac)
  ultimately show ?thesis using assms unfolding near_def by linarith
qed

lemma near_add:
  assumes "near k x y" and "near k x' y'"
  shows "near k (x + x') (y + y')"
  using assms unfolding near_def by (simp only: distrib_right) linarith

lemma near_div:
  assumes "near k x y" and "near l x' y'" and "0 < y'"
  shows "near (k + l) (x / x') (y / y')" and "0 < x'"
proof -
  let ?u = "1 - 1 / 2 ^ 53 :: real"
  have u: "0 < ?u ^ l" "0 < ?u ^ k" by simp_all
  show x': "0 < x'"
    using assms(2,3) mult_pos_pos [OF assms(3) u(1)] unfolding near_def by linarith
  note pos = near_pos [OF assms(1)]
  have "y * ?u ^ k * (x' * ?u ^ l) \<le> x * y'" "x * ?u ^ k * (y' * ?u ^ l) \<le> y * x'"
    using assms x' pos by (auto simp: near_def intro!: mult_mono)
  then have le: "y * ?u ^ (k + l) * x' \<le> x * y'" "x * ?u ^ (k + l) * y' \<le> y * x'"
    by (simp_all only: power_add mult_ac)
  have "y / y' * ?u ^ (k + l) \<le> x / x'" "x / x' * ?u ^ (k + l) \<le> y / y'"
    unfolding times_divide_eq_left using le x' assms(3) by (simp_all only: frac_le_eq divide_le_cancel pos_divide_le_eq pos_le_divide_eq times_divide_eq_left)
  then show "near (k + l) (x / x') (y / y')"
    using pos assms(3) by (simp add: near_def)
qed

lemma near_round:
  assumes "0 \<le> p" and "0 < q"
  shows "near 1 (val (f64_round p q)) (real_of_int p / real_of_int q)"
proof -
  define x v where "x = real_of_int p / real_of_int q" and "v = val (f64_round p q)"
  have x: "0 \<le> x" using assms by (simp add: x_def)
  have "\<bar>v - x\<bar> \<le> x / 2 ^ 53" using f64_round_error [OF assms] unfolding x_def v_def .
  then have "x - x / 2 ^ 53 \<le> v" "v \<le> x + x / 2 ^ 53" by (simp_all only: abs_le_iff) linarith+
  then have "x * (1 - 1 / 2 ^ 53) \<le> v" and up: "v \<le> x * (1 + 1 / 2 ^ 53)"
    by (simp_all only: distrib_left right_diff_distrib mult_1_right times_divide_eq_right)
  moreover have "v * (1 - 1 / 2 ^ 53) \<le> x * (1 + 1 / 2 ^ 53) * (1 - 1 / 2 ^ 53)"
    using up by (rule mult_right_mono) simp
  moreover have "x * (1 + 1 / 2 ^ 53) * (1 - 1 / 2 ^ 53) \<le> x" using x by (simp add: field_simps)
  ultimately show ?thesis using x by (simp add: near_def x_def v_def)
qed

lemma near_of_int: "0 \<le> n \<Longrightarrow> near 1 (val (f64_of_int n)) (real_of_int n)"
  using near_round [of n 1] by (simp add: f64_of_int_def)

section \<open>The operations on values that are not negative\<close>

definition f64_ok :: "f64 \<Rightarrow> bool" where
  "f64_ok a \<longleftrightarrow> 0 \<le> fst a \<and> 0 < snd a"

lemma f64_ok_val: "f64_ok a \<Longrightarrow> 0 \<le> val a"
  by (simp add: f64_ok_def val_def)

lemma f64_ok_pos: "f64_ok a \<Longrightarrow> 0 < val a \<Longrightarrow> 0 < fst a"
  by (simp add: f64_ok_def val_def zero_less_divide_iff)

lemma round_ok: "0 \<le> p \<Longrightarrow> 0 < q \<Longrightarrow> f64_ok (f64_round p q)"
  using near_pos [OF near_round [of p q]] f64_round_pos [of q p]
  by (simp add: f64_ok_def val_def zero_le_divide_iff)

lemma of_int_ok [simp]: "0 \<le> n \<Longrightarrow> f64_ok (f64_of_int n)"
  by (simp add: f64_of_int_def round_ok)

lemma near_f64_add:
  assumes "f64_ok a" and "f64_ok b"
  shows "near 1 (val (f64_add a b)) (val a + val b)" and "f64_ok (f64_add a b)"
proof -
  have q: "0 \<le> fst a * snd b + fst b * snd a" "0 < snd a * snd b" "snd a \<noteq> 0" "snd b \<noteq> 0"
    using assms by (simp_all add: f64_ok_def)
  have "val a + val b = real_of_int (fst a * snd b + fst b * snd a) / real_of_int (snd a * snd b)"
    using q(3,4) by (simp add: val_def add_divide_distrib)
  then show "near 1 (val (f64_add a b)) (val a + val b)"
    using near_round [OF q(1,2)] by (simp only: f64_add_def)
  show "f64_ok (f64_add a b)" unfolding f64_add_def by (rule round_ok [OF q(1,2)])
qed

lemma near_f64_div:
  assumes "f64_ok a" and "f64_ok b" and "0 < val b"
  shows "near 1 (val (f64_div a b)) (val a / val b)" and "f64_ok (f64_div a b)"
proof -
  have q: "0 \<le> fst a * snd b" "0 < snd a * fst b" "0 < fst b"
    using assms f64_ok_pos [OF assms(2,3)] by (simp_all add: f64_ok_def)
  have div: "f64_div a b = f64_round (fst a * snd b) (snd a * fst b)"
    using q(3) by (simp add: f64_div_def)
  have "val a / val b = real_of_int (fst a * snd b) / real_of_int (snd a * fst b)"
    by (simp add: val_def)
  then show "near 1 (val (f64_div a b)) (val a / val b)"
    using near_round [OF q(1,2)] by (simp only: div)
  show "f64_ok (f64_div a b)" unfolding div by (rule round_ok [OF q(1,2)])
qed

lemma f64_less_val: "f64_ok a \<Longrightarrow> f64_ok b \<Longrightarrow> f64_less a b \<longleftrightarrow> val a < val b"
  by (simp add: f64_less_def f64_ok_def val_def divide_less_eq pos_less_divide_eq flip: of_int_mult)

lemma near_seconds:
  assumes "0 < d"
  shows "near 3 (val (seconds d)) (real_of_int d / 1000000000)" and "f64_ok (seconds d)"
    and "0 < val (seconds d)"
proof -
  define s m where "s = d div 1000000000" and "m = d mod 1000000000"
  define b where "b = f64_div (f64_of_int m) (1000000000, 1)"
  have sm: "0 \<le> s" "0 \<le> m" "d = s * 1000000000 + m"
    using assms by (simp_all add: s_def m_def pos_imp_zdiv_nonneg_iff)
  have sec: "seconds d = f64_add (f64_of_int s) b"
    using assms by (simp add: seconds_def Let_def s_def m_def b_def)
  have giga: "f64_ok (1000000000, 1)" "val (1000000000, 1) = 1000000000"
    by (simp_all add: f64_ok_def val_def)
  have b: "near 1 (val b) (val (f64_of_int m) / 1000000000)" "f64_ok b"
    using near_f64_div [OF of_int_ok [OF sm(2)] giga(1)] giga(2) by (simp_all add: b_def)
  have "near (1 + 0) (val (f64_of_int m) / 1000000000) (real_of_int m / 1000000000)"
    by (rule near_div [OF near_of_int [OF sm(2)]]) (simp_all add: near_def)
  from near_trans [OF b(1) this] have "near 2 (val b) (real_of_int m / 1000000000)"
    by (simp add: numeral_2_eq_2)
  moreover have "near 2 (val (f64_of_int s)) (real_of_int s)"
    by (rule near_mono [OF near_of_int [OF sm(1)]]) simp
  ultimately have "near 2 (val (f64_of_int s) + val b) (real_of_int s + real_of_int m / 1000000000)"
    by (rule near_add [rotated])
  moreover have "real_of_int s + real_of_int m / 1000000000 = real_of_int d / 1000000000"
    by (simp add: sm(3) add_divide_distrib)
  moreover note add = near_f64_add [OF of_int_ok [OF sm(1)] b(2)]
  ultimately have "near (1 + 2) (val (seconds d)) (real_of_int d / 1000000000)"
    unfolding sec by (metis near_trans)
  then show "near 3 (val (seconds d)) (real_of_int d / 1000000000)"
    by (simp add: eval_nat_numeral)
  then show "0 < val (seconds d)"
    using near_div(2) [of 0 0 0 3 "val (seconds d)" "real_of_int d / 1000000000"] assms
    by (simp add: near_def)
  show "f64_ok (seconds d)" using add(2) by (simp only: sec)
qed

section \<open>A rate against a floor\<close>

text \<open>
  The comparison of \<open>n\<close> bytes in \<open>d\<close> nanoseconds with \<open>m\<close> bytes a second is exact but for a margin
  of one part in 2^50.
\<close>

lemma margin: "(1 - 1 / 2 ^ 50 :: real) \<le> (1 - 1 / 2 ^ 53) ^ 6"
  using Bernoulli_inequality [of "- 1 / 2 ^ 53 :: real" 6] by simp

lemma rate_near:
  assumes "0 \<le> n" and "0 < d"
  shows "near 5 (val (f64_div (f64_of_int n) (seconds d))) (real_of_int n * 1000000000 / real_of_int d)"
    and "f64_ok (f64_div (f64_of_int n) (seconds d))"
proof -
  note sec = near_seconds [OF assms(2)]
  note div = near_f64_div [OF of_int_ok [OF assms(1)] sec(2,3)]
  have "near (1 + 3) (val (f64_of_int n) / val (seconds d)) (real_of_int n / (real_of_int d / 1000000000))"
    by (rule near_div(1) [OF near_of_int [OF assms(1)] sec(1)]) (use assms(2) in simp)
  from near_trans [OF div(1) this]
  show "near 5 (val (f64_div (f64_of_int n) (seconds d))) (real_of_int n * 1000000000 / real_of_int d)"
    by (simp add: eval_nat_numeral)
  show "f64_ok (f64_div (f64_of_int n) (seconds d))" by (rule div(2))
qed

lemma rate_less_sound:
  assumes "0 \<le> n" and "0 < d" and "0 \<le> m" and "rate_less n d m"
  shows "n * 1000000000 * (2 ^ 50 - 1) < m * d * 2 ^ 50"
proof -
  let ?u = "1 - 1 / 2 ^ 53 :: real" and ?y = "real_of_int n * 1000000000 / real_of_int d"
  define r f where "r = val (f64_div (f64_of_int n) (seconds d))" and "f = val (f64_of_int m)"
  have rf: "r < f" using assms f64_less_val [OF rate_near(2) of_int_ok]
    by (simp add: rate_less_def r_def f_def)
  have y: "0 \<le> ?y" "?y * ?u ^ 5 \<le> r" and m: "f * ?u ^ 1 \<le> real_of_int m"
    using rate_near(1) [OF assms(1,2)] near_of_int [OF assms(3)] unfolding near_def r_def f_def
    by blast+
  have "?y * (1 - 1 / 2 ^ 50) \<le> ?y * ?u ^ 6" by (rule mult_left_mono [OF margin y(1)])
  also have "?y * ?u ^ 6 = ?y * ?u ^ 5 * ?u ^ 1" by (simp only: mult.assoc power_add [symmetric]) simp
  also have "\<dots> \<le> r * ?u ^ 1" using y(2) by (rule mult_right_mono) simp
  also have "\<dots> < f * ?u ^ 1" using rf by (rule mult_strict_right_mono) simp
  also note m
  finally have "real_of_int n * 1000000000 * (1 - 1 / 2 ^ 50) < real_of_int m * real_of_int d"
    using assms(2) by (simp only: times_divide_eq_left pos_divide_less_eq of_int_0_less_iff)
  then have "real_of_int (n * 1000000000 * (2 ^ 50 - 1)) < real_of_int (m * d * 2 ^ 50)"
    by (simp add: field_simps)
  then show ?thesis by (simp only: of_int_less_iff)
qed

lemma rate_less_complete:
  assumes "0 \<le> n" and "0 < d" and "n * 1000000000 * 2 ^ 50 < m * d * (2 ^ 50 - 1)"
  shows "rate_less n d m"
proof -
  let ?u = "1 - 1 / 2 ^ 53 :: real" and ?y = "real_of_int n * 1000000000 / real_of_int d"
  have "0 \<le> n * 1000000000 * 2 ^ 50" using assms(1) by simp
  then have "0 < m * d * (2 ^ 50 - 1)" using assms(3) by linarith
  then have pos: "0 < m" using assms(2) by (simp add: zero_less_mult_iff)
  define r f where "r = val (f64_div (f64_of_int n) (seconds d))" and "f = val (f64_of_int m)"
  have y: "r * ?u ^ 5 \<le> ?y" and m: "real_of_int m * ?u ^ 1 \<le> f"
    using rate_near(1) [OF assms(1,2)] near_of_int [of m] pos unfolding near_def r_def f_def by auto
  have "real_of_int (n * 1000000000 * 2 ^ 50) < real_of_int (m * d * (2 ^ 50 - 1))"
    using assms(3) by (simp only: of_int_less_iff)
  then have "?y < real_of_int m * (1 - 1 / 2 ^ 50)" using assms(2) by (simp add: field_simps)
  also have "\<dots> \<le> real_of_int m * ?u ^ 6" using margin pos by (intro mult_left_mono) simp_all
  also have "\<dots> = real_of_int m * ?u ^ 1 * ?u ^ 5" by (simp only: mult.assoc power_add [symmetric]) simp
  also have "\<dots> \<le> f * ?u ^ 5" using m by (rule mult_right_mono) simp
  finally have "r * ?u ^ 5 < f * ?u ^ 5" using y by (rule le_less_trans [rotated])
  then have "r < f" by (rule mult_right_less_imp_less) simp
  then show ?thesis
    using f64_less_val [OF rate_near(2) [OF assms(1,2)] of_int_ok] pos
    by (simp add: rate_less_def r_def f_def)
qed

end
