(* ===== verification/OSModel.thy ===== *)
theory OSModel
  imports Body Digest "HOL-Library.AList"
begin

text \<open>
  The part of Go's packages os, path/filepath and crypto/rand that fs.go calls, on an explicit
  file system: an association list from absolute paths (component lists; the root directory is
  the empty list and always exists) to nodes. Every system call first consumes one entry of
  the environment's fault script: \<open>Some e\<close> makes the call fail with \<open>EFault e\<close> and do
  nothing else, so that each error branch of the code is reachable at every call; an
  exhausted script injects no further fault.
  A file's content is never modified through a second link in this program (files are only
  written under the fresh name that created them), so a hard link is a copy of the node.
  Not modelled: symbolic links, permissions beyond injected faults, name length limits.
\<close>

section \<open>State\<close>

type_synonym path = "string list"

datatype node = RegF bytes int | DirN | SpecN

record fsys =
  fnodes :: "(path \<times> node) list"
  fnow :: int
  fdirsize :: int
  ffaults :: "string option list"
  frand :: "bytes list"

definition node_at :: "fsys \<Rightarrow> path \<Rightarrow> node option" where
  "node_at s p = (if p = [] then Some DirN else map_of (fnodes s) p)"

definition set_node :: "path \<Rightarrow> node \<Rightarrow> fsys \<Rightarrow> fsys" where
  "set_node p n s = s\<lparr>fnodes := AList.update p n (fnodes s)\<rparr>"

definition del_node :: "path \<Rightarrow> fsys \<Rightarrow> fsys" where
  "del_node p s = s\<lparr>fnodes := AList.delete p (fnodes s)\<rparr>"

definition has_children :: "fsys \<Rightarrow> path \<Rightarrow> bool" where
  "has_children s p \<longleftrightarrow> list_ex (\<lambda>(q, n). q \<noteq> [] \<and> butlast q = p) (fnodes s)"

text \<open>The file at a path, as content.\<close>

definition file_at :: "fsys \<Rightarrow> path \<Rightarrow> bytes option" where
  "file_at s p = (case node_at s p of Some (RegF c t) \<Rightarrow> Some c | _ \<Rightarrow> None)"

section \<open>Path resolution\<close>

text \<open>Walking the components: a missing one is ENOENT, a file on the way is ENOTDIR.\<close>

fun resolve_from :: "fsys \<Rightarrow> path \<Rightarrow> path \<Rightarrow> oserr + node" where
  "resolve_from s pre [] =
     (case node_at s pre of None \<Rightarrow> Inl ENOENT | Some n \<Rightarrow> Inr n)"
| "resolve_from s pre (c # cs) =
     (case node_at s pre of
        None \<Rightarrow> Inl ENOENT
      | Some DirN \<Rightarrow> resolve_from s (pre @ [c]) cs
      | Some _ \<Rightarrow> Inl ENOTDIR)"

definition resolve :: "fsys \<Rightarrow> path \<Rightarrow> oserr + node" where
  "resolve s p = resolve_from s [] p"

section \<open>System calls\<close>

definition with_fault :: "(fsys \<Rightarrow> (oserr + 'a) \<times> fsys) \<Rightarrow> fsys \<Rightarrow> (oserr + 'a) \<times> fsys" where
  "with_fault f s =
     (case ffaults s of
        [] \<Rightarrow> f s
      | None # fs \<Rightarrow> f (s\<lparr>ffaults := fs\<rparr>)
      | Some e # fs \<Rightarrow> (Inl (EFault e), s\<lparr>ffaults := fs\<rparr>))"

definition os_stat :: "path \<Rightarrow> fsys \<Rightarrow> (oserr + node) \<times> fsys" where
  "os_stat p = with_fault (\<lambda>s. (resolve s p, s))"

definition os_open :: "path \<Rightarrow> fsys \<Rightarrow> (oserr + fhandle) \<times> fsys" where
  "os_open p = with_fault (\<lambda>s.
     ((case resolve s p of
         Inl e \<Rightarrow> Inl e
       | Inr (RegF c t) \<Rightarrow> Inr (FReg c)
       | Inr DirN \<Rightarrow> Inr FDirH
       | Inr SpecN \<Rightarrow> Inl ENXIO), s))"

definition os_mkdir :: "path \<Rightarrow> fsys \<Rightarrow> (oserr + unit) \<times> fsys" where
  "os_mkdir p = with_fault (\<lambda>s.
     (case resolve s (butlast p) of
        Inl e \<Rightarrow> (Inl e, s)
      | Inr DirN \<Rightarrow> if node_at s p = None then (Inr (), set_node p DirN s) else (Inl EEXIST, s)
      | Inr _ \<Rightarrow> (Inl ENOTDIR, s)))"

text \<open>\<open>os.MkdirAll\<close>: the missing directories on the way, topmost first.\<close>

fun mkdirAll_from :: "path \<Rightarrow> path \<Rightarrow> fsys \<Rightarrow> (oserr + unit) \<times> fsys" where
  "mkdirAll_from pre [] s = (Inr (), s)"
| "mkdirAll_from pre (c # cs) s =
     (case node_at s (pre @ [c]) of
        Some DirN \<Rightarrow> mkdirAll_from (pre @ [c]) cs s
      | Some _ \<Rightarrow> (Inl ENOTDIR, s)
      | None \<Rightarrow> (case os_mkdir (pre @ [c]) s of
                  (Inl e, s') \<Rightarrow> (Inl e, s')
                | (Inr u, s') \<Rightarrow> mkdirAll_from (pre @ [c]) cs s'))"

definition os_mkdirAll :: "path \<Rightarrow> fsys \<Rightarrow> (oserr + unit) \<times> fsys" where
  "os_mkdirAll p s = mkdirAll_from [] p s"

text \<open>\<open>os.OpenFile(p, O_WRONLY|O_CREATE|O_EXCL)\<close>, and writes through that handle.\<close>

definition os_create :: "path \<Rightarrow> fsys \<Rightarrow> (oserr + unit) \<times> fsys" where
  "os_create p = with_fault (\<lambda>s.
     (case resolve s (butlast p) of
        Inl e \<Rightarrow> (Inl e, s)
      | Inr DirN \<Rightarrow> if node_at s p = None then (Inr (), set_node p (RegF [] (fnow s)) s)
                   else (Inl EEXIST, s)
      | Inr _ \<Rightarrow> (Inl ENOTDIR, s)))"

definition os_write :: "path \<Rightarrow> bytes \<Rightarrow> fsys \<Rightarrow> (oserr + unit) \<times> fsys" where
  "os_write p bs = with_fault (\<lambda>s.
     (case node_at s p of
        Some (RegF c t) \<Rightarrow> (Inr (), set_node p (RegF (c @ bs) (fnow s)) s)
      | _ \<Rightarrow> (Inr (), s)))"

definition os_sync :: "fsys \<Rightarrow> (oserr + unit) \<times> fsys" where
  "os_sync = with_fault (\<lambda>s. (Inr (), s))"

definition os_close :: "fsys \<Rightarrow> (oserr + unit) \<times> fsys" where
  "os_close = with_fault (\<lambda>s. (Inr (), s))"

text \<open>Calls on an open read handle: reading it to the end, its size, and seeking from its start.\<close>

definition os_readAll :: "fhandle \<Rightarrow> fsys \<Rightarrow> (oserr + bytes) \<times> fsys" where
  "os_readAll h = with_fault (\<lambda>s.
     ((case h of FReg c \<Rightarrow> Inr c | FDirH \<Rightarrow> Inl EISDIR), s))"

definition os_fstat_size :: "fhandle \<Rightarrow> fsys \<Rightarrow> (oserr + int) \<times> fsys" where
  "os_fstat_size h = with_fault (\<lambda>s.
     (Inr (case h of FReg c \<Rightarrow> int (length c) | FDirH \<Rightarrow> fdirsize s), s))"

definition os_seek :: "fhandle \<Rightarrow> int \<Rightarrow> fsys \<Rightarrow> (oserr + fhandle) \<times> fsys" where
  "os_seek h off = with_fault (\<lambda>s.
     (Inr (case h of FReg c \<Rightarrow> FReg (drop (nat off) c) | FDirH \<Rightarrow> FDirH), s))"

definition os_readDir :: "path \<Rightarrow> fsys \<Rightarrow> (oserr + unit) \<times> fsys" where
  "os_readDir p = with_fault (\<lambda>s. (Inr (), s))"

text \<open>\<open>os.Remove\<close>: unlink a file or remove an empty directory.\<close>

definition os_remove :: "path \<Rightarrow> fsys \<Rightarrow> (oserr + unit) \<times> fsys" where
  "os_remove p = with_fault (\<lambda>s.
     (if p = [] then (Inl EBUSY, s)
      else case resolve s p of
        Inl e \<Rightarrow> (Inl e, s)
      | Inr DirN \<Rightarrow> if has_children s p then (Inl ENOTEMPTY, s) else (Inr (), del_node p s)
      | Inr _ \<Rightarrow> (Inr (), del_node p s)))"

definition os_link :: "path \<Rightarrow> path \<Rightarrow> fsys \<Rightarrow> (oserr + unit) \<times> fsys" where
  "os_link old new = with_fault (\<lambda>s.
     (case resolve s old of
        Inl e \<Rightarrow> (Inl e, s)
      | Inr DirN \<Rightarrow> (Inl EPERM, s)
      | Inr n \<Rightarrow>
          (case resolve s (butlast new) of
             Inl e \<Rightarrow> (Inl e, s)
           | Inr DirN \<Rightarrow> if node_at s new = None then (Inr (), set_node new n s)
                        else (Inl EEXIST, s)
           | Inr _ \<Rightarrow> (Inl ENOTDIR, s))))"

text \<open>\<open>os.Rename\<close> of a file: it replaces a file, and refuses to replace a directory.\<close>

definition os_rename :: "path \<Rightarrow> path \<Rightarrow> fsys \<Rightarrow> (oserr + unit) \<times> fsys" where
  "os_rename old new = with_fault (\<lambda>s.
     (case resolve s old of
        Inl e \<Rightarrow> (Inl e, s)
      | Inr DirN \<Rightarrow> (Inl EPERM, s)
      | Inr n \<Rightarrow>
          (case resolve s (butlast new) of
             Inl e \<Rightarrow> (Inl e, s)
           | Inr DirN \<Rightarrow> if node_at s new = Some DirN then (Inl EEXIST, s)
                        else if old = new then (Inr (), s)
                        else (Inr (), del_node old (set_node new n s))
           | Inr _ \<Rightarrow> (Inl ENOTDIR, s))))"

text \<open>\<open>randSuffix\<close> draws eight bytes; the script of draws is part of the state.\<close>

definition draw_rand :: "fsys \<Rightarrow> bytes \<times> fsys" where
  "draw_rand s =
     (case frand s of [] \<Rightarrow> (replicate 8 0, s) | b # bs \<Rightarrow> (b, s\<lparr>frand := bs\<rparr>))"

section \<open>Well-formedness\<close>

text \<open>Every node has a name and sits in a directory.\<close>

definition fs_wf :: "fsys \<Rightarrow> bool" where
  "fs_wf s \<longleftrightarrow> distinct (map fst (fnodes s)) \<and>
     (\<forall>p. node_at s p \<noteq> None \<longrightarrow> node_at s (butlast p) = Some DirN)"

lemma node_at_Nil [simp]: "node_at s [] = Some DirN"
  by (simp add: node_at_def)

lemma node_at_set_node [simp]: "p \<noteq> [] \<Longrightarrow> node_at (set_node p n s) = (node_at s)(p \<mapsto> n)"
  by (auto simp: node_at_def set_node_def update_conv')

lemma node_at_del_node [simp]: "p \<noteq> [] \<Longrightarrow> node_at (del_node p s) = (node_at s)(p := None)"
  by (auto simp: node_at_def del_node_def delete_conv')

lemma set_del_fields [simp]:
  "ffaults (set_node p n s) = ffaults s" "ffaults (del_node p s) = ffaults s"
  "fdirsize (set_node p n s) = fdirsize s" "fdirsize (del_node p s) = fdirsize s"
  by (simp_all add: set_node_def del_node_def)

lemma distinct_set_node: "distinct (map fst (fnodes s)) \<Longrightarrow> distinct (map fst (fnodes (set_node p n s)))"
  by (simp add: set_node_def distinct_update)

lemma distinct_del_node: "distinct (map fst (fnodes s)) \<Longrightarrow> distinct (map fst (fnodes (del_node p s)))"
  by (simp add: del_node_def distinct_delete)

lemma has_children_iff:
  "fs_wf s \<Longrightarrow> has_children s p \<longleftrightarrow> (\<exists>q. q \<noteq> [] \<and> butlast q = p \<and> node_at s q \<noteq> None)"
proof -
  assume "fs_wf s"
  then have "distinct (map fst (fnodes s))" by (simp add: fs_wf_def)
  then have "(\<exists>n. (q, n) \<in> set (fnodes s)) \<longleftrightarrow> map_of (fnodes s) q \<noteq> None" for q
    by (force dest: map_of_SomeD simp: map_of_eq_None_iff)
  then show ?thesis by (auto simp: has_children_def list_ex_iff node_at_def; blast)
qed

lemma fs_wf_set_node:
  assumes "fs_wf s" and "p \<noteq> []" and "node_at s (butlast p) = Some DirN"
    and "n = DirN \<or> node_at s p \<noteq> Some DirN"
  shows "fs_wf (set_node p n s)"
proof -
  have "butlast q \<noteq> p \<or> n = DirN" if "node_at s q \<noteq> None" for q
    using that assms by (auto simp: fs_wf_def)
  moreover have "butlast p \<noteq> p" using assms(2) by (metis append_butlast_last_id append_self_conv not_Cons_self2)
  ultimately show ?thesis
    using assms by (auto simp: fs_wf_def distinct_set_node)
qed

lemma fs_wf_del_node:
  assumes "fs_wf s" and "p \<noteq> []" and "node_at s p \<noteq> Some DirN \<or> \<not> has_children s p"
  shows "fs_wf (del_node p s)"
proof -
  have "butlast q \<noteq> p" if "node_at s q \<noteq> None" for q
    using that assms has_children_iff [OF assms(1), of p] by (cases "q = []") (auto simp: fs_wf_def)
  note keep = this
  show ?thesis
    unfolding fs_wf_def
  proof (intro conjI allI impI)
    show "distinct (map fst (fnodes (del_node p s)))"
      using assms by (simp add: fs_wf_def distinct_del_node)
    fix q
    assume "node_at (del_node p s) q \<noteq> None"
    then have "node_at s q \<noteq> None" and "butlast q \<noteq> p"
      using assms(2) keep by (auto split: if_splits)
    then show "node_at (del_node p s) (butlast q) = Some DirN"
      using assms by (simp add: fs_wf_def)
  qed
qed

text \<open>All proper prefixes of an existing path are directories.\<close>

lemma fs_wf_prefix_dir:
  "fs_wf s \<Longrightarrow> node_at s (p @ q) \<noteq> None \<Longrightarrow> q \<noteq> [] \<Longrightarrow> node_at s p = Some DirN"
proof (induction q rule: rev_induct)
  case (snoc c q)
  then have d: "node_at s (p @ q) = Some DirN"
    by (auto simp: fs_wf_def butlast_append)
  show ?case
  proof (cases "q = []")
    case True
    with d show ?thesis by simp
  next
    case False
    with d snoc show ?thesis by simp
  qed
qed simp

section \<open>Resolution on well-formed states\<close>

lemma resolve_from_Inr:
  "resolve_from s pre cs = Inr n \<Longrightarrow> node_at s (pre @ cs) = Some n"
  by (induction s pre cs rule: resolve_from.induct) (auto split: option.splits node.splits)

lemma resolve_Inr: "resolve s p = Inr n \<Longrightarrow> node_at s p = Some n"
  using resolve_from_Inr [of s "[]" p n] by (simp add: resolve_def)

lemma resolve_from_Some:
  "fs_wf s \<Longrightarrow> node_at s (pre @ cs) = Some n \<Longrightarrow> resolve_from s pre cs = Inr n"
proof (induction s pre cs rule: resolve_from.induct)
  case (2 s pre c cs)
  then have "node_at s pre = Some DirN"
    using fs_wf_prefix_dir [of s pre "c # cs"] by simp
  with 2 show ?case by simp
qed simp

lemma resolve_Some [simp]: "fs_wf s \<Longrightarrow> node_at s p = Some n \<Longrightarrow> resolve s p = Inr n"
  using resolve_from_Some [of s "[]" p n] by (simp add: resolve_def)

text \<open>A path below a directory chain that ends early is ENOENT; below a file it is ENOTDIR.\<close>

lemma resolve_from_None:
  assumes "node_at s (pre @ cs) = None"
    and "\<And>xs ys. cs = xs @ ys \<Longrightarrow> ys \<noteq> [] \<Longrightarrow> node_at s (pre @ xs) \<in> {None, Some DirN}"
  shows "resolve_from s pre cs = Inl ENOENT"
  using assms
proof (induction s pre cs rule: resolve_from.induct)
  case (2 s pre c cs)
  have "node_at s pre \<in> {None, Some DirN}"
    using 2(3) [of "[]" "c # cs"] by simp
  moreover have "resolve_from s (pre @ [c]) cs = Inl ENOENT" if "node_at s pre = Some DirN"
  proof (rule 2(1) [OF that refl])
    show "node_at s ((pre @ [c]) @ cs) = None" using 2(2) by simp
    show "node_at s ((pre @ [c]) @ xs) \<in> {None, Some DirN}" if "cs = xs @ ys" "ys \<noteq> []" for xs ys
      using 2(3) [of "c # xs" ys] that by simp
  qed
  ultimately show ?case by auto
qed simp

lemma resolve_None:
  assumes "node_at s p = None"
    and "\<And>xs ys. p = xs @ ys \<Longrightarrow> ys \<noteq> [] \<Longrightarrow> node_at s xs \<in> {None, Some DirN}"
  shows "resolve s p = Inl ENOENT"
  unfolding resolve_def by (rule resolve_from_None) (use assms in auto)

lemma resolve_from_below_file:
  "fs_wf s \<Longrightarrow> node_at s (pre @ xs) = Some n \<Longrightarrow> n \<noteq> DirN \<Longrightarrow>
     resolve_from s pre (xs @ c # cs) = Inl ENOTDIR"
proof (induction xs arbitrary: pre)
  case Nil
  then show ?case by (auto split: node.splits)
next
  case (Cons x xs)
  have "node_at s pre = Some DirN"
    using Cons.prems fs_wf_prefix_dir [of s pre "x # xs"] by simp
  moreover have "resolve_from s (pre @ [x]) (xs @ c # cs) = Inl ENOTDIR"
    by (rule Cons.IH) (use Cons.prems in auto)
  ultimately show ?case by simp
qed

lemma resolve_below_file:
  "fs_wf s \<Longrightarrow> node_at s p = Some n \<Longrightarrow> n \<noteq> DirN \<Longrightarrow> resolve s (p @ c # cs) = Inl ENOTDIR"
  unfolding resolve_def using resolve_from_below_file [of s "[]" p n] by simp

section \<open>Outcomes of the system calls\<close>

text \<open>
  What each call says about the nodes before and after it, whatever the fault script does;
  the calls only read or change \<open>fnodes\<close> besides the script.
\<close>

lemma node_at_fnodes: "fnodes s' = fnodes s \<Longrightarrow> node_at s' = node_at s"
  unfolding node_at_def by (rule ext) simp

lemma resolve_from_fnodes: "fnodes s' = fnodes s \<Longrightarrow> resolve_from s' pre cs = resolve_from s pre cs"
proof (induction cs arbitrary: pre)
  case Nil
  then show ?case by (simp add: node_at_fnodes [OF Nil])
next
  case (Cons c cs)
  then show ?case by (simp add: node_at_fnodes [OF Cons.prems] split: option.split node.split)
qed

lemma resolve_fnodes: "fnodes s' = fnodes s \<Longrightarrow> resolve s' p = resolve s p"
  unfolding resolve_def by (rule resolve_from_fnodes)

lemma fs_wf_fnodes: "fnodes s' = fnodes s \<Longrightarrow> fs_wf s' = fs_wf s"
  unfolding fs_wf_def using node_at_fnodes [of s' s] by simp

lemma file_at_fnodes: "fnodes s' = fnodes s \<Longrightarrow> file_at s' = file_at s"
  unfolding file_at_def using node_at_fnodes [of s' s] by simp

lemma fault_frame [simp]:
  "node_at (s\<lparr>ffaults := x\<rparr>) = node_at s"
  "resolve (s\<lparr>ffaults := x\<rparr>) p = resolve s p"
  "fs_wf (s\<lparr>ffaults := x\<rparr>) = fs_wf s"
  "file_at (s\<lparr>ffaults := x\<rparr>) = file_at s"
  "has_children (s\<lparr>ffaults := x\<rparr>) p = has_children s p"
  by (rule node_at_fnodes resolve_fnodes fs_wf_fnodes file_at_fnodes; simp)+
     (simp add: has_children_def)

lemma resolve_Inl: "fs_wf s \<Longrightarrow> resolve s p = Inl e \<Longrightarrow> node_at s p = None"
  by (cases "node_at s p") simp_all

lemma resolve_from_Inl_cases: "resolve_from s pre cs = Inl e \<Longrightarrow> e = ENOENT \<or> e = ENOTDIR"
  by (induction s pre cs rule: resolve_from.induct) (auto split: option.splits node.splits)

lemma resolve_Inl_cases: "resolve s p = Inl e \<Longrightarrow> e = ENOENT \<or> e = ENOTDIR"
  unfolding resolve_def by (rule resolve_from_Inl_cases)

lemma with_fault_quiet [simp]: "ffaults s = [] \<Longrightarrow> with_fault f s = f s"
  by (simp add: with_fault_def)

lemma with_fault_cases [consumes 1, case_names fault run]:
  assumes "with_fault f s = (res, s')"
  obtains (fault) e fs where "res = Inl (EFault e)" "s' = s\<lparr>ffaults := fs\<rparr>" "ffaults s \<noteq> []"
    | (run) fs where "f (s\<lparr>ffaults := fs\<rparr>) = (res, s')" "ffaults s = [] \<longrightarrow> fs = []"
proof (cases "ffaults s")
  case Nil
  then have "s\<lparr>ffaults := []\<rparr> = s" by simp
  with Nil assms run [of "[]"] show thesis by (simp add: with_fault_def)
next
  case (Cons x fs)
  with assms fault run show thesis
    by (cases x) (auto simp: with_fault_def)
qed

lemma os_stat_out:
  assumes "os_stat p s = (res, s')"
  shows "fnodes s' = fnodes s" and "res = Inr n \<Longrightarrow> node_at s p = Some n"
    and "fs_wf s \<Longrightarrow> res = Inl ENOENT \<Longrightarrow> node_at s p = None"
    and "ffaults s = [] \<Longrightarrow> ffaults s' = []"
  using assms unfolding os_stat_def
  by (auto elim!: with_fault_cases dest: resolve_Inr resolve_Inl)

lemma os_open_out:
  assumes "os_open p s = (res, s')"
  shows "fnodes s' = fnodes s"
    and "res = Inr (FReg c) \<Longrightarrow> file_at s p = Some c"
    and "res = Inr FDirH \<Longrightarrow> node_at s p = Some DirN"
    and "fs_wf s \<Longrightarrow> res = Inl ENOENT \<Longrightarrow> node_at s p = None"
    and "ffaults s = [] \<Longrightarrow> ffaults s' = []"
  using assms unfolding os_open_def
  by (auto elim!: with_fault_cases dest!: resolve_Inr resolve_Inl simp: file_at_def
      split: sum.splits node.splits)

lemma os_sync_out:
  assumes "os_sync s = (res, s')"
  shows "fnodes s' = fnodes s" and "ffaults s = [] \<Longrightarrow> ffaults s' = [] \<and> res = Inr ()"
  using assms unfolding os_sync_def by (auto elim!: with_fault_cases)

lemma os_close_out [simp]:
  "fnodes (snd (os_close s)) = fnodes s" "ffaults s = [] \<Longrightarrow> os_close s = (Inr (), s)"
  by (auto simp: os_close_def with_fault_def split: list.split option.split)

lemma os_readAll_out:
  assumes "os_readAll h s = (res, s')"
  shows "fnodes s' = fnodes s" and "res = Inr c \<Longrightarrow> h = FReg c"
    and "res = Inl e \<Longrightarrow> e = EISDIR \<or> (\<exists>x. e = EFault x)"
    and "ffaults s = [] \<Longrightarrow> ffaults s' = [] \<and> (h = FReg c' \<longrightarrow> res = Inr c')"
  using assms unfolding os_readAll_def
  by (auto elim!: with_fault_cases split: fhandle.splits)

lemma os_fstat_size_out:
  assumes "os_fstat_size h s = (res, s')"
  shows "fnodes s' = fnodes s" and "res = Inr n \<Longrightarrow> h = FReg c \<Longrightarrow> n = int (length c)"
    and "ffaults s = [] \<Longrightarrow> ffaults s' = [] \<and> (\<exists>n. res = Inr n)"
  using assms unfolding os_fstat_size_def by (auto elim!: with_fault_cases)

lemma os_seek_out:
  assumes "os_seek h off s = (res, s')"
  shows "fnodes s' = fnodes s" and "res = Inr h' \<Longrightarrow> h = FReg c \<Longrightarrow> h' = FReg (drop (nat off) c)"
    and "res = Inr FDirH \<Longrightarrow> h = FDirH"
    and "ffaults s = [] \<Longrightarrow> ffaults s' = [] \<and> (\<exists>n. res = Inr n)"
  using assms unfolding os_seek_def by (auto elim!: with_fault_cases split: fhandle.splits)

lemma os_readDir_out:
  assumes "os_readDir p s = (res, s')"
  shows "fnodes s' = fnodes s" and "ffaults s = [] \<Longrightarrow> ffaults s' = [] \<and> res = Inr ()"
  using assms unfolding os_readDir_def by (auto elim!: with_fault_cases)

lemma os_mkdir_out:
  assumes "os_mkdir p s = (res, s')" and "p \<noteq> []" and "fs_wf s"
  shows "fs_wf s'"
    and "res = Inl e \<Longrightarrow> fnodes s' = fnodes s"
    and "res = Inr u \<Longrightarrow> node_at s p = None \<and> node_at s' = (node_at s)(p \<mapsto> DirN)"
    and "ffaults s = [] \<Longrightarrow> ffaults s' = []"
  using assms unfolding os_mkdir_def
  by (auto elim!: with_fault_cases dest!: resolve_Inr split: sum.splits node.splits if_splits
      intro!: fs_wf_set_node)

lemma os_create_out:
  assumes "os_create p s = (res, s')" and "p \<noteq> []" and "fs_wf s"
  shows "fs_wf s'"
    and "res = Inl e \<Longrightarrow> fnodes s' = fnodes s"
    and "res = Inr u \<Longrightarrow> node_at s p = None \<and> node_at s' = (node_at s)(p \<mapsto> RegF [] (fnow s))"
    and "ffaults s = [] \<Longrightarrow> ffaults s' = []"
  using assms unfolding os_create_def
  by (auto elim!: with_fault_cases dest!: resolve_Inr split: sum.splits node.splits if_splits
      intro!: fs_wf_set_node)

lemma os_write_out:
  assumes "os_write p bs s = (res, s')" and "fs_wf s"
    and "node_at s p = Some (RegF c t)"
  shows "fs_wf s'"
    and "res = Inl e \<Longrightarrow> fnodes s' = fnodes s"
    and "res = Inr u \<Longrightarrow> node_at s' = (node_at s)(p \<mapsto> RegF (c @ bs) (fnow s))"
    and "ffaults s = [] \<Longrightarrow> ffaults s' = [] \<and> res = Inr ()"
proof -
  have p: "p \<noteq> []" using assms(3) by auto
  then have "node_at s (butlast p) = Some DirN" using assms(2,3) by (simp add: fs_wf_def)
  then show "fs_wf s'" "res = Inl e \<Longrightarrow> fnodes s' = fnodes s"
    "res = Inr u \<Longrightarrow> node_at s' = (node_at s)(p \<mapsto> RegF (c @ bs) (fnow s))"
    "ffaults s = [] \<Longrightarrow> ffaults s' = [] \<and> res = Inr ()"
    using assms p unfolding os_write_def
    by (auto elim!: with_fault_cases intro!: fs_wf_set_node)
qed

lemma os_remove_out:
  assumes "os_remove p s = (res, s')" and "fs_wf s"
  shows "fs_wf s'"
    and "res = Inl e \<Longrightarrow> fnodes s' = fnodes s"
    and "res = Inr u \<Longrightarrow> p \<noteq> [] \<and> node_at s p \<noteq> None \<and> node_at s' = (node_at s)(p := None)"
    and "res = Inl ENOENT \<Longrightarrow> node_at s p = None"
    and "ffaults s = [] \<Longrightarrow> ffaults s' = []"
  using assms unfolding os_remove_def
  by (auto elim!: with_fault_cases dest!: resolve_Inr dest: resolve_Inl
      split: sum.splits node.splits if_splits intro!: fs_wf_del_node)

lemma os_link_out:
  assumes "os_link old new s = (res, s')" and "fs_wf s"
  shows "fs_wf s'"
    and "res = Inl e \<Longrightarrow> fnodes s' = fnodes s"
    and "res = Inr u \<Longrightarrow> node_at s new = None
      \<and> (\<exists>n. node_at s old = Some n \<and> n \<noteq> DirN \<and> node_at s' = (node_at s)(new \<mapsto> n))"
    and "res = Inl EEXIST \<or> res = Inl ENOTEMPTY \<Longrightarrow> node_at s new \<noteq> None"
    and "ffaults s = [] \<Longrightarrow> ffaults s' = []"
proof -
  have ne: "node_at s new = None \<Longrightarrow> new \<noteq> []" by auto
  show "fs_wf s'" "res = Inl e \<Longrightarrow> fnodes s' = fnodes s"
    "res = Inr u \<Longrightarrow> node_at s new = None
      \<and> (\<exists>n. node_at s old = Some n \<and> n \<noteq> DirN \<and> node_at s' = (node_at s)(new \<mapsto> n))"
    "res = Inl EEXIST \<or> res = Inl ENOTEMPTY \<Longrightarrow> node_at s new \<noteq> None"
    "ffaults s = [] \<Longrightarrow> ffaults s' = []"
    using assms ne unfolding os_link_def
    by (auto elim!: with_fault_cases dest!: resolve_Inr dest: resolve_Inl_cases
        split: sum.splits node.splits if_splits intro!: fs_wf_set_node)
qed

lemma os_rename_out:
  assumes "os_rename old new s = (res, s')" and "fs_wf s" and "old \<noteq> new" and "new \<noteq> []"
  shows "fs_wf s'"
    and "res = Inl e \<Longrightarrow> fnodes s' = fnodes s"
    and "res = Inr u \<Longrightarrow> node_at s new \<noteq> Some DirN
      \<and> (\<exists>n. node_at s old = Some n \<and> n \<noteq> DirN
            \<and> node_at s' = (node_at s)(new \<mapsto> n, old := None))"
    and "ffaults s = [] \<Longrightarrow> ffaults s' = []"
proof -
  have old: "old \<noteq> []" if "node_at s old = Some n" "n \<noteq> DirN" for n
    using that by auto
  have "fs_wf (del_node old (set_node new n t))"
    if "node_at s old = Some n" "n \<noteq> DirN" "node_at s (butlast new) = Some DirN"
      "node_at s new \<noteq> Some DirN" "node_at t = node_at s" "fs_wf t" for n t
    using that assms old [OF that(1,2)]
    by (intro fs_wf_del_node fs_wf_set_node) auto
  with old show "fs_wf s'" "res = Inl e \<Longrightarrow> fnodes s' = fnodes s"
    "res = Inr u \<Longrightarrow> node_at s new \<noteq> Some DirN
      \<and> (\<exists>n. node_at s old = Some n \<and> n \<noteq> DirN
            \<and> node_at s' = (node_at s)(new \<mapsto> n, old := None))"
    "ffaults s = [] \<Longrightarrow> ffaults s' = []"
    using assms unfolding os_rename_def
    by (auto elim!: with_fault_cases dest!: resolve_Inr
        split: sum.splits node.splits if_splits)
qed

text \<open>\<open>MkdirAll\<close> only adds directories, and only on the way to its argument.\<close>

definition only_new_dirs :: "path \<Rightarrow> fsys \<Rightarrow> fsys \<Rightarrow> bool" where
  "only_new_dirs p s s' \<longleftrightarrow>
     (\<forall>q. node_at s' q = node_at s q \<or> node_at s q = None \<and> node_at s' q = Some DirN \<and> prefix q p)"

lemma only_new_dirs_step:
  assumes "node_at s d = None" and "node_at s1 = (node_at s)(d \<mapsto> DirN)" and "prefix d p"
    and "only_new_dirs p s1 s'"
  shows "only_new_dirs p s s'"
  unfolding only_new_dirs_def
proof
  fix q
  have "node_at s' q = node_at s1 q \<or> node_at s1 q = None \<and> node_at s' q = Some DirN \<and> prefix q p"
    using assms(4) by (simp add: only_new_dirs_def)
  then show "node_at s' q = node_at s q
      \<or> node_at s q = None \<and> node_at s' q = Some DirN \<and> prefix q p"
    using assms(1,2,3) by (cases "q = d") auto
qed

lemma mkdirAll_from_out:
  "mkdirAll_from pre cs s = (res, s') \<Longrightarrow> fs_wf s \<Longrightarrow> node_at s pre = Some DirN \<Longrightarrow>
     fs_wf s' \<and> only_new_dirs (pre @ cs) s s'
   \<and> (res = Inr () \<longrightarrow> node_at s' (pre @ cs) = Some DirN)
   \<and> (ffaults s = [] \<longrightarrow> ffaults s' = [])"
proof (induction cs arbitrary: pre s)
  case Nil
  then show ?case by (simp add: only_new_dirs_def)
next
  case (Cons c cs)
  show ?case
  proof (cases "node_at s (pre @ [c])")
    case None
    obtain r s1 where m: "os_mkdir (pre @ [c]) s = (r, s1)" by fastforce
    note out = os_mkdir_out [OF m _ Cons.prems(2)]
    show ?thesis
    proof (cases r)
      case (Inl e)
      with m None Cons.prems have "s' = s1" "res = Inl e" by auto
      with out Inl show ?thesis
        by (auto simp: only_new_dirs_def dest: node_at_fnodes)
    next
      case (Inr u)
      with m None Cons.prems have step: "mkdirAll_from (pre @ [c]) cs s1 = (res, s')" by simp
      have n: "node_at s1 = (node_at s)(pre @ [c] \<mapsto> DirN)" using out(3) Inr by simp
      have ih: "fs_wf s' \<and> only_new_dirs ((pre @ [c]) @ cs) s1 s'
        \<and> (res = Inr () \<longrightarrow> node_at s' ((pre @ [c]) @ cs) = Some DirN)
        \<and> (ffaults s1 = [] \<longrightarrow> ffaults s' = [])"
        by (rule Cons.IH [OF step]) (use out(1) n in auto)
      have "only_new_dirs (pre @ c # cs) s s'"
        by (rule only_new_dirs_step [OF None n]) (use ih in auto)
      with ih out(4) show ?thesis by simp
    qed
  next
    case (Some n)
    show ?thesis
    proof (cases "n = DirN")
      case True
      with Some Cons.prems have "mkdirAll_from (pre @ [c]) cs s = (res, s')" by simp
      from Cons.IH [OF this] Cons.prems Some True show ?thesis by simp
    next
      case False
      with Some Cons.prems have "s' = s" "res = Inl ENOTDIR" by (auto split: node.splits)
      with Cons.prems show ?thesis by (simp add: only_new_dirs_def)
    qed
  qed
qed

lemma os_mkdirAll_out:
  assumes "os_mkdirAll p s = (res, s')" and "fs_wf s"
  shows "fs_wf s'" and "only_new_dirs p s s'" and "res = Inr () \<Longrightarrow> node_at s' p = Some DirN"
    and "ffaults s = [] \<Longrightarrow> ffaults s' = []"
  using mkdirAll_from_out [of "[]" p s res s'] assms by (auto simp: os_mkdirAll_def)

lemma only_new_dirs_file: "only_new_dirs p s s' \<Longrightarrow> file_at s' = file_at s"
proof (rule ext)
  fix q
  assume "only_new_dirs p s s'"
  then have "node_at s' q = node_at s q \<or> node_at s q = None \<and> node_at s' q = Some DirN"
    by (auto simp: only_new_dirs_def)
  then show "file_at s' q = file_at s q" by (auto simp: file_at_def)
qed

text \<open>Without a fault, \<open>MkdirAll\<close> fails only on a file in the way.\<close>

lemma mkdirAll_from_quiet:
  "fs_wf s \<Longrightarrow> ffaults s = [] \<Longrightarrow> node_at s pre = Some DirN \<Longrightarrow>
   (\<And>xs ys. cs = xs @ ys \<Longrightarrow> node_at s (pre @ xs) \<in> {None, Some DirN}) \<Longrightarrow>
   fst (mkdirAll_from pre cs s) = Inr ()"
proof (induction cs arbitrary: pre s)
  case (Cons c cs)
  have here: "node_at s (pre @ [c]) \<in> {None, Some DirN}"
    using Cons.prems(4) [of "[c]" cs] by simp
  show ?case
  proof (cases "node_at s (pre @ [c])")
    case None
    have m: "os_mkdir (pre @ [c]) s = (Inr (), set_node (pre @ [c]) DirN s)"
      using Cons.prems None by (simp add: os_mkdir_def)
    have "fst (mkdirAll_from (pre @ [c]) cs (set_node (pre @ [c]) DirN s)) = Inr ()"
    proof (rule Cons.IH)
      show "fs_wf (set_node (pre @ [c]) DirN s)"
        using os_mkdir_out(1) [OF m] Cons.prems by simp
      show "node_at (set_node (pre @ [c]) DirN s) ((pre @ [c]) @ xs) \<in> {None, Some DirN}"
        if "cs = xs @ ys" for xs ys
        using Cons.prems(4) [of "c # xs" ys] that by auto
    qed (use Cons.prems in auto)
    with m None show ?thesis by simp
  next
    case (Some n)
    with here have "n = DirN" by simp
    moreover have "fst (mkdirAll_from (pre @ [c]) cs s) = Inr ()"
    proof (rule Cons.IH)
      show "node_at s ((pre @ [c]) @ xs) \<in> {None, Some DirN}" if "cs = xs @ ys" for xs ys
        using Cons.prems(4) [of "c # xs" ys] that by simp
    qed (use Cons.prems Some \<open>n = DirN\<close> in auto)
    ultimately show ?thesis using Some by simp
  qed
qed simp

lemma os_mkdirAll_quiet:
  assumes "fs_wf s" and "ffaults s = []"
    and "\<And>xs ys. p = xs @ ys \<Longrightarrow> node_at s xs \<in> {None, Some DirN}"
  shows "fst (os_mkdirAll p s) = Inr ()"
  unfolding os_mkdirAll_def by (rule mkdirAll_from_quiet) (use assms in auto)

end
