(* ===== verification/FS.thy ===== *)
theory FS
  imports OSModel Bucket
begin

text \<open>
  The filesystem backend, fs.go: every function of the file, on the file-system state of
  OSModel. The root directory is a parameter of each operation (the only field of the Go
  struct besides its mutex); FSConc treats the mutex and interleavings.
\<close>

section \<open>Keys and paths\<close>

text \<open>\<open>OpenFS\<close>, for an absolute cleaned root.\<close>

definition openFS :: "path \<Rightarrow> fsys \<Rightarrow> (err + path) \<times> fsys" where
  "openFS root s =
     (case os_mkdirAll root s of
        (Inl e, s') \<Rightarrow> (Inl (EWrap ''objectstore/fs: mkdir root'' (EOS e)), s')
      | (Inr u, s') \<Rightarrow> (Inr root, s'))"

text \<open>
  \<open>keyPath\<close>: a key's path. The rejected keys are empty, contain two dots, or have an empty
  segment; \<open>filepath.Join\<close> then cleans the path, which drops the segments that are one dot.
\<close>

definition join_clean :: "path \<Rightarrow> string list \<Rightarrow> path" where
  "join_clean root parts = root @ filter (\<lambda>p. p \<noteq> ''.'' \<and> p \<noteq> '''') parts"

definition keyPath :: "path \<Rightarrow> string \<Rightarrow> err + path" where
  "keyPath root key =
     (if key = '''' then Inl (EMsg ''objectstore/fs: empty key'')
      else if sublist ''..'' key then Inl (EMsg ''objectstore/fs: refusing key'')
      else let parts = split_on (CHR ''/'') key
           in if list_ex (\<lambda>p. p = '''') parts then Inl (EMsg ''objectstore/fs: empty key segment'')
              else Inr (join_clean root parts))"

text \<open>\<open>path + ".tmp." + randSuffix()\<close>: the suffix goes to the last component.\<close>

definition randSuffix :: "fsys \<Rightarrow> string \<times> fsys" where
  "randSuffix s = (case draw_rand s of (b, s') \<Rightarrow> (hexEncode b, s'))"

definition tmpPath :: "path \<Rightarrow> string \<Rightarrow> path" where
  "tmpPath p sfx =
     (if p = [] then [''.tmp.'' @ sfx] else butlast p @ [last p @ ''.tmp.'' @ sfx])"

section \<open>Entity tags and preconditions\<close>

definition fileETag :: "path \<Rightarrow> fsys \<Rightarrow> (err + string) \<times> fsys" where
  "fileETag p s =
     (case os_open p s of
        (Inl e, s1) \<Rightarrow> (Inl (EOS e), s1)
      | (Inr h, s1) \<Rightarrow>
          (case os_readAll h s1 of
             (Inl e, s2) \<Rightarrow> (Inl (EOS e), snd (os_close s2))
           | (Inr c, s2) \<Rightarrow> (Inr (sha256hex c), snd (os_close s2))))"

definition ifAbsent :: "string option \<Rightarrow> bool" where
  "ifAbsent ifMatch \<longleftrightarrow> ifMatch = Some ''''"

text \<open>\<open>checkIfMatch\<close>; \<open>None\<close> is the nil error.\<close>

definition checkIfMatch :: "path \<Rightarrow> string option \<Rightarrow> fsys \<Rightarrow> err option \<times> fsys" where
  "checkIfMatch p ifMatch s =
     (case ifMatch of
        None \<Rightarrow> (None, s)
      | Some t \<Rightarrow>
          if t = '''' then
            (case os_stat p s of
               (Inr n, s1) \<Rightarrow> (Some ErrPreconditionFailed, s1)
             | (Inl e, s1) \<Rightarrow>
                 if \<not> isErrNotExist (EOS e) then (Some (EWrap ''objectstore/fs: stat'' (EOS e)), s1)
                 else (None, s1))
          else
            (case fileETag p s of
               (Inl e, s1) \<Rightarrow>
                 if isErrNotExist e then (Some ErrPreconditionFailed, s1)
                 else (Some (EWrap ''objectstore/fs: etag'' e), s1)
             | (Inr cur, s1) \<Rightarrow>
                 if cur \<noteq> t then (Some ErrPreconditionFailed, s1) else (None, s1)))"

definition commit :: "path \<Rightarrow> path \<Rightarrow> bool \<Rightarrow> fsys \<Rightarrow> err option \<times> fsys" where
  "commit tmp p mustBeAbsent s =
     (if mustBeAbsent then
        (case os_link tmp p s of
           (Inl e, s1) \<Rightarrow>
             if isErrExist (EOS e) then (Some ErrPreconditionFailed, s1)
             else (Some (EWrap ''objectstore/fs: link'' (EOS e)), s1)
         | (Inr u, s1) \<Rightarrow> (None, snd (os_remove tmp s1)))
      else
        (case os_rename tmp p s of
           (Inl e, s1) \<Rightarrow> (Some (EWrap ''objectstore/fs: rename'' (EOS e)), s1)
         | (Inr u, s1) \<Rightarrow> (None, s1)))"

section \<open>Writing\<close>

text \<open>
  \<open>io.Copy(io.MultiWriter(file, h), body)\<close>: each delivery is written, then its error is
  looked at; the accumulated bytes are what the hash has seen.
\<close>

fun copyToFile :: "path \<Rightarrow> bytes \<Rightarrow> reader \<Rightarrow> fsys \<Rightarrow> (err + bytes) \<times> reader \<times> fsys" where
  "copyToFile p acc [] s = (Inr acc, [], s)"
| "copyToFile p acc ((bs, e) # r) s =
     (case (if bs = [] then (Inr (), s) else os_write p bs s) of
        (Inl x, s1) \<Rightarrow> (Inl (EOS x), r, s1)
      | (Inr u, s1) \<Rightarrow>
          (case e of
             None \<Rightarrow> copyToFile p (acc @ bs) r s1
           | Some x \<Rightarrow> if x = EEOF then (Inr (acc @ bs), r, s1) else (Inl x, r, s1)))"

definition writeAndSync :: "path \<Rightarrow> reader \<Rightarrow> int \<Rightarrow> fsys \<Rightarrow> (err + string) \<times> reader \<times> fsys" where
  "writeAndSync p body len s =
     (case os_create p s of
        (Inl e, s1) \<Rightarrow> (Inl (EWrap ''objectstore/fs: create'' (EOS e)), body, s1)
      | (Inr u, s1) \<Rightarrow>
          (case copyToFile p [] body s1 of
             (Inl e, r, s2) \<Rightarrow> (Inl (EWrap ''objectstore/fs: write'' e), r, snd (os_close s2))
           | (Inr written, r, s2) \<Rightarrow>
               if len \<ge> 0 \<and> int (length written) \<noteq> len then
                 (Inl (EMsg ''objectstore/fs: wrote != declared''), r, snd (os_close s2))
               else
                 (case os_sync s2 of
                    (Inl e, s3) \<Rightarrow>
                      (Inl (EWrap ''objectstore/fs: fsync'' (EOS e)), r, snd (os_close s3))
                  | (Inr u, s3) \<Rightarrow>
                      (case os_close s3 of
                         (Inl e, s4) \<Rightarrow> (Inl (EWrap ''objectstore/fs: close'' (EOS e)), r, s4)
                       | (Inr u, s4) \<Rightarrow> (Inr (sha256hex written), r, s4)))))"

text \<open>
  The two halves of a write: spooling the body to a temporary file, and the section under the
  mutex that evaluates the precondition and installs the file.
\<close>

definition putLocked :: "path \<Rightarrow> path \<Rightarrow> string \<Rightarrow> string option \<Rightarrow> fsys \<Rightarrow> (err + string) \<times> fsys" where
  "putLocked tmp p etag ifMatch s =
     (case checkIfMatch p ifMatch s of
        (Some e, s1) \<Rightarrow> (Inl e, snd (os_remove tmp s1))
      | (None, s1) \<Rightarrow>
          (case commit tmp p (ifAbsent ifMatch) s1 of
             (Some e, s2) \<Rightarrow> (Inl e, snd (os_remove tmp s2))
           | (None, s2) \<Rightarrow> (Inr etag, s2)))"

definition fs_put :: "path \<Rightarrow> ctx \<Rightarrow> string \<Rightarrow> reader \<Rightarrow> int \<Rightarrow> string option \<Rightarrow> fsys
    \<Rightarrow> (err + string) \<times> reader \<times> fsys" where
  "fs_put root c key body len ifMatch s =
     (case ctxErr c of Some e \<Rightarrow> (Inl (ECtx e), body, s)
      | None \<Rightarrow>
     (case keyPath root key of Inl e \<Rightarrow> (Inl e, body, s)
      | Inr p \<Rightarrow>
     (case os_mkdirAll (butlast p) s of
        (Inl e, s1) \<Rightarrow> (Inl (EWrap ''objectstore/fs: mkdir parent'' (EOS e)), body, s1)
      | (Inr u, s1) \<Rightarrow>
     (case randSuffix s1 of (sfx, s2) \<Rightarrow>
      let tmp = tmpPath p sfx in
     (case writeAndSync tmp body len s2 of
        (Inl e, r, s3) \<Rightarrow> (Inl e, r, snd (os_remove tmp s3))
      | (Inr etag, r, s3) \<Rightarrow>
          (case putLocked tmp p etag ifMatch s3 of (res, s4) \<Rightarrow> (res, r, s4)))))))"

definition fs_putStream :: "path \<Rightarrow> ctx \<Rightarrow> string \<Rightarrow> reader \<Rightarrow> string option \<Rightarrow> fsys
    \<Rightarrow> (err + string) \<times> reader \<times> fsys" where
  "fs_putStream root c key body ifMatch s =
     (case ctxErr c of Some e \<Rightarrow> (Inl (ECtx e), body, s)
      | None \<Rightarrow>
     (case keyPath root key of Inl e \<Rightarrow> (Inl e, body, s)
      | Inr p \<Rightarrow>
     (case os_mkdirAll (butlast p) s of
        (Inl e, s1) \<Rightarrow> (Inl (EWrap ''objectstore/fs: mkdir parent'' (EOS e)), body, s1)
      | (Inr u, s1) \<Rightarrow>
     (case randSuffix s1 of (sfx, s2) \<Rightarrow>
      let tmp = tmpPath p sfx in
     (case writeAndSync tmp body (- 1) s2 of
        (Inl e, r, s3) \<Rightarrow> (Inl e, r, snd (os_remove tmp s3))
      | (Inr etag, r, s3) \<Rightarrow>
          (case putLocked tmp p etag ifMatch s3 of (res, s4) \<Rightarrow> (res, r, s4)))))))"

section \<open>Reading\<close>

definition fs_get :: "path \<Rightarrow> ctx \<Rightarrow> string \<Rightarrow> fsys \<Rightarrow> (err + body \<times> string) \<times> fsys" where
  "fs_get root c key s =
     (case ctxErr c of Some e \<Rightarrow> (Inl (ECtx e), s)
      | None \<Rightarrow>
     (case keyPath root key of Inl e \<Rightarrow> (Inl e, s)
      | Inr p \<Rightarrow>
     (case fileETag p s of
        (Inl e, s1) \<Rightarrow>
          if isErrNotExist e then (Inl ErrNotFound, s1)
          else (Inl (EWrap ''objectstore/fs: etag'' e), s1)
      | (Inr etag, s1) \<Rightarrow>
          (case os_open p s1 of
             (Inl e, s2) \<Rightarrow>
               if isErrNotExist (EOS e) then (Inl ErrNotFound, s2)
               else (Inl (EWrap ''objectstore/fs: open'' (EOS e)), s2)
           | (Inr h, s2) \<Rightarrow> (Inr (FileB h, etag), s2)))))"

definition fs_getRange :: "path \<Rightarrow> ctx \<Rightarrow> string \<Rightarrow> int \<Rightarrow> int \<Rightarrow> fsys \<Rightarrow> (err + body) \<times> fsys" where
  "fs_getRange root c key off len s =
     (case ctxErr c of Some e \<Rightarrow> (Inl (ECtx e), s)
      | None \<Rightarrow>
     (case keyPath root key of Inl e \<Rightarrow> (Inl e, s)
      | Inr p \<Rightarrow>
     (case os_open p s of
        (Inl e, s1) \<Rightarrow>
          if isErrNotExist (EOS e) then (Inl ErrNotFound, s1)
          else (Inl (EWrap ''objectstore/fs: open'' (EOS e)), s1)
      | (Inr h, s1) \<Rightarrow>
     (case os_fstat_size h s1 of
        (Inl e, s2) \<Rightarrow> (Inl (EWrap ''objectstore/fs: stat'' (EOS e)), snd (os_close s2))
      | (Inr sz, s2) \<Rightarrow>
          let start = (if off < 0
                       then (let st = wrap64 (sz + off) in if st < 0 then 0 else st)
                       else off);
              start = (if start > sz then sz else start)
          in (case os_seek h start s2 of
                (Inl e, s3) \<Rightarrow> (Inl (EWrap ''objectstore/fs: seek'' (EOS e)), snd (os_close s3))
              | (Inr h', s3) \<Rightarrow>
                  if len \<le> 0 then (Inr (FileB h'), s3)
                  else let end = wrap64 (start + len);
                           end = (if end > sz then sz else end)
                       in (Inr (LimitedB h' (wrap64 (end - start))), s3))))))"

definition fs_stat :: "path \<Rightarrow> ctx \<Rightarrow> string \<Rightarrow> fsys \<Rightarrow> (err + objectInfo) \<times> fsys" where
  "fs_stat root c key s =
     (case ctxErr c of Some e \<Rightarrow> (Inl (ECtx e), s)
      | None \<Rightarrow>
     (case keyPath root key of Inl e \<Rightarrow> (Inl e, s)
      | Inr p \<Rightarrow>
     (case os_stat p s of
        (Inl e, s1) \<Rightarrow>
          if isErrNotExist (EOS e) then (Inl ErrNotFound, s1)
          else (Inl (EWrap ''objectstore/fs: stat'' (EOS e)), s1)
      | (Inr n, s1) \<Rightarrow>
     (case fileETag p s1 of
        (Inl e, s2) \<Rightarrow> (Inl (EWrap ''objectstore/fs: etag'' e), s2)
      | (Inr etag, s2) \<Rightarrow>
          (Inr \<lparr>oKey = key,
                oSize = (case n of RegF b t \<Rightarrow> int (length b) | _ \<Rightarrow> fdirsize s),
                oLastModified = (case n of RegF b t \<Rightarrow> t | _ \<Rightarrow> fnow s),
                oETag = etag\<rparr>, s2)))))"

section \<open>Listing\<close>

text \<open>
  \<open>filepath.WalkDir\<close> visits the tree in lexical order, a directory before its entries:
  that is the lexicographic order of the component lists.
\<close>

definition walkEntries :: "path \<Rightarrow> fsys \<Rightarrow> (path \<times> node) list" where
  "walkEntries root s = sort_key fst (filter (\<lambda>(p, n). strict_prefix root p) (fnodes s))"

definition relKey :: "path \<Rightarrow> path \<Rightarrow> string" where
  "relKey root p = (if p = root then ''.'' else join_with (CHR ''/'') (drop (length root) p))"

text \<open>The walk function of List on one entry, with the list built so far.\<close>

definition listVisit :: "path \<Rightarrow> string \<Rightarrow> string \<Rightarrow> path \<times> node \<Rightarrow> objectInfo list \<Rightarrow> fsys
    \<Rightarrow> (err + objectInfo list) \<times> fsys" where
  "listVisit root pre startAfter e out s =
     (let p = fst e in
      case snd e of
        DirN \<Rightarrow> (case os_readDir p s of
                   (Inl x, s1) \<Rightarrow> (Inl (EOS x), s1)
                 | (Inr u, s1) \<Rightarrow> (Inr out, s1))
      | SpecN \<Rightarrow> (Inr out, s)
      | RegF b t \<Rightarrow>
          if p \<noteq> [] \<and> sublist ''.tmp.'' (last p) then (Inr out, s)
          else let key = relKey root p in
            if \<not> prefix pre key then (Inr out, s)
            else if startAfter \<noteq> '''' \<and> key \<le> startAfter then (Inr out, s)
            else (case os_stat p s of
                    (Inl x, s1) \<Rightarrow> (Inl (EOS x), s1)
                  | (Inr n, s1) \<Rightarrow>
                 (case fileETag p s1 of
                    (Inl x, s2) \<Rightarrow> (Inl x, s2)
                  | (Inr etag, s2) \<Rightarrow>
                      (Inr (out @ [\<lparr>oKey = key,
                         oSize = (case n of RegF b t \<Rightarrow> int (length b) | _ \<Rightarrow> fdirsize s),
                         oLastModified = (case n of RegF b t \<Rightarrow> t | _ \<Rightarrow> fnow s),
                         oETag = etag\<rparr>]), s2))))"

fun listWalk :: "path \<Rightarrow> string \<Rightarrow> string \<Rightarrow> (path \<times> node) list \<Rightarrow> objectInfo list \<Rightarrow> fsys
    \<Rightarrow> (err + objectInfo list) \<times> fsys" where
  "listWalk root pre startAfter [] out s = (Inr out, s)"
| "listWalk root pre startAfter (e # es) out s =
     (case listVisit root pre startAfter e out s of
        (Inl x, s1) \<Rightarrow> (Inl x, s1)
      | (Inr out', s1) \<Rightarrow> listWalk root pre startAfter es out' s1)"

definition maxKeys :: nat where
  "maxKeys = 1000"

definition fs_list :: "path \<Rightarrow> ctx \<Rightarrow> string \<Rightarrow> string \<Rightarrow> fsys \<Rightarrow> (err + objectInfo list) \<times> fsys" where
  "fs_list root c pre startAfter s =
     (case ctxErr c of Some e \<Rightarrow> (Inl (ECtx e), s)
      | None \<Rightarrow>
     (case os_stat root s of
        (Inl x, s1) \<Rightarrow> (Inl (EWrap ''objectstore/fs: walk'' (EOS x)), s1)
      | (Inr n, s1) \<Rightarrow>
     (case listWalk root pre startAfter ((root, n) # walkEntries root s1) [] s1 of
        (Inl x, s2) \<Rightarrow> (Inl (EWrap ''objectstore/fs: walk'' x), s2)
      | (Inr out, s2) \<Rightarrow>
          let out = sort_key oKey out
          in (Inr (if length out > maxKeys then take maxKeys out else out), s2))))"

section \<open>Deleting\<close>

text \<open>Pruning the empty parents, up to the root or the top of the file system.\<close>

function pruneParents :: "path \<Rightarrow> path \<Rightarrow> fsys \<Rightarrow> fsys" where
  "pruneParents root dir s =
     (if dir = root \<or> dir = [] then s
      else (case os_remove dir s of
              (Inl e, s1) \<Rightarrow> s1
            | (Inr u, s1) \<Rightarrow> pruneParents root (butlast dir) s1))"
  by pat_completeness auto
termination
  by (relation "measure (\<lambda>(root, dir, s). length dir)") auto

declare pruneParents.simps [simp del]

definition fs_delete :: "path \<Rightarrow> ctx \<Rightarrow> string \<Rightarrow> fsys \<Rightarrow> (err + unit) \<times> fsys" where
  "fs_delete root c key s =
     (case ctxErr c of Some e \<Rightarrow> (Inl (ECtx e), s)
      | None \<Rightarrow>
     (case keyPath root key of Inl e \<Rightarrow> (Inl e, s)
      | Inr p \<Rightarrow>
     (case os_remove p s of
        (Inl e, s1) \<Rightarrow>
          if isErrNotExist (EOS e) then (Inl ErrNotFound, s1)
          else (Inl (EWrap ''objectstore/fs: remove'' (EOS e)), s1)
      | (Inr u, s1) \<Rightarrow> (Inr (), pruneParents root (butlast p) s1))))"

section \<open>The bucket\<close>

definition fs_bucket :: "path \<Rightarrow> (fsys, body) bucket" where
  "fs_bucket root = \<lparr>
     bPut = fs_put root, bPutStream = fs_putStream root, bGet = fs_get root,
     bGetRange = fs_getRange root, bStat = fs_stat root, bList = fs_list root,
     bDelete = fs_delete root\<rparr>"

end
