(* ===== verification/FSInv.thy ===== *)
theory FSInv
  imports FS
begin

text \<open>
  The invariant of the filesystem backend over a key space, the store it represents, and what
  elementary changes of the tree do to both. A key space is a set of plain keys (no rejected
  or cleaned segment, none of the reserved temporary names) in which no key lies below another.
\<close>

section \<open>Key spaces\<close>

definition key_parts :: "string \<Rightarrow> string list" where
  "key_parts k = split_on (CHR ''/'') k"

definition plain_key :: "string \<Rightarrow> bool" where
  "plain_key k \<longleftrightarrow> k \<noteq> '''' \<and> \<not> sublist ''..'' k \<and> '''' \<notin> set (key_parts k)
     \<and> ''.'' \<notin> set (key_parts k) \<and> \<not> sublist ''.tmp.'' k"

definition key_space :: "string set \<Rightarrow> bool" where
  "key_space K \<longleftrightarrow> (\<forall>k \<in> K. plain_key k)
     \<and> (\<forall>k \<in> K. \<forall>k' \<in> K. \<not> strict_prefix (key_parts k) (key_parts k'))"

definition kpath :: "path \<Rightarrow> string \<Rightarrow> path" where
  "kpath root k = root @ key_parts k"

definition tmp_named :: "path \<Rightarrow> bool" where
  "tmp_named q \<longleftrightarrow> q \<noteq> [] \<and> sublist ''.tmp.'' (last q)"

lemma key_parts_not_Nil [simp]: "key_parts k \<noteq> []"
  by (simp add: key_parts_def)

lemma kpath_not_Nil [simp]: "kpath root k \<noteq> []"
  by (simp add: kpath_def)

lemma kpath_root [simp]: "strict_prefix root (kpath root k)"
  by (simp add: kpath_def strict_prefix_def)

lemma kpath_inj: "kpath root k = kpath root k' \<longleftrightarrow> k = k'"
  by (simp add: kpath_def key_parts_def split_on_inj)

lemma butlast_kpath: "butlast (kpath root k) = root @ butlast (key_parts k)"
  by (simp add: kpath_def butlast_append)

lemma prefix_butlast_kpath: "prefix root (butlast (kpath root k))"
  by (simp add: butlast_kpath)

lemma keyPath_plain: "plain_key k \<Longrightarrow> keyPath root k = Inr (kpath root k)"
  by (auto simp: keyPath_def plain_key_def join_clean_def kpath_def key_parts_def list_ex_iff
      Let_def filter_id_conv)

lemma relKey_kpath: "relKey root (kpath root k) = k"
  by (simp add: relKey_def kpath_def key_parts_def)

lemma plain_key_part:
  assumes "plain_key k" and "w \<in> set (key_parts k)"
  shows "\<not> sublist ''.tmp.'' w"
proof
  assume t: "sublist ''.tmp.'' w"
  have "sublist w (join_with (CHR ''/'') (split_on (CHR ''/'') k))"
    by (rule sublist_join_with) (use assms(2) in \<open>simp add: key_parts_def\<close>)
  with t have "sublist ''.tmp.'' k" by (auto intro: sublist_order.order_trans)
  with assms(1) show False by (simp add: plain_key_def)
qed

lemma tmpPath_tmp_named [simp]: "tmp_named (tmpPath p sfx)"
  by (auto simp: tmp_named_def tmpPath_def sublist_def)

lemma tmpPath_not_Nil [simp]: "tmpPath p sfx \<noteq> []"
  by (simp add: tmpPath_def)

lemma butlast_tmpPath [simp]: "p \<noteq> [] \<Longrightarrow> butlast (tmpPath p sfx) = butlast p"
  by (simp add: tmpPath_def)

lemma tmpPath_neq [simp]: "tmpPath p sfx \<noteq> p" "p \<noteq> tmpPath p sfx"
proof -
  have "last (tmpPath p sfx) = (if p = [] then '''' else last p) @ ''.tmp.'' @ sfx"
    by (simp add: tmpPath_def)
  then have "p \<noteq> [] \<Longrightarrow> last (tmpPath p sfx) \<noteq> last p" by simp
  then show "tmpPath p sfx \<noteq> p" by (cases "p = []") auto
  then show "p \<noteq> tmpPath p sfx" by simp
qed

text \<open>A temporary name is never a key's path, nor on the way to one.\<close>

lemma prefix_kpath_not_tmp:
  assumes "plain_key k" and "prefix q (kpath root k)" and "strict_prefix root q"
  shows "\<not> tmp_named q"
proof -
  obtain xs where q: "q = root @ xs" and "xs \<noteq> []"
    using assms(3) by (auto simp: strict_prefix_def prefix_def)
  then have "prefix xs (key_parts k)" using assms(2) by (simp add: kpath_def)
  then have "last xs \<in> set (key_parts k)"
    using \<open>xs \<noteq> []\<close> by (auto simp: prefix_def)
  with assms(1) q \<open>xs \<noteq> []\<close> show ?thesis
    by (simp add: tmp_named_def plain_key_part)
qed

lemma kpath_not_tmp: "plain_key k \<Longrightarrow> \<not> tmp_named (kpath root k)"
  by (rule prefix_kpath_not_tmp [of k _ root]) auto

section \<open>Invariant and store\<close>

definition node_ok :: "path \<Rightarrow> string set \<Rightarrow> path \<Rightarrow> node \<Rightarrow> bool" where
  "node_ok root K q n \<longleftrightarrow>
     (case n of
        RegF c t \<Rightarrow> (\<exists>k \<in> K. q = kpath root k) \<or> tmp_named q
      | DirN \<Rightarrow> \<exists>k \<in> K. strict_prefix q (kpath root k)
      | SpecN \<Rightarrow> \<forall>k \<in> K. \<not> prefix q (kpath root k))"

definition fs_inv :: "path \<Rightarrow> string set \<Rightarrow> fsys \<Rightarrow> bool" where
  "fs_inv root K s \<longleftrightarrow> fs_wf s \<and> key_space K \<and> node_at s root = Some DirN \<and>
     (\<forall>q n. strict_prefix root q \<longrightarrow> node_at s q = Some n \<longrightarrow> node_ok root K q n)"

definition fs_store :: "path \<Rightarrow> string set \<Rightarrow> fsys \<Rightarrow> store" where
  "fs_store root K s k = (if k \<in> K then file_at s (kpath root k) else None)"

text \<open>No pending fault and no temporary file left behind.\<close>

definition fs_quiet :: "path \<Rightarrow> fsys \<Rightarrow> bool" where
  "fs_quiet root s \<longleftrightarrow> ffaults s = [] \<and>
     (\<forall>q. strict_prefix root q \<longrightarrow> node_at s q \<noteq> None \<longrightarrow> \<not> tmp_named q)"

lemma fs_inv_wf: "fs_inv root K s \<Longrightarrow> fs_wf s"
  by (simp add: fs_inv_def)

lemma fs_inv_plain: "fs_inv root K s \<Longrightarrow> k \<in> K \<Longrightarrow> plain_key k"
  by (simp add: fs_inv_def key_space_def)

lemma fs_inv_keyPath: "fs_inv root K s \<Longrightarrow> k \<in> K \<Longrightarrow> keyPath root k = Inr (kpath root k)"
  by (simp add: keyPath_plain fs_inv_plain)

text \<open>A key's path holds a file or nothing, and the way to it is directories, then nothing.\<close>

lemma fs_inv_key_node:
  assumes "fs_inv root K s" and "k \<in> K"
  shows "node_at s (kpath root k) = None \<or> (\<exists>c t. node_at s (kpath root k) = Some (RegF c t))"
proof (cases "node_at s (kpath root k)")
  case (Some n)
  then have ok: "node_ok root K (kpath root k) n"
    using assms(1) by (simp add: fs_inv_def)
  show ?thesis
  proof (cases n)
    case DirN
    then obtain k' where "k' \<in> K" "strict_prefix (kpath root k) (kpath root k')"
      using ok by (auto simp: node_ok_def)
    then have "strict_prefix (key_parts k) (key_parts k')" by (simp add: kpath_def strict_prefix_def)
    then show ?thesis using assms \<open>k' \<in> K\<close> by (auto simp: fs_inv_def key_space_def)
  next
    case SpecN
    then show ?thesis using ok assms(2) by (auto simp: node_ok_def)
  qed (use Some in auto)
qed simp

lemma fs_inv_key_way:
  assumes "fs_inv root K s" and "k \<in> K" and "kpath root k = xs @ ys" and "ys \<noteq> []"
  shows "node_at s xs \<in> {None, Some DirN}"
proof (cases "strict_prefix root xs")
  case True
  have pk: "prefix xs (kpath root k)" "xs \<noteq> kpath root k" using assms(3,4) by auto
  show ?thesis
  proof (cases "node_at s xs")
    case (Some n)
    then have ok: "node_ok root K xs n" using assms(1) True by (auto simp: fs_inv_def)
    show ?thesis
    proof (cases n)
      case (RegF c t)
      have "\<not> tmp_named xs"
        by (rule prefix_kpath_not_tmp [OF fs_inv_plain [OF assms(1,2)] pk(1) True])
      then obtain k' where "k' \<in> K" "xs = kpath root k'"
        using ok RegF by (auto simp: node_ok_def)
      then have "strict_prefix (key_parts k') (key_parts k)"
        using pk by (simp add: kpath_def strict_prefix_def)
      then show ?thesis using assms(1,2) \<open>k' \<in> K\<close> by (auto simp: fs_inv_def key_space_def)
    next
      case SpecN
      then show ?thesis using ok pk assms(2) by (auto simp: node_ok_def)
    qed (use Some in auto)
  qed simp
next
  case False
  have "prefix xs root"
  proof -
    have "prefix xs (kpath root k)" by (simp add: assms(3))
    moreover have "prefix root (kpath root k)" by (simp add: kpath_def)
    ultimately have "prefix xs root \<or> prefix root xs" by (rule prefix_same_cases)
    with False show ?thesis by (auto simp: strict_prefix_def)
  qed
  then obtain zs where "root = xs @ zs" by (auto simp: prefix_def)
  then show ?thesis
    using assms(1) fs_wf_prefix_dir [of s xs zs] by (cases "zs = []") (auto simp: fs_inv_def)
qed

lemma fs_store_Some:
  assumes "fs_inv root K s" and "k \<in> K"
  shows "fs_store root K s k \<noteq> None \<longleftrightarrow> node_at s (kpath root k) \<noteq> None"
  using fs_inv_key_node [OF assms] assms(2) by (auto simp: fs_store_def file_at_def)

lemma fs_store_file_at: "k \<in> K \<Longrightarrow> fs_store root K s k = file_at s (kpath root k)"
  by (simp add: fs_store_def)

section \<open>Elementary changes\<close>

lemma fs_store_cong: "file_at s' = file_at s \<Longrightarrow> fs_store root K s' = fs_store root K s"
  by (simp add: fs_store_def fun_eq_iff)

lemma fs_inv_same: "fnodes s' = fnodes s \<Longrightarrow> fs_inv root K s' = fs_inv root K s"
  unfolding fs_inv_def using node_at_fnodes [of s' s] fs_wf_fnodes [of s' s] by simp

lemma fs_store_same: "fnodes s' = fnodes s \<Longrightarrow> fs_store root K s' = fs_store root K s"
  by (rule fs_store_cong, rule file_at_fnodes)

lemma fs_quiet_same:
  "fnodes s' = fnodes s \<Longrightarrow> ffaults s' = [] \<Longrightarrow> fs_quiet root s \<Longrightarrow> fs_quiet root s'"
  unfolding fs_quiet_def using node_at_fnodes [of s' s] by simp

text \<open>New directories on the way to a key.\<close>

lemma fs_inv_new_dirs:
  assumes "fs_inv root K s" and "k \<in> K" and "only_new_dirs (butlast (kpath root k)) s s'"
    and "fs_wf s'"
  shows "fs_inv root K s'" and "fs_store root K s' = fs_store root K s"
    and "fs_quiet root s \<Longrightarrow> ffaults s' = [] \<Longrightarrow> fs_quiet root s'"
proof -
  have way: "strict_prefix q (kpath root k)" if "prefix q (butlast (kpath root k))" for q
  proof -
    have "strict_prefix (butlast (kpath root k)) (kpath root k)"
      by (metis append_butlast_last_id kpath_not_Nil prefixI prefix_order.le_neq_trans
          butlast_conv_take self_append_conv not_Cons_self2)
    with that show ?thesis by (rule prefix_order.le_less_trans)
  qed
  note new = assms(3) [unfolded only_new_dirs_def]
  show "fs_inv root K s'"
    unfolding fs_inv_def
  proof (intro conjI allI impI)
    show "node_at s' root = Some DirN"
      using new [rule_format, of root] assms(1) by (auto simp: fs_inv_def)
    fix q n
    assume "strict_prefix root q" and n: "node_at s' q = Some n"
    then show "node_ok root K q n"
      using new [rule_format, of q] assms(1,2) way [of q] by (auto simp: fs_inv_def node_ok_def)
  qed (use assms in \<open>auto simp: fs_inv_def\<close>)
  show "fs_store root K s' = fs_store root K s"
    by (rule fs_store_cong, rule only_new_dirs_file [OF assms(3)])
  assume "fs_quiet root s" and "ffaults s' = []"
  then show "fs_quiet root s'"
    using new prefix_kpath_not_tmp [OF fs_inv_plain [OF assms(1,2)]] way
    by (auto simp: fs_quiet_def) (metis option.distinct(1) prefix_order.less_imp_le)
qed

text \<open>A change at a temporary name.\<close>

lemma fs_inv_tmp:
  assumes "fs_inv root K s" and "fs_wf s'" and "node_at s' = (node_at s)(q := v)"
    and "tmp_named q" and "q \<noteq> root" and "v = None \<or> (\<exists>c t. v = Some (RegF c t))"
  shows "fs_inv root K s'" and "fs_store root K s' = fs_store root K s"
proof -
  show "fs_inv root K s'"
    unfolding fs_inv_def
  proof (intro conjI allI impI)
    show "node_at s' root = Some DirN" using assms by (simp add: fs_inv_def)
    fix p n
    assume "strict_prefix root p" and "node_at s' p = Some n"
    then show "node_ok root K p n"
      using assms by (cases "p = q") (auto simp: fs_inv_def node_ok_def)
  qed (use assms in \<open>auto simp: fs_inv_def\<close>)
  show "fs_store root K s' = fs_store root K s"
  proof (rule ext)
    fix k
    have "k \<in> K \<Longrightarrow> kpath root k \<noteq> q"
      using assms(1,4) kpath_not_tmp fs_inv_plain by blast
    then show "fs_store root K s' k = fs_store root K s k"
      using assms(3) by (simp add: fs_store_def file_at_def)
  qed
qed

text \<open>Installing a file at a key's path, and removing a key's file.\<close>

lemma fs_inv_key_update:
  assumes "fs_inv root K s" and "fs_wf s'" and "k \<in> K"
    and "node_at s' = (node_at s)(kpath root k := v)" and "v = None \<or> (\<exists>c t. v = Some (RegF c t))"
  shows "fs_inv root K s'"
    and "fs_store root K s' = (fs_store root K s)
      (k := (case v of Some (RegF c t) \<Rightarrow> Some c | _ \<Rightarrow> None))"
proof -
  have nroot: "kpath root k \<noteq> root" by (metis kpath_root prefix_order.less_irrefl)
  show "fs_inv root K s'"
    unfolding fs_inv_def
  proof (intro conjI allI impI)
    show "node_at s' root = Some DirN" using assms nroot by (simp add: fs_inv_def)
    fix p n
    assume "strict_prefix root p" and "node_at s' p = Some n"
    then show "node_ok root K p n"
      using assms by (cases "p = kpath root k") (auto simp: fs_inv_def node_ok_def)
  qed (use assms in \<open>auto simp: fs_inv_def\<close>)
  show "fs_store root K s' = (fs_store root K s)
      (k := (case v of Some (RegF c t) \<Rightarrow> Some c | _ \<Rightarrow> None))"
    using assms(3,4) by (auto simp: fs_store_def file_at_def kpath_inj fun_eq_iff)
qed

text \<open>Removing a directory below the root.\<close>

lemma fs_inv_rmdir:
  assumes "fs_inv root K s" and "fs_wf s'" and "node_at s' = (node_at s)(d := None)"
    and "strict_prefix root d" and "k \<in> K" and "strict_prefix d (kpath root k)"
  shows "fs_inv root K s'" and "fs_store root K s' = fs_store root K s"
proof -
  have droot: "d \<noteq> root" using assms(4) by auto
  show "fs_inv root K s'"
    unfolding fs_inv_def
  proof (intro conjI allI impI)
    show "node_at s' root = Some DirN" using assms(1,3) droot by (simp add: fs_inv_def)
    fix p n
    assume "strict_prefix root p" and "node_at s' p = Some n"
    then show "node_ok root K p n"
      using assms by (cases "p = d") (auto simp: fs_inv_def)
  qed (use assms in \<open>auto simp: fs_inv_def\<close>)
  obtain ys where "kpath root k = d @ ys" "ys \<noteq> []"
    using assms(6) by (auto simp: strict_prefix_def prefix_def)
  from fs_inv_key_way [OF assms(1,5) this] have "file_at s d = None"
    by (auto simp: file_at_def)
  then have "file_at s' = file_at s"
    using assms(3) by (auto simp: file_at_def fun_eq_iff)
  then show "fs_store root K s' = fs_store root K s" by (rule fs_store_cong)
qed

end
