(* ===== verification/FSProps.thy ===== *)
theory FSProps
  imports FSInv
begin

text \<open>
  What every function of fs.go does, on every branch and under every fault script: outcome
  lemmas for the helpers, and the all-or-nothing behaviour of the two writes. No lemma here
  assumes that system calls succeed, except the ones about quiet states.
\<close>

section \<open>Helpers\<close>

lemma fileETag_out:
  assumes "fileETag p s = (res, s')"
  shows "fnodes s' = fnodes s"
    and "res = Inr e \<Longrightarrow> \<exists>c. file_at s p = Some c \<and> e = sha256hex c"
    and "fs_wf s \<Longrightarrow> res = Inl x \<Longrightarrow> isErrNotExist x \<Longrightarrow> node_at s p = None"
    and "res = Inl x \<Longrightarrow> \<exists>y. x = EOS y"
    and "ffaults s = [] \<Longrightarrow> ffaults s' = []"
proof -
  obtain r1 s1 where o: "os_open p s = (r1, s1)" by fastforce
  note oo = os_open_out [OF o]
  have all: "fnodes s' = fnodes s
    \<and> (\<forall>e. res = Inr e \<longrightarrow> (\<exists>c. file_at s p = Some c \<and> e = sha256hex c))
    \<and> (\<forall>x. fs_wf s \<longrightarrow> res = Inl x \<longrightarrow> isErrNotExist x \<longrightarrow> node_at s p = None)
    \<and> (\<forall>x. res = Inl x \<longrightarrow> (\<exists>y. x = EOS y))
    \<and> (ffaults s = [] \<longrightarrow> ffaults s' = [])"
  proof (cases r1)
    case (Inl e)
    with o assms oo show ?thesis by (auto simp: fileETag_def)
  next
    case (Inr h)
    obtain r2 s2 where r: "os_readAll h s1 = (r2, s2)" by fastforce
    note rr = os_readAll_out [OF r]
    show ?thesis
    proof (cases r2)
      case (Inl e)
      have "e \<noteq> ENOENT" using rr(3) [OF Inl] by auto
      with Inl Inr o r assms oo rr show ?thesis by (auto simp: fileETag_def)
    next
      case (Inr c)
      then have "h = FReg c" using rr(2) by simp
      with Inr \<open>r1 = Inr h\<close> o r assms oo rr show ?thesis by (auto simp: fileETag_def)
    qed
  qed
  then show "fnodes s' = fnodes s"
    "res = Inr e \<Longrightarrow> \<exists>c. file_at s p = Some c \<and> e = sha256hex c"
    "fs_wf s \<Longrightarrow> res = Inl x \<Longrightarrow> isErrNotExist x \<Longrightarrow> node_at s p = None"
    "res = Inl x \<Longrightarrow> \<exists>y. x = EOS y"
    "ffaults s = [] \<Longrightarrow> ffaults s' = []" by blast+
qed

lemma fileETag_quiet:
  assumes "ffaults s = []" and "resolve s p = Inr (RegF c t)"
  shows "fileETag p s = (Inr (sha256hex c), s)"
  using assms by (simp add: fileETag_def os_open_def os_readAll_def)

lemma fileETag_quiet_none:
  assumes "ffaults s = []" and "resolve s p = Inl x"
  shows "fileETag p s = (Inl (EOS x), s)"
  using assms by (simp add: fileETag_def os_open_def)

text \<open>The precondition of a write, on the tree.\<close>

definition tree_cond :: "fsys \<Rightarrow> path \<Rightarrow> string option \<Rightarrow> bool" where
  "tree_cond s p ifMatch =
     (case ifMatch of None \<Rightarrow> True
      | Some t \<Rightarrow> if t = '''' then node_at s p = None
                   else \<exists>c. file_at s p = Some c \<and> sha256hex c = t)"

lemma checkIfMatch_out:
  assumes "checkIfMatch p ifMatch s = (res, s')" and "fs_wf s"
  shows "fnodes s' = fnodes s"
    and "res = None \<Longrightarrow> tree_cond s p ifMatch"
    and "res = Some e \<Longrightarrow> errIs e ErrPreconditionFailed \<Longrightarrow> \<not> tree_cond s p ifMatch"
    and "ffaults s = [] \<Longrightarrow> ffaults s' = []"
proof -
  have "fnodes s' = fnodes s
    \<and> (res = None \<longrightarrow> tree_cond s p ifMatch)
    \<and> (\<forall>e. res = Some e \<longrightarrow> errIs e ErrPreconditionFailed \<longrightarrow> \<not> tree_cond s p ifMatch)
    \<and> (ffaults s = [] \<longrightarrow> ffaults s' = [])"
  proof (cases ifMatch)
    case None
    with assms show ?thesis by (simp add: checkIfMatch_def tree_cond_def)
  next
    case (Some t)
    show ?thesis
    proof (cases "t = ''''")
      case True
      obtain r1 s1 where o: "os_stat p s = (r1, s1)" by fastforce
      note oo = os_stat_out [OF o]
      show ?thesis
      proof (cases r1)
        case (Inl x)
        with Some True o assms oo show ?thesis
          by (auto simp: checkIfMatch_def tree_cond_def split: if_splits)
      next
        case (Inr n)
        with Some True o assms oo show ?thesis by (auto simp: checkIfMatch_def tree_cond_def)
      qed
    next
      case False
      obtain r1 s1 where o: "fileETag p s = (r1, s1)" by fastforce
      note oo = fileETag_out [OF o]
      show ?thesis
      proof (cases r1)
        case (Inl x)
        have "isErrNotExist x \<Longrightarrow> file_at s p = None"
          using oo(3) [OF assms(2) Inl] by (simp add: file_at_def)
        with Some False o assms oo Inl show ?thesis
          by (auto simp: checkIfMatch_def tree_cond_def split: if_splits)
      next
        case (Inr cur)
        obtain c where c: "file_at s p = Some c" "cur = sha256hex c"
          using oo(2) [OF Inr] by blast
        with Some False o assms oo(1,5) Inr show ?thesis
          by (auto simp: checkIfMatch_def tree_cond_def split: if_splits)
      qed
    qed
  qed
  then show "fnodes s' = fnodes s"
    "res = None \<Longrightarrow> tree_cond s p ifMatch"
    "res = Some e \<Longrightarrow> errIs e ErrPreconditionFailed \<Longrightarrow> \<not> tree_cond s p ifMatch"
    "ffaults s = [] \<Longrightarrow> ffaults s' = []" by blast+
qed

text \<open>In a quiet state whose path is a file or clear, the check decides the precondition.\<close>

lemma checkIfMatch_quiet:
  assumes "ffaults s = []" and "fs_wf s"
    and "resolve s p = Inl ENOENT \<or> (\<exists>c t. resolve s p = Inr (RegF c t))"
  shows "checkIfMatch p ifMatch s
    = (if tree_cond s p ifMatch then None else Some ErrPreconditionFailed, s)"
  using assms(3)
proof (elim disjE exE)
  assume r: "resolve s p = Inl ENOENT"
  then have "node_at s p = None" by (rule resolve_Inl [OF assms(2)])
  with r assms(1) show ?thesis
    by (cases ifMatch) (simp_all add: checkIfMatch_def tree_cond_def file_at_def os_stat_def
        fileETag_quiet_none)
next
  fix c t
  assume r: "resolve s p = Inr (RegF c t)"
  then have "node_at s p = Some (RegF c t)" by (rule resolve_Inr)
  with r assms(1) show ?thesis
    by (cases ifMatch) (simp_all add: checkIfMatch_def tree_cond_def file_at_def os_stat_def
        fileETag_quiet)
qed

text \<open>Copying a body into the open temporary file.\<close>

definition installs :: "path \<Rightarrow> bytes \<Rightarrow> fsys \<Rightarrow> fsys \<Rightarrow> bool" where
  "installs p d s s' \<longleftrightarrow> (\<exists>t. node_at s' = (node_at s)(p \<mapsto> RegF d t))"

lemma installs_same: "node_at s p = Some (RegF d t) \<Longrightarrow> fnodes s' = fnodes s \<Longrightarrow> installs p d s s'"
  unfolding installs_def using node_at_fnodes [of s' s] by (metis fun_upd_triv)

lemma installs_trans: "installs p d s s1 \<Longrightarrow> installs p d' s1 s2 \<Longrightarrow> installs p d' s s2"
  by (auto simp: installs_def)

lemma installs_file: "installs p d s s' \<Longrightarrow> \<exists>t. node_at s' p = Some (RegF d t)"
  by (auto simp: installs_def)

lemma copy_write_out:
  assumes "(if bs = [] then (Inr (), s) else os_write p bs s) = (w, s1)" and "fs_wf s"
    and "node_at s p = Some (RegF acc t)"
  shows "fs_wf s1" and "\<exists>d. installs p d s s1" and "w = Inr u \<Longrightarrow> installs p (acc @ bs) s s1"
    and "ffaults s = [] \<Longrightarrow> ffaults s1 = [] \<and> w = Inr ()"
proof -
  have "fs_wf s1 \<and> (\<exists>d. installs p d s s1) \<and> (w = Inr () \<longrightarrow> installs p (acc @ bs) s s1)
      \<and> (ffaults s = [] \<longrightarrow> ffaults s1 = [] \<and> w = Inr ())"
  proof (cases "bs = []")
    case True
    with assms show ?thesis by (auto intro: installs_same)
  next
    case False
    with assms have o: "os_write p bs s = (w, s1)" by simp
    note oo = os_write_out [OF o assms(2,3)]
    show ?thesis
    proof (cases w)
      case (Inl x)
      with oo assms(3) show ?thesis by (auto intro: installs_same)
    next
      case (Inr u)
      with oo(3) have "installs p (acc @ bs) s s1" by (auto simp: installs_def)
      with oo Inr show ?thesis by auto
    qed
  qed
  then show "fs_wf s1" "\<exists>d. installs p d s s1" "w = Inr u \<Longrightarrow> installs p (acc @ bs) s s1"
    "ffaults s = [] \<Longrightarrow> ffaults s1 = [] \<and> w = Inr ()" by auto
qed

text \<open>
  On success the file holds what was there and all of the reader; on failure it holds
  something; the reader is left where a full read leaves it.
\<close>

lemma copyToFile_out:
  assumes "copyToFile p acc r s = (res, r', s')" and "fs_wf s"
    and "node_at s p = Some (RegF acc t)"
  shows "fs_wf s' \<and> (\<exists>d. installs p d s s')
    \<and> (\<forall>w. res = Inr w \<longrightarrow> installs p w s s' \<and> w = acc @ fst (readAll r)
         \<and> snd (readAll r) = None \<and> r' = readerRest r)
    \<and> (\<forall>e. res = Inl e \<longrightarrow> errIs e ErrPreconditionFailed \<longrightarrow> \<not> clean_reader r)
    \<and> (ffaults s = [] \<longrightarrow> ffaults s' = [] \<and> (snd (readAll r) = None \<longrightarrow> (\<exists>w. res = Inr w)))"
  using assms
proof (induction p acc r s arbitrary: res r' s' t rule: copyToFile.induct)
  case (1 p acc s)
  then have "installs p acc s s'" by (auto intro: installs_same)
  with 1 show ?case by auto
next
  case (2 p acc bs e r s)
  obtain w1 s1 where w: "(if bs = [] then (Inr (), s) else os_write p bs s) = (w1, s1)"
    by fastforce
  note out = copy_write_out [OF w 2(3,4)]
  show ?case
  proof (cases w1)
    case (Inl x)
    with w 2(2) have "res = Inl (EOS x)" "s' = s1" by auto
    with out Inl show ?thesis by auto
  next
    case (Inr u)
    have i1: "installs p (acc @ bs) s s1" using out(3) [OF Inr] .
    then obtain t1 where t1: "node_at s1 p = Some (RegF (acc @ bs) t1)"
      using installs_file by blast
    show ?thesis
    proof (cases e)
      case None
      have rec: "copyToFile p (acc @ bs) r s1 = (res, r', s')"
        using 2(2) w Inr None by simp
      have cl: "clean_reader ((bs, e) # r) = clean_reader r" using None by (simp add: clean_reader_def)
      from "2.IH" [OF w [symmetric] Inr None rec out(1) t1] show ?thesis
        unfolding cl using None out(4) installs_trans [OF i1] by auto
    next
      case (Some x)
      show ?thesis
      proof (cases "x = EEOF")
        case True
        with 2(2) w Inr Some have "res = Inr (acc @ bs)" "r' = r" "s' = s1" by auto
        with i1 out Some True show ?thesis by auto
      next
        case False
        with 2(2) w Inr Some have "res = Inl x" "r' = r" "s' = s1" by auto
        with out Some False show ?thesis by (auto simp: clean_reader_def)
      qed
    qed
  qed
qed

text \<open>Spooling: the temporary file is the only node touched.\<close>

lemma writeAndSync_out:
  assumes "writeAndSync p r len s = (res, r', s')" and "fs_wf s" and "p \<noteq> []"
  shows "fs_wf s'"
    and "fnodes s' = fnodes s \<and> (\<exists>e. res = Inl e)
         \<or> node_at s p = None \<and> (\<exists>d. installs p d s s')"
    and "res = Inr e \<Longrightarrow> node_at s p = None \<and> e = sha256hex (fst (readAll r))
         \<and> installs p (fst (readAll r)) s s' \<and> snd (readAll r) = None
         \<and> (0 \<le> len \<longrightarrow> len = int (length (fst (readAll r)))) \<and> r' = readerRest r"
    and "res = Inl x \<Longrightarrow> errIs x ErrPreconditionFailed \<Longrightarrow> \<not> clean_reader r"
    and "ffaults s = [] \<Longrightarrow> ffaults s' = []"
proof -
  obtain r1 s1 where c: "os_create p s = (r1, s1)" by fastforce
  note cc = os_create_out [OF c assms(3,2)]
  have "fs_wf s'
    \<and> (fnodes s' = fnodes s \<and> (\<exists>e. res = Inl e) \<or> node_at s p = None \<and> (\<exists>d. installs p d s s'))
    \<and> (\<forall>e. res = Inr e \<longrightarrow> node_at s p = None \<and> e = sha256hex (fst (readAll r))
         \<and> installs p (fst (readAll r)) s s' \<and> snd (readAll r) = None
         \<and> (0 \<le> len \<longrightarrow> len = int (length (fst (readAll r)))) \<and> r' = readerRest r)
    \<and> (\<forall>x. res = Inl x \<longrightarrow> errIs x ErrPreconditionFailed \<longrightarrow> \<not> clean_reader r)
    \<and> (ffaults s = [] \<longrightarrow> ffaults s' = [])"
  proof (cases r1)
    case (Inl e)
    with c assms(1) have "res = Inl (EWrap ''objectstore/fs: create'' (EOS e))" "s' = s1"
      by (auto simp: writeAndSync_def)
    with cc Inl show ?thesis by simp
  next
    case (Inr u)
    then have i1: "installs p [] s s1" and none: "node_at s p = None"
      using cc(3) by (auto simp: installs_def)
    then obtain t1 where t1: "node_at s1 p = Some (RegF [] t1)" using installs_file by blast
    obtain r2 rr s2 where k: "copyToFile p [] r s1 = (r2, rr, s2)"
      using prod_cases3 by blast
    note kk = copyToFile_out [OF k cc(1) t1]
    have same: "fs_wf s2 \<and> (\<exists>d. installs p d s s2) \<and> (ffaults s = [] \<longrightarrow> ffaults s2 = [])"
      using kk cc(4) installs_trans [OF i1] by blast
    have keep: "fs_wf s3 \<and> (\<forall>d. installs p d s s2 \<longrightarrow> installs p d s s3)" if "fnodes s3 = fnodes s2" for s3
      using that same node_at_fnodes [OF that] fs_wf_fnodes [OF that] by (simp add: installs_def)
    show ?thesis
    proof (cases r2)
      case (Inl e)
      with c Inr k assms(1) have "res = Inl (EWrap ''objectstore/fs: write'' e)"
        "s' = snd (os_close s2)" by (auto simp: writeAndSync_def)
      with same keep [of "snd (os_close s2)"] none kk Inl show ?thesis by auto
    next
      case (Inr written)
      have w: "written = fst (readAll r)" "snd (readAll r) = None" "rr = readerRest r"
        "installs p written s s2"
        using kk Inr installs_trans [OF i1] by auto
      show ?thesis
      proof (cases "len \<ge> 0 \<and> int (length written) \<noteq> len")
        case True
        with c \<open>r1 = Inr u\<close> k Inr assms(1)
        have "res = Inl (EMsg ''objectstore/fs: wrote != declared'')" "s' = snd (os_close s2)"
          by (auto simp: writeAndSync_def)
        with same keep [of "snd (os_close s2)"] none show ?thesis by auto
      next
        case False
        obtain r3 s3 where y: "os_sync s2 = (r3, s3)" by fastforce
        note yy = os_sync_out [OF y]
        obtain r4 s4 where z: "os_close s3 = (r4, s4)" by fastforce
        have zz: "fnodes s4 = fnodes s3" "ffaults s3 = [] \<Longrightarrow> ffaults s4 = []"
          using os_close_out [of s3] z by auto
        have eq: "(res, r', s') =
          (case r3 of
             Inl e \<Rightarrow> (Inl (EWrap ''objectstore/fs: fsync'' (EOS e)), rr, snd (os_close s3))
           | Inr u \<Rightarrow>
               (case r4 of
                  Inl e \<Rightarrow> (Inl (EWrap ''objectstore/fs: close'' (EOS e)), rr, s4)
                | Inr u \<Rightarrow> (Inr (sha256hex written), rr, s4)))"
          using assms(1) c \<open>r1 = Inr u\<close> k Inr False y z
          by (simp add: writeAndSync_def split: sum.splits)
        have snd4: "snd (os_close s3) = s4" using z by simp
        have s'4: "s' = s4" using eq snd4 by (auto split: sum.splits)
        have s': "fnodes s' = fnodes s2 \<and> (ffaults s2 = [] \<longrightarrow> ffaults s' = [])
          \<and> (\<forall>e. res = Inr e \<longrightarrow> e = sha256hex written \<and> r' = rr)
          \<and> (\<forall>x. res = Inl x \<longrightarrow> \<not> errIs x ErrPreconditionFailed)"
        proof (intro conjI)
          show "fnodes s' = fnodes s2" using s'4 zz(1) yy(1) by metis
          show "ffaults s2 = [] \<longrightarrow> ffaults s' = []" using s'4 zz(2) yy(2) by blast
        qed (use eq in \<open>auto split: sum.splits\<close>)
        note fin = keep [OF conjunct1 [OF s']]
        have i: "installs p written s s'" using fin w(4) by blast
        have "fs_wf s'" using fin by blast
        moreover have "node_at s p = None \<and> (\<exists>d. installs p d s s')" using none i by blast
        moreover have "\<forall>e. res = Inr e \<longrightarrow> node_at s p = None \<and> e = sha256hex (fst (readAll r))
             \<and> installs p (fst (readAll r)) s s' \<and> snd (readAll r) = None
             \<and> (0 \<le> len \<longrightarrow> len = int (length (fst (readAll r)))) \<and> r' = readerRest r"
          using none i s' w(1,2,3) False by auto
        ultimately show ?thesis using s' same by blast
      qed
    qed
  qed
  then show "fs_wf s'"
    "fnodes s' = fnodes s \<and> (\<exists>e. res = Inl e) \<or> node_at s p = None \<and> (\<exists>d. installs p d s s')"
    "res = Inr e \<Longrightarrow> node_at s p = None \<and> e = sha256hex (fst (readAll r))
         \<and> installs p (fst (readAll r)) s s' \<and> snd (readAll r) = None
         \<and> (0 \<le> len \<longrightarrow> len = int (length (fst (readAll r)))) \<and> r' = readerRest r"
    "res = Inl x \<Longrightarrow> errIs x ErrPreconditionFailed \<Longrightarrow> \<not> clean_reader r"
    "ffaults s = [] \<Longrightarrow> ffaults s' = []" by blast+
qed

lemma writeAndSync_quiet:
  assumes "ffaults s = []" and "fs_wf s" and "p \<noteq> []" and "node_at s p = None"
    and "node_at s (butlast p) = Some DirN" and "readAll r = (v, None)"
    and "0 \<le> len \<longrightarrow> len = int (length v)"
  shows "\<exists>r' s'. writeAndSync p r len s = (Inr (sha256hex v), r', s')"
proof -
  define s1 where "s1 = set_node p (RegF [] (fnow s)) s"
  have c: "os_create p s = (Inr (), s1)" using assms by (simp add: os_create_def s1_def)
  note cc = os_create_out [OF c assms(3,2)]
  have t1: "node_at s1 p = Some (RegF [] (fnow s))" using assms(3) by (simp add: s1_def)
  obtain r2 rr s2 where k: "copyToFile p [] r s1 = (r2, rr, s2)" using prod_cases3 by blast
  note kk = copyToFile_out [OF k cc(1) t1]
  have q1: "ffaults s1 = []" using assms(1) by (simp add: s1_def)
  then obtain w where "r2 = Inr w" using kk assms(6) by auto
  with kk assms(6) have "r2 = Inr v" by auto
  moreover have q2: "ffaults s2 = []" using kk q1 by auto
  ultimately show ?thesis
    using c k assms(7) by (simp add: writeAndSync_def os_sync_def)
qed

section \<open>The locked section\<close>

lemma os_remove_quiet:
  "ffaults s = [] \<Longrightarrow> fs_wf s \<Longrightarrow> node_at s p = Some (RegF c t) \<Longrightarrow>
     os_remove p s = (Inr (), del_node p s)"
  by (auto simp: os_remove_def)

lemma remove_file_out:
  assumes "fs_wf s" and "node_at s p = Some (RegF c t)"
  shows "fs_wf (snd (os_remove p s))
    \<and> (node_at (snd (os_remove p s)) = node_at s
       \<or> node_at (snd (os_remove p s)) = (node_at s)(p := None))
    \<and> (ffaults s = [] \<longrightarrow> ffaults (snd (os_remove p s)) = []
         \<and> node_at (snd (os_remove p s)) = (node_at s)(p := None))"
proof -
  obtain r s' where o: "os_remove p s = (r, s')" by fastforce
  note oo = os_remove_out [OF o assms(1)]
  have "p \<noteq> []" using assms(2) by auto
  then have "ffaults s = [] \<Longrightarrow> node_at s' = (node_at s)(p := None)"
    using os_remove_quiet [OF _ assms] o by auto
  with o oo node_at_fnodes [of s' s] show ?thesis by (cases r) auto
qed

text \<open>
  The section under the mutex: the file is installed exactly when the precondition holds, and
  otherwise only the temporary file can go.
\<close>

lemma commit_out:
  assumes "commit tmp p ab s = (res, s')" and "fs_wf s" and "tmp \<noteq> p" and "p \<noteq> []"
    and "node_at s tmp = Some (RegF v t)"
  shows "fs_wf s'"
    and "res = None \<Longrightarrow> node_at s p \<noteq> Some DirN \<and> (ab \<longrightarrow> node_at s p = None)
      \<and> (node_at s' = (node_at s)(p \<mapsto> RegF v t, tmp := None)
         \<or> node_at s' = (node_at s)(p \<mapsto> RegF v t))
      \<and> (ffaults s = [] \<longrightarrow> node_at s' = (node_at s)(p \<mapsto> RegF v t, tmp := None))"
    and "res = Some e \<Longrightarrow> fnodes s' = fnodes s"
    and "res = Some e \<Longrightarrow> errIs e ErrPreconditionFailed \<Longrightarrow> ab \<and> node_at s p \<noteq> None"
    and "ffaults s = [] \<Longrightarrow> ffaults s' = []"
proof -
  have "fs_wf s'
    \<and> (res = None \<longrightarrow> node_at s p \<noteq> Some DirN \<and> (ab \<longrightarrow> node_at s p = None)
      \<and> (node_at s' = (node_at s)(p \<mapsto> RegF v t, tmp := None)
         \<or> node_at s' = (node_at s)(p \<mapsto> RegF v t))
      \<and> (ffaults s = [] \<longrightarrow> node_at s' = (node_at s)(p \<mapsto> RegF v t, tmp := None)))
    \<and> (\<forall>e. res = Some e \<longrightarrow> fnodes s' = fnodes s)
    \<and> (\<forall>e. res = Some e \<longrightarrow> errIs e ErrPreconditionFailed \<longrightarrow> ab \<and> node_at s p \<noteq> None)
    \<and> (ffaults s = [] \<longrightarrow> ffaults s' = [])"
  proof (cases ab)
    case True
    obtain r1 s1 where l: "os_link tmp p s = (r1, s1)" by fastforce
    note ll = os_link_out [OF l assms(2)]
    show ?thesis
    proof (cases r1)
      case (Inl e)
      with True l assms(1) ll show ?thesis by (auto simp: commit_def split: if_splits)
    next
      case (Inr u)
      then have n1: "node_at s1 = (node_at s)(p \<mapsto> RegF v t)" "node_at s p = None"
        using ll(3) assms(5) by auto
      then have "node_at s1 tmp = Some (RegF v t)" using assms(3,5) by simp
      note rm = remove_file_out [OF ll(1) this]
      have "res = None" "s' = snd (os_remove tmp s1)"
        using True l Inr assms(1) by (auto simp: commit_def)
      with rm n1 ll(5) show ?thesis by auto
    qed
  next
    case False
    obtain r1 s1 where l: "os_rename tmp p s = (r1, s1)" by fastforce
    note ll = os_rename_out [OF l assms(2,3,4)]
    show ?thesis
    proof (cases r1)
      case (Inl e)
      with False l assms(1) ll show ?thesis by (auto simp: commit_def)
    next
      case (Inr u)
      with False l assms(1,5) ll show ?thesis by (auto simp: commit_def)
    qed
  qed
  then show "fs_wf s'"
    "res = None \<Longrightarrow> node_at s p \<noteq> Some DirN \<and> (ab \<longrightarrow> node_at s p = None)
      \<and> (node_at s' = (node_at s)(p \<mapsto> RegF v t, tmp := None)
         \<or> node_at s' = (node_at s)(p \<mapsto> RegF v t))
      \<and> (ffaults s = [] \<longrightarrow> node_at s' = (node_at s)(p \<mapsto> RegF v t, tmp := None))"
    "res = Some e \<Longrightarrow> fnodes s' = fnodes s"
    "res = Some e \<Longrightarrow> errIs e ErrPreconditionFailed \<Longrightarrow> ab \<and> node_at s p \<noteq> None"
    "ffaults s = [] \<Longrightarrow> ffaults s' = []" by blast+
qed

lemma ifAbsent_cond: "ifAbsent ifMatch \<Longrightarrow> tree_cond s p ifMatch \<longleftrightarrow> node_at s p = None"
  by (simp add: ifAbsent_def tree_cond_def)

lemma putLocked_out:
  assumes "putLocked tmp p etag ifMatch s = (res, s')" and "fs_wf s" and "tmp \<noteq> p" and "p \<noteq> []"
    and "node_at s tmp = Some (RegF v t)"
  shows "fs_wf s'"
    and "res = Inr e \<Longrightarrow> e = etag \<and> tree_cond s p ifMatch
      \<and> (node_at s' = (node_at s)(p \<mapsto> RegF v t, tmp := None)
         \<or> node_at s' = (node_at s)(p \<mapsto> RegF v t))"
    and "res = Inl x \<Longrightarrow> node_at s' = node_at s \<or> node_at s' = (node_at s)(tmp := None)"
    and "res = Inl x \<Longrightarrow> errIs x ErrPreconditionFailed \<Longrightarrow> \<not> tree_cond s p ifMatch"
    and "ffaults s = [] \<Longrightarrow> ffaults s' = [] \<and> node_at s' tmp = None"
proof -
  obtain c1 s1 where c: "checkIfMatch p ifMatch s = (c1, s1)" by fastforce
  note cc = checkIfMatch_out [OF c assms(2)]
  have wf1: "fs_wf s1" using cc(1) assms(2) fs_wf_fnodes by blast
  have n1: "node_at s1 = node_at s" by (rule node_at_fnodes [OF cc(1)])
  have t1: "node_at s1 tmp = Some (RegF v t)" using n1 assms(5) by simp
  have "fs_wf s'
    \<and> (\<forall>e. res = Inr e \<longrightarrow> e = etag \<and> tree_cond s p ifMatch
      \<and> (node_at s' = (node_at s)(p \<mapsto> RegF v t, tmp := None)
         \<or> node_at s' = (node_at s)(p \<mapsto> RegF v t)))
    \<and> (\<forall>x. res = Inl x \<longrightarrow> node_at s' = node_at s \<or> node_at s' = (node_at s)(tmp := None))
    \<and> (\<forall>x. res = Inl x \<longrightarrow> errIs x ErrPreconditionFailed \<longrightarrow> \<not> tree_cond s p ifMatch)
    \<and> (ffaults s = [] \<longrightarrow> ffaults s' = [] \<and> node_at s' tmp = None)"
  proof (cases c1)
    case (Some e)
    with c assms(1) have "res = Inl e" "s' = snd (os_remove tmp s1)" by (auto simp: putLocked_def)
    with remove_file_out [OF wf1 t1] cc Some n1 show ?thesis by auto
  next
    case None
    obtain r2 s2 where m: "commit tmp p (ifAbsent ifMatch) s1 = (r2, s2)" by fastforce
    note mm = commit_out [OF m wf1 assms(3,4) t1]
    show ?thesis
    proof (cases r2)
      case (Some e)
      with c None m assms(1) have r: "res = Inl e" "s' = snd (os_remove tmp s2)"
        by (auto simp: putLocked_def)
      have n2: "node_at s2 = node_at s" using node_at_fnodes [OF mm(3) [OF Some]] n1 by simp
      then have t2: "node_at s2 tmp = Some (RegF v t)" using assms(5) by simp
      have "\<not> tree_cond s p ifMatch" if "errIs e ErrPreconditionFailed"
        using mm(4) [OF Some that] n1 ifAbsent_cond by fastforce
      with remove_file_out [OF mm(1) t2] cc mm r n2 show ?thesis by auto
    next
      case None
      with c \<open>c1 = None\<close> m assms(1) have r: "res = Inr etag" "s' = s2"
        by (auto simp: putLocked_def)
      with mm(1,2,5) None n1 cc(2,4) \<open>c1 = None\<close> show ?thesis by auto
    qed
  qed
  then show "fs_wf s'"
    "res = Inr e \<Longrightarrow> e = etag \<and> tree_cond s p ifMatch
      \<and> (node_at s' = (node_at s)(p \<mapsto> RegF v t, tmp := None)
         \<or> node_at s' = (node_at s)(p \<mapsto> RegF v t))"
    "res = Inl x \<Longrightarrow> node_at s' = node_at s \<or> node_at s' = (node_at s)(tmp := None)"
    "res = Inl x \<Longrightarrow> errIs x ErrPreconditionFailed \<Longrightarrow> \<not> tree_cond s p ifMatch"
    "ffaults s = [] \<Longrightarrow> ffaults s' = [] \<and> node_at s' tmp = None" by blast+
qed

text \<open>Without a fault, the precondition decides.\<close>

lemma putLocked_quiet:
  assumes "ffaults s = []" and "fs_wf s" and "tmp \<noteq> p" and "p \<noteq> []"
    and "node_at s tmp = Some (RegF v t)" and "node_at s (butlast p) = Some DirN"
    and "node_at s p = None \<or> (\<exists>c t. node_at s p = Some (RegF c t))"
  shows "fst (putLocked tmp p etag ifMatch s)
    = (if tree_cond s p ifMatch then Inr etag else Inl ErrPreconditionFailed)"
proof -
  have "resolve s p = Inl ENOENT \<or> (\<exists>c t. resolve s p = Inr (RegF c t))"
  proof (cases "node_at s p")
    case None
    have "resolve s p = Inl ENOENT"
    proof (rule resolve_None [OF None])
      fix xs ys assume "p = xs @ ys" "ys \<noteq> []"
      then have "butlast p = xs @ butlast ys" by (simp add: butlast_append)
      then show "node_at s xs \<in> {None, Some DirN}"
        using assms(2,6) fs_wf_prefix_dir [of s xs "butlast ys"] by (cases "butlast ys = []") auto
    qed
    then show ?thesis ..
  next
    case (Some n)
    then show ?thesis using assms(2,7) by auto
  qed
  note chk = checkIfMatch_quiet [OF assms(1,2) this, of ifMatch]
  show ?thesis
  proof (cases "tree_cond s p ifMatch")
    case False
    with chk show ?thesis by (simp add: putLocked_def)
  next
    case True
    have "fst (commit tmp p (ifAbsent ifMatch) s) = None"
      using assms True ifAbsent_cond [of ifMatch s p]
      by (auto simp: commit_def os_link_def os_rename_def)
    then show ?thesis
      using chk True by (auto simp: putLocked_def split: prod.splits)
  qed
qed

end
