(* ===== verification/FSContract.thy ===== *)
theory FSContract
  imports FSProps
begin

text \<open>
  The filesystem backend implements the bucket contract: for every root and key space, each
  operation keeps the invariant, refines the abstract store operation of Bucket whatever
  faults the environment injects, and in a quiet state returns exactly the documented results.
\<close>

section \<open>Writes\<close>

lemma fs_putStream_eq: "fs_putStream root c k r t s = fs_put root c k r (- 1) t s"
  by (simp add: fs_putStream_def fs_put_def)

lemma tmpPath_below:
  "strict_prefix root (tmpPath (kpath root k) sfx)"
proof -
  have "tmpPath (kpath root k) sfx
      = root @ butlast (key_parts k) @ [last (kpath root k) @ ''.tmp.'' @ sfx]"
    by (simp add: tmpPath_def butlast_kpath)
  then show ?thesis by (simp add: strict_prefix_def)
qed

lemma tmpPath_not_root: "tmpPath (kpath root k) sfx \<noteq> root"
  by (metis tmpPath_below prefix_order.less_irrefl)

lemma tree_cond_precond:
  assumes "fs_inv root K s" and "k \<in> K"
  shows "tree_cond s (kpath root k) t \<longleftrightarrow> precond sha256hex (fs_store root K s k) t"
  using fs_inv_key_node [OF assms] assms(2)
  by (auto simp: tree_cond_def precond_def fs_store_def file_at_def split: option.split)

lemma fs_remove_tmp:
  assumes "fs_inv root K s" and "tmp_named q" and "q \<noteq> root"
  shows "fs_inv root K (snd (os_remove q s))"
    and "fs_store root K (snd (os_remove q s)) = fs_store root K s"
proof -
  obtain r s' where o: "os_remove q s = (r, s')" by fastforce
  note oo = os_remove_out [OF o fs_inv_wf [OF assms(1)]]
  have "fs_inv root K s' \<and> fs_store root K s' = fs_store root K s"
  proof (cases r)
    case (Inl e)
    with oo(2) assms(1) show ?thesis using fs_inv_same fs_store_same by blast
  next
    case (Inr u)
    with oo(3) have "node_at s' = (node_at s)(q := None)" by simp
    from fs_inv_tmp [OF assms(1) oo(1) this assms(2,3)] show ?thesis by simp
  qed
  with o show "fs_inv root K (snd (os_remove q s))"
    and "fs_store root K (snd (os_remove q s)) = fs_store root K s" by simp_all
qed

lemma node_ok_key: "k \<in> K \<Longrightarrow> node_ok root K (kpath root k) (RegF c t)"
  by (auto simp: node_ok_def)

lemma fs_inv_commit:
  assumes "fs_inv root K s" and "fs_wf s'" and "k \<in> K" and "tmp_named q" and "q \<noteq> root"
    and "node_at s' = (node_at s)(kpath root k \<mapsto> RegF v t, q := None)
       \<or> node_at s' = (node_at s)(kpath root k \<mapsto> RegF v t)"
  shows "fs_inv root K s'" and "fs_store root K s' = (fs_store root K s)(k \<mapsto> v)"
proof -
  have nroot: "kpath root k \<noteq> root" by (metis kpath_root prefix_order.less_irrefl)
  have nq: "kpath root j \<noteq> q" if "j \<in> K" for j
    using that assms(1,4) kpath_not_tmp fs_inv_plain by blast
  show "fs_inv root K s'"
    unfolding fs_inv_def
  proof (intro conjI allI impI)
    show "node_at s' root = Some DirN" using assms nroot by (auto simp: fs_inv_def)
    fix p n
    assume "strict_prefix root p" and "node_at s' p = Some n"
    then show "node_ok root K p n"
      using assms by (cases "p = kpath root k") (auto simp: fs_inv_def node_ok_key split: if_splits)
  qed (use assms in \<open>auto simp: fs_inv_def\<close>)
  show "fs_store root K s' = (fs_store root K s)(k \<mapsto> v)"
    using assms(3,6) nq by (auto simp: fs_store_def file_at_def kpath_inj fun_eq_iff)
qed

lemma randSuffix_out:
  assumes "randSuffix s = (sfx, s')"
  shows "fnodes s' = fnodes s" and "ffaults s' = ffaults s"
  using assms by (auto simp: randSuffix_def draw_rand_def split: list.splits)

text \<open>What happens to the tree between the parent directories and the locked section.\<close>

lemma fs_spool_ok:
  assumes "fs_inv root K s" and "k \<in> K"
    and "os_mkdirAll (butlast (kpath root k)) s = (m, s1)"
  shows "fs_inv root K s1" and "fs_store root K s1 = fs_store root K s"
    and "m = Inr () \<Longrightarrow> node_at s1 (butlast (kpath root k)) = Some DirN"
    and "fs_quiet root s \<Longrightarrow> fs_quiet root s1 \<and> m = Inr ()"
proof -
  note wf = fs_inv_wf [OF assms(1)]
  note out = os_mkdirAll_out [OF assms(3) wf]
  note new = fs_inv_new_dirs [OF assms(1,2) out(2,1)]
  show "fs_inv root K s1" and "fs_store root K s1 = fs_store root K s" by (rule new)+
  show "m = Inr () \<Longrightarrow> node_at s1 (butlast (kpath root k)) = Some DirN" by (rule out(3))
  assume q: "fs_quiet root s"
  then have f: "ffaults s = []" by (simp add: fs_quiet_def)
  have "fst (os_mkdirAll (butlast (kpath root k)) s) = Inr ()"
  proof (rule os_mkdirAll_quiet [OF wf f])
    fix xs ys
    assume "butlast (kpath root k) = xs @ ys"
    then have "kpath root k = xs @ (ys @ [last (kpath root k)])"
      by (metis append.assoc append_butlast_last_id kpath_not_Nil)
    then show "node_at s xs \<in> {None, Some DirN}"
      by (rule fs_inv_key_way [OF assms(1,2)]) simp
  qed
  with new(3) [OF q] out(4) f assms(3) show "fs_quiet root s1 \<and> m = Inr ()" by simp
qed

lemma fs_install_tmp:
  assumes "fs_inv root K s" and "fs_wf s'" and "tmp_named q" and "q \<noteq> root"
    and "fnodes s' = fnodes s \<or> (\<exists>d. installs q d s s')"
  shows "fs_inv root K s'" and "fs_store root K s' = fs_store root K s"
proof -
  have "fs_inv root K s' \<and> fs_store root K s' = fs_store root K s"
    using assms(5)
  proof
    assume "fnodes s' = fnodes s"
    then show ?thesis using assms(1) fs_inv_same fs_store_same by blast
  next
    assume "\<exists>d. installs q d s s'"
    then obtain d t where "node_at s' = (node_at s)(q := Some (RegF d t))"
      by (auto simp: installs_def)
    from fs_inv_tmp [OF assms(1,2) this assms(3,4)] show ?thesis by simp
  qed
  then show "fs_inv root K s'" and "fs_store root K s' = fs_store root K s" by auto
qed

text \<open>The locked section, on the store.\<close>

lemma putLocked_store:
  assumes "putLocked q (kpath root k) e0 t s = (res, s')" and "fs_inv root K s" and "k \<in> K"
    and "tmp_named q" and "q \<noteq> root" and "node_at s q = Some (RegF v t0)"
  shows "fs_inv root K s'"
    and "res = Inr e \<Longrightarrow> e = e0 \<and> precond sha256hex (fs_store root K s k) t
      \<and> fs_store root K s' = (fs_store root K s)(k \<mapsto> v)"
    and "res = Inl x \<Longrightarrow> fs_store root K s' = fs_store root K s"
    and "res = Inl x \<Longrightarrow> errIs x ErrPreconditionFailed \<Longrightarrow>
      \<not> precond sha256hex (fs_store root K s k) t"
proof -
  have nq: "q \<noteq> kpath root k"
    using assms(2,3,4) kpath_not_tmp fs_inv_plain by blast
  note out = putLocked_out [OF assms(1) fs_inv_wf [OF assms(2)] nq kpath_not_Nil assms(6)]
  have "fs_inv root K s' \<and> (\<forall>e. res = Inr e \<longrightarrow> e = e0 \<and> precond sha256hex (fs_store root K s k) t
      \<and> fs_store root K s' = (fs_store root K s)(k \<mapsto> v))
    \<and> (\<forall>x. res = Inl x \<longrightarrow> fs_store root K s' = fs_store root K s)
    \<and> (\<forall>x. res = Inl x \<longrightarrow> errIs x ErrPreconditionFailed \<longrightarrow>
      \<not> precond sha256hex (fs_store root K s k) t)"
  proof (cases res)
    case (Inr e)
    with out(2) fs_inv_commit [OF assms(2) out(1) assms(3,4,5)] show ?thesis
      by (auto simp: tree_cond_precond [OF assms(2,3)])
  next
    case (Inl x)
    note o3 = out(3) [OF Inl]
    have "fs_inv root K s' \<and> fs_store root K s' = fs_store root K s"
      using o3
    proof
      assume n: "node_at s' = node_at s"
      then have "node_at s' = (node_at s)(q := Some (RegF v t0))" using assms(6) by auto
      from fs_inv_tmp [OF assms(2) out(1) this assms(4,5)] show ?thesis by simp
    next
      assume "node_at s' = (node_at s)(q := None)"
      from fs_inv_tmp [OF assms(2) out(1) this assms(4,5)] show ?thesis by simp
    qed
    with Inl out(4) show ?thesis by (auto simp: tree_cond_precond [OF assms(2,3)])
  qed
  then show "fs_inv root K s'"
    "res = Inr e \<Longrightarrow> e = e0 \<and> precond sha256hex (fs_store root K s k) t
      \<and> fs_store root K s' = (fs_store root K s)(k \<mapsto> v)"
    "res = Inl x \<Longrightarrow> fs_store root K s' = fs_store root K s"
    "res = Inl x \<Longrightarrow> errIs x ErrPreconditionFailed \<Longrightarrow>
      \<not> precond sha256hex (fs_store root K s k) t" by blast+
qed

lemma fs_put_ok:
  assumes "fs_inv root K s" and "k \<in> K" and "fs_put root c k r n t s = (res, r', s')"
  shows "fs_inv root K s'
    \<and> put_spec sha256hex (fs_store root K s) k r n t res (fs_store root K s')"
proof (cases "ctxErr c")
  case (Some e)
  with assms show ?thesis by (auto simp: fs_put_def put_spec_def)
next
  case None
  note kp = fs_inv_keyPath [OF assms(1,2)]
  obtain m s1 where m: "os_mkdirAll (butlast (kpath root k)) s = (m, s1)" by fastforce
  note mm = fs_spool_ok [OF assms(1,2) m]
  show ?thesis
  proof (cases m)
    case (Inl e)
    with None kp m assms(3) have "res = Inl (EWrap ''objectstore/fs: mkdir parent'' (EOS e))"
      "s' = s1" by (auto simp: fs_put_def)
    with mm(1,2) show ?thesis by (simp add: put_spec_def)
  next
    case (Inr u)
    obtain sfx s2 where rs: "randSuffix s1 = (sfx, s2)" by fastforce
    define q where "q = tmpPath (kpath root k) sfx"
    have q: "tmp_named q" "q \<noteq> root" "q \<noteq> []" by (simp_all add: q_def tmpPath_not_root)
    note f2 = randSuffix_out(1) [OF rs]
    have i2: "fs_inv root K s2" "fs_store root K s2 = fs_store root K s"
      using mm(1,2) fs_inv_same [OF f2] fs_store_same [OF f2] by simp_all
    obtain w rr s3 where w: "writeAndSync q r n s2 = (w, rr, s3)" using prod_cases3 by blast
    note ww = writeAndSync_out [OF w fs_inv_wf [OF i2(1)] q(3)]
    have i3: "fs_inv root K s3" "fs_store root K s3 = fs_store root K s"
      using fs_install_tmp [OF i2(1) ww(1) q(1,2)] ww(2) i2(2) by auto
    show ?thesis
    proof (cases w)
      case (Inl e)
      with None kp m Inr rs w assms(3) have "res = Inl e" "s' = snd (os_remove q s3)"
        by (auto simp: fs_put_def Let_def q_def)
      with fs_remove_tmp [OF i3(1) q(1,2)] i3 ww(4) Inl show ?thesis
        by (auto simp: put_spec_def)
    next
      case (Inr e0)
      note wv = ww(3) [OF Inr]
      then obtain t0 where t0: "node_at s3 q = Some (RegF (fst (readAll r)) t0)"
        using installs_file by blast
      obtain s4 where l: "putLocked q (kpath root k) e0 t s3 = (res, s4)" "s' = s4"
        using None kp m \<open>m = Inr u\<close> rs w Inr assms(3)
        by (auto simp: fs_put_def Let_def q_def split: prod.splits)
      note ll = putLocked_store [OF l(1) i3(1) assms(2) q(1,2) t0]
      have "readAll r = (fst (readAll r), None)" using wv by (metis prod.collapse)
      with ll l(2) wv i3(2) show ?thesis
        by (cases res) (auto simp: put_spec_def)
    qed
  qed
qed

text \<open>In a quiet state the precondition decides, and the reader is consumed either way.\<close>

lemma fs_put_live:
  assumes "fs_inv root K s" and "fs_quiet root s" and "k \<in> K" and "ctxErr c = None"
    and "readAll r = (v, None)" and "0 \<le> n \<longrightarrow> n = int (length v)"
    and "fs_put root c k r n t s = (res, r', s')"
  shows "fs_quiet root s'" and "r' = readerRest r"
    and "if precond sha256hex (fs_store root K s k) t then res = Inr (sha256hex v)
         else res = Inl ErrPreconditionFailed"
proof -
  note kp = fs_inv_keyPath [OF assms(1,3)]
  obtain m s1 where m: "os_mkdirAll (butlast (kpath root k)) s = (m, s1)" by fastforce
  note mm = fs_spool_ok [OF assms(1,3) m]
  have mi: "m = Inr ()" and q1: "fs_quiet root s1" using mm(4) assms(2) by auto
  obtain sfx s2 where rs: "randSuffix s1 = (sfx, s2)" by fastforce
  define q where "q = tmpPath (kpath root k) sfx"
  have q: "tmp_named q" "q \<noteq> root" "q \<noteq> []" "q \<noteq> kpath root k" "butlast q = butlast (kpath root k)"
    "strict_prefix root q"
    by (simp_all add: q_def tmpPath_not_root tmpPath_below)
  note n2 = node_at_fnodes [OF randSuffix_out(1) [OF rs]]
  note f2 = randSuffix_out [OF rs]
  have i2: "fs_inv root K s2" "fs_store root K s2 = fs_store root K s" "ffaults s2 = []"
    using mm(1,2) fs_inv_same [OF f2(1)] fs_store_same [OF f2(1)] q1 f2(2)
    by (simp_all add: fs_quiet_def)
  have none: "node_at s2 q = None"
    using q1 q(1,6) n2 by (auto simp: fs_quiet_def)
  have par: "node_at s2 (butlast q) = Some DirN" using mm(3) mi n2 q(5) by simp
  obtain rr s3 where w: "writeAndSync q r n s2 = (Inr (sha256hex v), rr, s3)"
    using writeAndSync_quiet [OF i2(3) fs_inv_wf [OF i2(1)] q(3) none par assms(5,6)] by blast
  note ww = writeAndSync_out [OF w fs_inv_wf [OF i2(1)] q(3)]
  note wv = ww(3) [OF refl]
  then obtain t0 where t0: "node_at s3 q = Some (RegF v t0)" and rr: "rr = readerRest r"
    and n3: "node_at s3 = (node_at s2)(q \<mapsto> RegF v t0)"
    using assms(5) by (auto simp: installs_def)
  have i3: "fs_inv root K s3" "fs_store root K s3 = fs_store root K s" "ffaults s3 = []"
    using fs_install_tmp [OF i2(1) ww(1) q(1,2)] ww(2,5) i2(2,3) by auto
  obtain s4 where l: "putLocked q (kpath root k) (sha256hex v) t s3 = (res, s4)" "s' = s4" "r' = rr"
    using assms(4,7) kp m mi rs w by (auto simp: fs_put_def Let_def q_def split: prod.splits)
  note ll = putLocked_out [OF l(1) fs_inv_wf [OF i3(1)] q(4) kpath_not_Nil t0]
  have "q \<noteq> butlast q" using q(3) by (metis append_butlast_last_id append_self_conv not_Cons_self2)
  then have "node_at s3 (butlast (kpath root k)) = Some DirN" using n3 par q(5) by simp
  note lq = putLocked_quiet [OF i3(3) fs_inv_wf [OF i3(1)] q(4) kpath_not_Nil t0 this
      fs_inv_key_node [OF i3(1) assms(3)], of "sha256hex v" t]
  show "if precond sha256hex (fs_store root K s k) t then res = Inr (sha256hex v)
         else res = Inl ErrPreconditionFailed"
    using lq l(1) i3(2) tree_cond_precond [OF i3(1) assms(3)] by auto
  show "r' = readerRest r" using l(3) rr by simp
  have keyfree: "\<not> tmp_named (kpath root k)"
    by (rule kpath_not_tmp) (rule fs_inv_plain [OF assms(1,3)])
  have "ffaults s' = []" and gone: "node_at s' q = None" using ll(5) i3(3) l(2) by auto
  moreover have "node_at s' p \<noteq> None \<Longrightarrow> p = q \<or> p = kpath root k \<or> node_at s1 p \<noteq> None" for p
    using ll(2,3) l(2) n3 n2 by (cases res) (auto split: if_splits)
  ultimately show "fs_quiet root s'"
    using q1 keyfree unfolding fs_quiet_def by metis
qed

section \<open>Reads\<close>

text \<open>Opening a key: the file, or a documented error.\<close>

lemma open_key_out:
  assumes "fs_inv root K s" and "k \<in> K" and "os_open (kpath root k) s = (res, s')"
  shows "fnodes s' = fnodes s"
    and "res = Inr h \<Longrightarrow> \<exists>c. h = FReg c \<and> fs_store root K s k = Some c"
    and "res = Inl ENOENT \<Longrightarrow> fs_store root K s k = None"
    and "ffaults s = [] \<Longrightarrow> ffaults s' = [] \<and>
      res = (case fs_store root K s k of None \<Rightarrow> Inl ENOENT | Some c \<Rightarrow> Inr (FReg c))"
proof -
  note out = os_open_out [OF assms(3)] and node = fs_inv_key_node [OF assms(1,2)]
  note wf = fs_inv_wf [OF assms(1)]
  show "fnodes s' = fnodes s" by (rule out(1))
  show "res = Inr h \<Longrightarrow> \<exists>c. h = FReg c \<and> fs_store root K s k = Some c"
    using out(2,3) node assms(2) by (cases h) (auto simp: fs_store_def)
  show "res = Inl ENOENT \<Longrightarrow> fs_store root K s k = None"
    using out(4) [OF wf] assms(2) by (simp add: fs_store_def file_at_def)
  assume f: "ffaults s = []"
  have "resolve s (kpath root k) =
      (case node_at s (kpath root k) of None \<Rightarrow> Inl ENOENT | Some n \<Rightarrow> Inr n)"
    using wf resolve_None [of s "kpath root k"] fs_inv_key_way [OF assms(1,2)]
    by (auto split: option.split)
  with f assms(2,3) node out(5)
  show "ffaults s' = [] \<and>
      res = (case fs_store root K s k of None \<Rightarrow> Inl ENOENT | Some c \<Rightarrow> Inr (FReg c))"
    by (auto simp: os_open_def fs_store_def file_at_def)
qed

lemma fileETag_key_out:
  assumes "fs_inv root K s" and "k \<in> K" and "fileETag (kpath root k) s = (res, s')"
  shows "fnodes s' = fnodes s"
    and "res = Inr e \<Longrightarrow> \<exists>c. e = sha256hex c \<and> fs_store root K s k = Some c"
    and "res = Inl x \<Longrightarrow> isErrNotExist x \<Longrightarrow> fs_store root K s k = None"
    and "res = Inl x \<Longrightarrow> \<not> errIs x ErrNotFound"
    and "ffaults s = [] \<Longrightarrow> ffaults s' = [] \<and> res =
      (case fs_store root K s k of None \<Rightarrow> Inl (EOS ENOENT) | Some c \<Rightarrow> Inr (sha256hex c))"
proof -
  note out = fileETag_out [OF assms(3)]
  show "fnodes s' = fnodes s" by (rule out(1))
  show "res = Inr e \<Longrightarrow> \<exists>c. e = sha256hex c \<and> fs_store root K s k = Some c"
    using out(2) assms(2) by (auto simp: fs_store_def)
  show "res = Inl x \<Longrightarrow> isErrNotExist x \<Longrightarrow> fs_store root K s k = None"
    using out(3) [OF fs_inv_wf [OF assms(1)]] assms(2) by (simp add: fs_store_def file_at_def)
  show "res = Inl x \<Longrightarrow> \<not> errIs x ErrNotFound" using out(4) by auto
  assume f: "ffaults s = []"
  obtain r1 s1 where o: "os_open (kpath root k) s = (r1, s1)" by fastforce
  note oo = open_key_out(4) [OF assms(1,2) o f]
  show "ffaults s' = [] \<and> res =
      (case fs_store root K s k of None \<Rightarrow> Inl (EOS ENOENT) | Some c \<Rightarrow> Inr (sha256hex c))"
    using out(5) [OF f] assms(3) o oo
    by (auto simp: fileETag_def os_readAll_def split: option.splits)
qed

lemma fs_get_ok:
  assumes "fs_inv root K s" and "k \<in> K" and "fs_get root c k s = (res, s')"
  shows "fnodes s' = fnodes s" and "get_spec sha256hex body_bytes (fs_store root K s) k res"
    and "ctxErr c = None \<Longrightarrow> ffaults s = [] \<Longrightarrow> ffaults s' = [] \<and>
      res = (case fs_store root K s k of None \<Rightarrow> Inl ErrNotFound
             | Some v \<Rightarrow> Inr (FileB (FReg v), sha256hex v))"
proof -
  note kp = fs_inv_keyPath [OF assms(1,2)]
  obtain r1 s1 where e: "fileETag (kpath root k) s = (r1, s1)" by fastforce
  note ee = fileETag_key_out [OF assms(1,2) e]
  have i1: "fs_inv root K s1" "fs_store root K s1 = fs_store root K s"
    using fs_inv_same [OF ee(1)] fs_store_same [OF ee(1)] assms(1) by simp_all
  obtain r2 s2 where o: "os_open (kpath root k) s1 = (r2, s2)" by fastforce
  note oo = open_key_out [OF i1(1) assms(2) o]
  have "fnodes s' = fnodes s \<and> get_spec sha256hex body_bytes (fs_store root K s) k res
    \<and> (ctxErr c = None \<longrightarrow> ffaults s = [] \<longrightarrow> ffaults s' = [] \<and>
      res = (case fs_store root K s k of None \<Rightarrow> Inl ErrNotFound
             | Some v \<Rightarrow> Inr (FileB (FReg v), sha256hex v)))"
  proof (cases "ctxErr c")
    case (Some x)
    with assms(3) show ?thesis by (auto simp: fs_get_def get_spec_def)
  next
    case None
    show ?thesis
    proof (cases r1)
      case (Inl x)
      with None kp e assms(3) ee show ?thesis
        by (auto simp: fs_get_def get_spec_def split: if_splits option.splits)
    next
      case (Inr et)
      obtain v where v: "et = sha256hex v" "fs_store root K s k = Some v" using ee(2) Inr by blast
      show ?thesis
      proof (cases r2)
        case (Inl x)
        with None kp e \<open>r1 = Inr et\<close> o assms(3) oo(1,3,4) ee(1,5) i1(2) v show ?thesis
          by (auto simp: fs_get_def get_spec_def split: if_splits option.splits)
      next
        case (Inr h)
        then have "h = FReg v" using oo(2) i1(2) v(2) by auto
        with None kp e \<open>r1 = Inr et\<close> o Inr assms(3) oo(1,4) ee(1,5) i1(2) v show ?thesis
          by (auto simp: fs_get_def get_spec_def)
      qed
    qed
  qed
  then show "fnodes s' = fnodes s" "get_spec sha256hex body_bytes (fs_store root K s) k res"
    "ctxErr c = None \<Longrightarrow> ffaults s = [] \<Longrightarrow> ffaults s' = [] \<and>
      res = (case fs_store root K s k of None \<Rightarrow> Inl ErrNotFound
             | Some v \<Rightarrow> Inr (FileB (FReg v), sha256hex v))" by blast+
qed

text \<open>
  The arithmetic of GetRange on int64: the start is clamped into the object, and where
  \<open>start + length\<close> overflows, the difference \<open>end - start\<close> overflows back.
\<close>

lemma range_start_int64:
  assumes "is_i64 off" and "int (length c) < 2 ^ 63"
  shows "(let st = (if off < 0
                    then (let st = wrap64 (int (length c) + off) in if st < 0 then 0 else st)
                    else off)
          in if st > int (length c) then int (length c) else st) = int (range_start (length c) off)"
proof -
  have "off < 0 \<Longrightarrow> wrap64 (int (length c) + off) = int (length c) + off"
    using assms by (intro wrap64_id) (auto simp: is_i64_def)
  then show ?thesis by (auto simp: range_start_def Let_def)
qed

lemma range_limit_int64:
  assumes "0 \<le> start" and "start \<le> sz" and "sz < 2 ^ 63" and "0 < len" and "is_i64 len"
  shows "wrap64 ((let e = wrap64 (start + len) in if e > sz then sz else e) - start)
    = (if start + len < 2 ^ 63 then min len (sz - start) else len)"
proof (cases "start + len < 2 ^ 63")
  case True
  then have "wrap64 (start + len) = start + len"
    using assms by (intro wrap64_id) (auto simp: is_i64_def)
  moreover have "is_i64 (sz - start)" "is_i64 (min len (sz - start))"
    using assms by (auto simp: is_i64_def)
  ultimately show ?thesis using True assms by (auto simp: Let_def min_def)
next
  case False
  then have "wrap64 (start + len) = start + len - 2 ^ 64"
    using assms by (intro wrap64_over) (auto simp: is_i64_def)
  then have "\<not> wrap64 (start + len) > sz" using assms by (auto simp: is_i64_def)
  then show ?thesis
    using False assms(5) by (simp add: Let_def wrap64_minus_left)
qed

lemma range_bytes:
  assumes "is_i64 off" and "is_i64 len" and "int (length c) < 2 ^ 63" and "0 < len"
    and "start = int (range_start (length c) off)"
  shows "take (nat (wrap64 ((let e = wrap64 (start + len)
             in if e > int (length c) then int (length c) else e) - start))) (drop (nat start) c)
    = range_of c off len"
proof -
  let ?r = "drop (range_start (length c) off) c"
  have le: "range_start (length c) off \<le> length c" by (auto simp: range_start_def is_i64_def)
  have lim: "wrap64 ((let e = wrap64 (start + len)
             in if e > int (length c) then int (length c) else e) - start)
      = (if start + len < 2 ^ 63 then min len (int (length c) - start) else len)"
    by (rule range_limit_int64) (use assms le in auto)
  have "nat (min len (int (length c) - start)) = min (nat len) (length ?r)"
    using assms(4,5) le by (auto simp: min_def)
  then have "take (nat (min len (int (length c) - start))) ?r = take (nat len) ?r"
    by (simp add: min_def)
  then show ?thesis
    unfolding lim using assms(4,5) by (simp add: range_of_def Let_def)
qed

lemma fs_getRange_ok:
  assumes "fs_inv root K s" and "k \<in> K" and "is_i64 off" and "is_i64 len"
    and "fs_getRange root c k off len s = (res, s')"
  shows "fnodes s' = fnodes s" and "getRange_spec body_bytes (fs_store root K s) k off len res"
proof -
  note kp = fs_inv_keyPath [OF assms(1,2)]
  have "fnodes s' = fnodes s \<and> getRange_spec body_bytes (fs_store root K s) k off len res"
  proof (cases "ctxErr c")
    case (Some x)
    with assms(5) show ?thesis by (auto simp: fs_getRange_def getRange_spec_def)
  next
    case None
    obtain r1 s1 where o: "os_open (kpath root k) s = (r1, s1)" by fastforce
    note oo = open_key_out [OF assms(1,2) o]
    show ?thesis
    proof (cases r1)
      case (Inl x)
      with None kp o assms(5) oo show ?thesis
        by (auto simp: fs_getRange_def getRange_spec_def split: if_splits)
    next
      case (Inr h)
      then obtain v where v: "h = FReg v" "fs_store root K s k = Some v" using oo(2) by blast
      obtain r2 s2 where t: "os_fstat_size h s1 = (r2, s2)" by fastforce
      note tt = os_fstat_size_out [OF t]
      show ?thesis
      proof (cases r2)
        case (Inl x)
        with None kp o Inr t assms(5) oo(1) tt(1) show ?thesis
          by (auto simp: fs_getRange_def getRange_spec_def)
      next
        case (Inr sz)
        then have sz: "sz = int (length v)" using tt(2) v(1) by simp
        define start where "start = (let st = (if off < 0
            then (let st = wrap64 (sz + off) in if st < 0 then 0 else st) else off)
          in if st > sz then sz else st)"
        obtain r3 s3 where k3: "os_seek h start s2 = (r3, s3)" by fastforce
        note kk = os_seek_out [OF k3]
        have fn: "fnodes s3 = fnodes s" using oo(1) tt(1) kk(1) by simp
        show ?thesis
        proof (cases r3)
          case (Inl x)
          with None kp o \<open>r1 = Inr h\<close> t Inr k3 assms(5) fn show ?thesis
            by (auto simp: fs_getRange_def getRange_spec_def Let_def start_def)
        next
          case (Inr h')
          have h': "h' = FReg (drop (nat start) v)" using kk(2) Inr v(1) by simp
          have res: "s' = s3" "res = Inr (if len \<le> 0 then FileB h' else LimitedB h' (wrap64
              ((let e = wrap64 (start + len) in if e > sz then sz else e) - start)))"
            using None kp o \<open>r1 = Inr h\<close> t \<open>r2 = Inr sz\<close> k3 Inr assms(5)
            by (simp_all add: fs_getRange_def Let_def start_def split: if_splits)
          have "body_bytes (if len \<le> 0 then FileB h' else LimitedB h' (wrap64
              ((let e = wrap64 (start + len) in if e > sz then sz else e) - start)))
            = range_of v off len" if b: "int (length v) < 2 ^ 63"
          proof -
            have st: "start = int (range_start (length v) off)"
              unfolding start_def sz by (rule range_start_int64 [OF assms(3) b])
            show ?thesis
            proof (cases "len \<le> 0")
              case True
              then show ?thesis using h' st by (simp add: range_of_def)
            next
              case False
              then show ?thesis
                using range_bytes [OF assms(3,4) b _ st] by (simp add: h' sz Let_def split: if_splits)
            qed
          qed
          with res fn v(2) show ?thesis by (auto simp: getRange_spec_def)
        qed
      qed
    qed
  qed
  then show "fnodes s' = fnodes s" "getRange_spec body_bytes (fs_store root K s) k off len res"
    by auto
qed

lemma fs_getRange_live:
  assumes "fs_inv root K s" and "k \<in> K" and "ffaults s = []" and "ctxErr c = None"
    and "fs_getRange root c k off len s = (res, s')"
  shows "ffaults s' = []"
    and "if fs_store root K s k = None then res = Inl ErrNotFound else \<exists>b. res = Inr b"
proof -
  note kp = fs_inv_keyPath [OF assms(1,2)]
  obtain r1 s1 where o: "os_open (kpath root k) s = (r1, s1)" by fastforce
  note oo = open_key_out(4) [OF assms(1,2) o assms(3)]
  have "ffaults s' = [] \<and>
    (if fs_store root K s k = None then res = Inl ErrNotFound else \<exists>b. res = Inr b)"
  proof (cases "fs_store root K s k")
    case None
    with kp o oo assms(4,5) show ?thesis by (auto simp: fs_getRange_def)
  next
    case (Some v)
    with kp o oo assms(4,5) show ?thesis
      by (auto simp: fs_getRange_def os_fstat_size_def os_seek_def Let_def split: if_splits)
  qed
  then show "ffaults s' = []"
    and "if fs_store root K s k = None then res = Inl ErrNotFound else \<exists>b. res = Inr b" by auto
qed

lemma fs_stat_ok:
  assumes "fs_inv root K s" and "k \<in> K" and "fs_stat root c k s = (res, s')"
  shows "fnodes s' = fnodes s" and "stat_spec sha256hex (fs_store root K s) k res"
proof -
  note kp = fs_inv_keyPath [OF assms(1,2)] and node = fs_inv_key_node [OF assms(1,2)]
  have "fnodes s' = fnodes s \<and> stat_spec sha256hex (fs_store root K s) k res"
  proof (cases "ctxErr c")
    case (Some x)
    with assms(3) show ?thesis by (auto simp: fs_stat_def stat_spec_def)
  next
    case None
    obtain r1 s1 where o: "os_stat (kpath root k) s = (r1, s1)" by fastforce
    note oo = os_stat_out [OF o]
    have i1: "fs_inv root K s1" "fs_store root K s1 = fs_store root K s"
      using fs_inv_same [OF oo(1)] fs_store_same [OF oo(1)] assms(1) by simp_all
    show ?thesis
    proof (cases r1)
      case (Inl x)
      have "x = ENOENT \<Longrightarrow> fs_store root K s k = None"
        using oo(3) [OF fs_inv_wf [OF assms(1)]] Inl assms(2) by (simp add: fs_store_def file_at_def)
      with None kp o Inl assms(3) oo(1) show ?thesis
        by (auto simp: fs_stat_def stat_spec_def split: if_splits)
    next
      case (Inr n)
      then obtain v t where n: "n = RegF v t" "node_at s (kpath root k) = Some n"
        using oo(2) node by auto
      then have st: "fs_store root K s k = Some v" using assms(2) by (simp add: fs_store_def file_at_def)
      obtain r2 s2 where e: "fileETag (kpath root k) s1 = (r2, s2)" by fastforce
      note ee = fileETag_key_out [OF i1(1) assms(2) e]
      show ?thesis
      proof (cases r2)
        case (Inl x)
        with None kp o Inr e assms(3) oo(1) ee show ?thesis
          by (auto simp: fs_stat_def stat_spec_def)
      next
        case (Inr et)
        then have "et = sha256hex v" using ee(2) i1(2) st by auto
        with None kp o \<open>r1 = Inr n\<close> n e Inr assms(3) oo(1) ee(1) st show ?thesis
          by (auto simp: fs_stat_def stat_spec_def info_ok_def)
      qed
    qed
  qed
  then show "fnodes s' = fnodes s" "stat_spec sha256hex (fs_store root K s) k res" by auto
qed

lemma fs_stat_live:
  assumes "fs_inv root K s" and "k \<in> K" and "ffaults s = []" and "ctxErr c = None"
    and "fs_stat root c k s = (res, s')"
  shows "ffaults s' = []"
    and "if fs_store root K s k = None then res = Inl ErrNotFound else \<exists>i. res = Inr i"
proof -
  note kp = fs_inv_keyPath [OF assms(1,2)] and node = fs_inv_key_node [OF assms(1,2)]
  note wf = fs_inv_wf [OF assms(1)]
  obtain r1 s1 where e: "fileETag (kpath root k) s = (r1, s1)" by fastforce
  note ee = fileETag_key_out [OF assms(1,2) e]
  have "resolve s (kpath root k) =
      (case node_at s (kpath root k) of None \<Rightarrow> Inl ENOENT | Some n \<Rightarrow> Inr n)"
    using wf resolve_None [of s "kpath root k"] fs_inv_key_way [OF assms(1,2)]
    by (auto split: option.split)
  then have "ffaults s' = [] \<and>
    (if fs_store root K s k = None then res = Inl ErrNotFound else \<exists>i. res = Inr i)"
    using assms(2-5) kp node e ee(5)
    by (auto simp: fs_stat_def os_stat_def fs_store_def file_at_def split: option.splits)
  then show "ffaults s' = []"
    and "if fs_store root K s k = None then res = Inl ErrNotFound else \<exists>i. res = Inr i" by auto
qed

end
