(* ===== verification/FSList.thy ===== *)
theory FSList
  imports FSContract
begin

text \<open>
  The listing of the filesystem backend: what the walk collects, and that a List call returns
  the sorted page of the abstract store.
\<close>

section \<open>Listing\<close>

text \<open>The key a walk entry contributes to a listing, if any.\<close>

definition listedKey :: "path \<Rightarrow> string \<Rightarrow> string \<Rightarrow> path \<times> node \<Rightarrow> string option" where
  "listedKey root pre sa e =
     (case snd e of
        RegF c t \<Rightarrow> if tmp_named (fst e) then None
                   else if selects pre sa (relKey root (fst e)) then Some (relKey root (fst e))
                   else None
      | _ \<Rightarrow> None)"

definition entry_of :: "path \<Rightarrow> fsys \<Rightarrow> path \<times> node \<Rightarrow> bool" where
  "entry_of root s e \<longleftrightarrow> strict_prefix root (fst e) \<and> node_at s (fst e) = Some (snd e)"

lemma listedKey_kpath:
  assumes "fs_inv root K s" and "entry_of root s e" and "listedKey root pre sa e = Some k"
  shows "k \<in> K" and "fst e = kpath root k" and "selects pre sa k" and "fs_store root K s k \<noteq> None"
proof -
  obtain c t where n: "snd e = RegF c t" and nt: "\<not> tmp_named (fst e)"
    and sel: "selects pre sa (relKey root (fst e))" "k = relKey root (fst e)"
    using assms(3) by (auto simp: listedKey_def split: node.splits if_splits)
  have "node_ok root K (fst e) (RegF c t)"
    using assms(1,2) n by (auto simp: fs_inv_def entry_of_def)
  then obtain j where j: "j \<in> K" "fst e = kpath root j" using nt by (auto simp: node_ok_def)
  then have "k = j" using sel(2) by (simp add: relKey_kpath)
  with j sel n assms(2)
  show "k \<in> K" "fst e = kpath root k" "selects pre sa k" "fs_store root K s k \<noteq> None"
    by (auto simp: fs_store_def file_at_def entry_of_def)
qed

lemma listVisit_out:
  assumes "fs_inv root K s" and "entry_of root s e" and "listVisit root pre sa e out s = (res, s')"
  shows "fnodes s' = fnodes s"
    and "res = Inr o' \<Longrightarrow> \<exists>is. o' = out @ is \<and> list_all (info_ok sha256hex (fs_store root K s)) is
      \<and> map oKey is = (case listedKey root pre sa e of None \<Rightarrow> [] | Some k \<Rightarrow> [k])"
    and "ffaults s = [] \<Longrightarrow> ffaults s' = [] \<and> (\<exists>o'. res = Inr o')"
proof -
  have "fnodes s' = fnodes s
    \<and> (\<forall>o'. res = Inr o' \<longrightarrow> (\<exists>is. o' = out @ is \<and> list_all (info_ok sha256hex (fs_store root K s)) is
      \<and> map oKey is = (case listedKey root pre sa e of None \<Rightarrow> [] | Some k \<Rightarrow> [k])))
    \<and> (ffaults s = [] \<longrightarrow> ffaults s' = [] \<and> (\<exists>o'. res = Inr o'))"
  proof (cases "snd e")
    case DirN
    obtain r1 s1 where d: "os_readDir (fst e) s = (r1, s1)" by fastforce
    with DirN assms(3) os_readDir_out [OF d] show ?thesis
      by (cases r1) (auto simp: listVisit_def listedKey_def)
  next
    case SpecN
    with assms(3) show ?thesis by (auto simp: listVisit_def listedKey_def)
  next
    case (RegF c t)
    have ne: "fst e \<noteq> []" using assms(2) by (auto simp: entry_of_def)
    show ?thesis
    proof (cases "listedKey root pre sa e")
      case None
      then have "listVisit root pre sa e out s = (Inr out, s)"
        using RegF ne by (auto simp: listVisit_def listedKey_def tmp_named_def selects_def Let_def
            split: if_splits)
      with assms(3) None show ?thesis by auto
    next
      case (Some k)
      note lk = listedKey_kpath [OF assms(1,2) Some]
      have rk: "relKey root (fst e) = k" using lk(2) by (simp add: relKey_kpath)
      obtain r1 s1 where o: "os_stat (kpath root k) s = (r1, s1)" by fastforce
      note oo = os_stat_out [OF o]
      have i1: "fs_inv root K s1" "fs_store root K s1 = fs_store root K s"
        using fs_inv_same [OF oo(1)] fs_store_same [OF oo(1)] assms(1) by simp_all
      obtain r2 s2 where f: "fileETag (kpath root k) s1 = (r2, s2)" by fastforce
      note ff = fileETag_key_out [OF i1(1) lk(1) f]
      have st: "fs_store root K s k = Some c"
        using lk(1,2) assms(2) RegF by (simp add: fs_store_def file_at_def entry_of_def)
      have visit: "listVisit root pre sa e out s =
         (case os_stat (kpath root k) s of
            (Inl x, s1) \<Rightarrow> (Inl (EOS x), s1)
          | (Inr n, s1) \<Rightarrow>
             (case fileETag (kpath root k) s1 of
                (Inl x, s2) \<Rightarrow> (Inl x, s2)
              | (Inr etag, s2) \<Rightarrow> (Inr (out @ [\<lparr>oKey = k,
                   oSize = (case n of RegF b t \<Rightarrow> int (length b) | _ \<Rightarrow> fdirsize s),
                   oLastModified = (case n of RegF b t \<Rightarrow> t | _ \<Rightarrow> fnow s),
                   oETag = etag\<rparr>]), s2)))"
        using Some RegF ne lk(3) rk
        by (auto simp: listVisit_def listedKey_def tmp_named_def selects_def Let_def lk(2)
            split: if_splits)
      show ?thesis
      proof (cases r1)
        case (Inl x)
        have "ffaults s \<noteq> []"
        proof
          assume f0: "ffaults s = []"
          have "resolve s (kpath root k) = Inr (RegF c t)"
            using assms(2) RegF lk(2) by (intro resolve_Some fs_inv_wf [OF assms(1)])
              (simp add: entry_of_def)
          with o Inl f0 show False by (simp add: os_stat_def)
        qed
        with visit o Inl assms(3) oo(1) show ?thesis by auto
      next
        case (Inr n)
        then have n: "n = RegF c t"
          using oo(2) assms(2) RegF lk(2) by (auto simp: entry_of_def)
        show ?thesis
        proof (cases r2)
          case (Inl x)
          have "ffaults s \<noteq> []" using oo(4) ff(5) Inl st i1(2) by auto
          with visit o Inr f Inl assms(3) oo(1) ff(1) show ?thesis by auto
        next
          case (Inr et)
          then have et: "et = sha256hex c" using ff(2) i1(2) st by auto
          have "res = Inr (out @ [\<lparr>oKey = k, oSize = int (length c), oLastModified = t, oETag = et\<rparr>])"
            "s' = s2"
            using visit o \<open>r1 = Inr n\<close> n f Inr assms(3) by auto
          with Some et st oo(1,4) ff(1,5) show ?thesis
            by (auto simp: info_ok_def intro!: exI [of _ "[\<lparr>oKey = k, oSize = int (length c),
                oLastModified = t, oETag = et\<rparr>]"])
        qed
      qed
    qed
  qed
  then show "fnodes s' = fnodes s"
    "res = Inr o' \<Longrightarrow> \<exists>is. o' = out @ is \<and> list_all (info_ok sha256hex (fs_store root K s)) is
      \<and> map oKey is = (case listedKey root pre sa e of None \<Rightarrow> [] | Some k \<Rightarrow> [k])"
    "ffaults s = [] \<Longrightarrow> ffaults s' = [] \<and> (\<exists>o'. res = Inr o')" by blast+
qed

lemma entry_of_same: "fnodes s' = fnodes s \<Longrightarrow> entry_of root s' e = entry_of root s e"
  unfolding entry_of_def using node_at_fnodes [of s' s] by simp

lemma listWalk_out:
  assumes "listWalk root pre sa es out s = (res, s')" and "fs_inv root K s"
    and "\<forall>e \<in> set es. entry_of root s e"
  shows "fnodes s' = fnodes s
    \<and> (\<forall>o'. res = Inr o' \<longrightarrow> (\<exists>is. o' = out @ is \<and> list_all (info_ok sha256hex (fs_store root K s)) is
         \<and> map oKey is = List.map_filter (listedKey root pre sa) es))
    \<and> (ffaults s = [] \<longrightarrow> ffaults s' = [] \<and> (\<exists>o'. res = Inr o'))"
  using assms
proof (induction es arbitrary: out s)
  case Nil
  then show ?case by auto
next
  case (Cons e es)
  obtain r1 s1 where v: "listVisit root pre sa e out s = (r1, s1)" by fastforce
  have en: "entry_of root s e" using Cons.prems(3) by simp
  note vv = listVisit_out [OF Cons.prems(2) en v]
  show ?case
  proof (cases r1)
    case (Inl x)
    with v Cons.prems(1) vv show ?thesis by auto
  next
    case (Inr out1)
    with v Cons.prems(1) have w: "listWalk root pre sa es out1 s1 = (res, s')" by simp
    have i1: "fs_inv root K s1" "fs_store root K s1 = fs_store root K s"
      using fs_inv_same [OF vv(1)] fs_store_same [OF vv(1)] Cons.prems(2) by simp_all
    have "\<forall>e \<in> set es. entry_of root s1 e" using Cons.prems(3) entry_of_same [OF vv(1)] by simp
    note ih = Cons.IH [OF w i1(1) this]
    obtain is1 where is1: "out1 = out @ is1" "list_all (info_ok sha256hex (fs_store root K s)) is1"
      "map oKey is1 = (case listedKey root pre sa e of None \<Rightarrow> [] | Some k \<Rightarrow> [k])"
      using vv(2) [OF Inr] by blast
    have "\<exists>is. o' = out @ is \<and> list_all (info_ok sha256hex (fs_store root K s)) is
         \<and> map oKey is = List.map_filter (listedKey root pre sa) (e # es)" if "res = Inr o'" for o'
    proof -
      obtain is2 where "o' = out1 @ is2" "list_all (info_ok sha256hex (fs_store root K s)) is2"
        "map oKey is2 = List.map_filter (listedKey root pre sa) es"
        using ih \<open>res = Inr o'\<close> i1(2) by auto
      with is1 show ?thesis
        by (intro exI [of _ "is1 @ is2"]) (auto split: option.splits)
    qed
    with ih vv(1,3) show ?thesis by auto
  qed
qed

lemma map_filter_cases:
  "set (List.map_filter f es) = {k. \<exists>e \<in> set es. f e = Some k}"
  by (induction es) (auto split: option.splits)

lemma distinct_map_filter_inv:
  assumes "\<And>e k. e \<in> set es \<Longrightarrow> f e = Some k \<Longrightarrow> g k = fst e" and "distinct (map fst es)"
  shows "distinct (List.map_filter f es)"
  using assms
proof (induction es)
  case (Cons e es)
  show ?case
  proof (cases "f e")
    case None
    with Cons show ?thesis by simp
  next
    case (Some k)
    have "k \<notin> set (List.map_filter f es)"
    proof
      assume "k \<in> set (List.map_filter f es)"
      then obtain e' where "e' \<in> set es" "f e' = Some k" by (auto simp: map_filter_cases)
      then have "fst e' = fst e" using Cons.prems(1) Some by (metis list.set_intros)
      with \<open>e' \<in> set es\<close> Cons.prems(2) show False by (auto simp: image_iff)
    qed
    with Cons Some show ?thesis by simp
  qed
qed simp

lemma walkEntries_set:
  assumes "fs_wf s"
  shows "set (walkEntries root s) = {e. entry_of root s e}" and "distinct (map fst (walkEntries root s))"
proof -
  have d: "distinct (map fst (fnodes s))" using assms by (simp add: fs_wf_def)
  have mem: "(p, n) \<in> set (fnodes s) \<longleftrightarrow> node_at s p = Some n" if "strict_prefix root p" for p n
    using that d by (cases "p = []") (auto simp: node_at_def)
  then show "set (walkEntries root s) = {e. entry_of root s e}"
    by (auto simp: walkEntries_def entry_of_def)
  show "distinct (map fst (walkEntries root s))"
    using distinct_map_filter [OF d, of "\<lambda>(p, n). strict_prefix root p"]
    by (simp add: walkEntries_def distinct_map del: set_filter)
qed

lemma finite_store: "fs_wf s \<Longrightarrow> finite (dom (fs_store root K s))"
proof -
  have "k \<in> dom (fs_store root K s) \<Longrightarrow> kpath root k \<in> fst ` set (fnodes s)" for k
    by (auto simp: fs_store_def file_at_def node_at_def map_of_eq_None_iff
        dest: map_of_SomeD split: if_splits option.splits node.splits)
      (metis fst_conv imageI map_of_SomeD)
  then have "kpath root ` dom (fs_store root K s) \<subseteq> fst ` set (fnodes s)" by blast
  then have "finite (kpath root ` dom (fs_store root K s))" by (rule finite_subset) simp
  then show ?thesis by (rule finite_imageD) (simp add: inj_on_def kpath_inj)
qed

lemma walk_keys:
  assumes "fs_inv root K s"
  shows "set (List.map_filter (listedKey root pre sa) (walkEntries root s))
      = {k \<in> dom (fs_store root K s). selects pre sa k}"
    and "distinct (List.map_filter (listedKey root pre sa) (walkEntries root s))"
proof -
  note we = walkEntries_set [OF fs_inv_wf [OF assms], of root]
  show "distinct (List.map_filter (listedKey root pre sa) (walkEntries root s))"
    by (rule distinct_map_filter_inv [where g = "kpath root"])
      (use we listedKey_kpath(2) [OF assms] in \<open>auto\<close>)
  have "\<exists>e. entry_of root s e \<and> listedKey root pre sa e = Some k"
    if "fs_store root K s k = Some v" "selects pre sa k" for k v
  proof -
    have k: "k \<in> K" "file_at s (kpath root k) = Some v"
      using that(1) by (auto simp: fs_store_def split: if_splits)
    then obtain t where "node_at s (kpath root k) = Some (RegF v t)"
      by (auto simp: file_at_def split: option.splits node.splits)
    moreover have "\<not> tmp_named (kpath root k)"
      by (rule kpath_not_tmp) (rule fs_inv_plain [OF assms k(1)])
    ultimately show ?thesis
      using that(2) by (intro exI [of _ "(kpath root k, RegF v t)"])
        (simp add: entry_of_def listedKey_def relKey_kpath)
  qed
  then show "set (List.map_filter (listedKey root pre sa) (walkEntries root s))
      = {k \<in> dom (fs_store root K s). selects pre sa k}"
    using listedKey_kpath(3,4) [OF assms] by (auto simp: map_filter_cases we(1); blast)
qed

lemma fs_list_ok:
  assumes "fs_inv root K s" and "fs_list root c pre sa s = (res, s')"
  shows "fnodes s' = fnodes s" and "list_spec sha256hex maxKeys (fs_store root K s) pre sa res"
    and "ctxErr c = None \<Longrightarrow> ffaults s = [] \<Longrightarrow> ffaults s' = [] \<and> (\<exists>x. res = Inr x)"
proof -
  have "fnodes s' = fnodes s \<and> list_spec sha256hex maxKeys (fs_store root K s) pre sa res
    \<and> (ctxErr c = None \<longrightarrow> ffaults s = [] \<longrightarrow> ffaults s' = [] \<and> (\<exists>x. res = Inr x))"
  proof (cases "ctxErr c")
    case (Some x)
    with assms(2) show ?thesis by (auto simp: fs_list_def list_spec_def)
  next
    case None
    have root: "node_at s root = Some DirN" using assms(1) by (simp add: fs_inv_def)
    obtain r1 s1 where o: "os_stat root s = (r1, s1)" by fastforce
    note oo = os_stat_out [OF o]
    show ?thesis
    proof (cases r1)
      case (Inl x)
      have "ffaults s \<noteq> []" using o Inl root fs_inv_wf [OF assms(1)] by (auto simp: os_stat_def)
      with None o Inl assms(2) oo(1) show ?thesis by (auto simp: fs_list_def list_spec_def)
    next
      case (Inr n)
      then have n: "n = DirN" using oo(2) root by auto
      obtain r2 s2 where d: "os_readDir root s1 = (r2, s2)" by fastforce
      note dd = os_readDir_out [OF d]
      have f2: "fnodes s2 = fnodes s" using dd(1) oo(1) by simp
      have i2: "fs_inv root K s2" "fs_store root K s2 = fs_store root K s"
        using fs_inv_same [OF f2] fs_store_same [OF f2] assms(1) by simp_all
      have we: "walkEntries root s1 = walkEntries root s2"
        using dd(1) by (simp add: walkEntries_def)
      show ?thesis
      proof (cases r2)
        case (Inl x)
        have "ffaults s \<noteq> []" using oo(4) dd(2) Inl by auto
        with None o Inr n d Inl assms(2) f2 show ?thesis
          by (auto simp: fs_list_def list_spec_def listVisit_def Let_def)
      next
        case (Inr u)
        obtain r3 s3 where w: "listWalk root pre sa (walkEntries root s2) [] s2 = (r3, s3)" by fastforce
        have "\<forall>e \<in> set (walkEntries root s2). entry_of root s2 e"
          using walkEntries_set(1) [OF fs_inv_wf [OF i2(1)]] by auto
        note ww = listWalk_out [OF w i2(1) this]
        show ?thesis
        proof (cases r3)
          case (Inl x)
          have "ffaults s \<noteq> []" using oo(4) dd(2) ww Inl by auto
          with None o \<open>r1 = Inr n\<close> n d Inr w Inl assms(2) f2 ww show ?thesis
            by (auto simp: fs_list_def list_spec_def listVisit_def Let_def we)
        next
          case (Inr out)
          let ?m = "fs_store root K s"
          obtain ok: "list_all (info_ok sha256hex ?m) out" and
            keys: "map oKey out = List.map_filter (listedKey root pre sa) (walkEntries root s2)"
            using ww Inr i2(2) by auto
          have res: "res = Inr (take maxKeys (sort_key oKey out))" "s' = s3"
            using None o \<open>r1 = Inr n\<close> n d \<open>r2 = Inr u\<close> w Inr assms(2)
            by (auto simp: fs_list_def listVisit_def Let_def we)
          note wk = walk_keys [OF i2(1), of pre sa]
          have "map oKey (sort_key oKey out) = list_keys ?m pre sa"
            using map_sort_key_distinct [of oKey out] wk i2(2) keys
            by (simp add: list_keys_def flip: set_map)
          moreover have "list_all (info_ok sha256hex ?m) (take maxKeys (sort_key oKey out))"
            using ok by (auto simp: list_all_iff dest: in_set_takeD)
          ultimately have "list_spec sha256hex maxKeys ?m pre sa res"
            using res by (simp add: list_spec_def flip: take_map)
          then show ?thesis using res(2) ww f2 oo(4) dd(2) res(1) by auto
        qed
      qed
    qed
  qed
  then show "fnodes s' = fnodes s" "list_spec sha256hex maxKeys (fs_store root K s) pre sa res"
    "ctxErr c = None \<Longrightarrow> ffaults s = [] \<Longrightarrow> ffaults s' = [] \<and> (\<exists>x. res = Inr x)" by blast+
qed

end
