(* ===== verification/FSDelete.thy ===== *)
theory FSDelete
  imports FSList
begin

text \<open>
  Delete of fs.go and its pruning of empty parents, and the conclusion of the filesystem
  development: the model of fs.go is an instance of the bucket contract
  (\<open>interpretation fs\<close>).
\<close>

section \<open>Pruning\<close>

lemma pruneParents_stop [simp]: "pruneParents root root s = s" "pruneParents root [] s = s"
  by (simp_all add: pruneParents.simps)

lemma pruneParents_step:
  "dir \<noteq> root \<Longrightarrow> dir \<noteq> [] \<Longrightarrow> pruneParents root dir s =
     (case os_remove dir s of (Inl e, s1) \<Rightarrow> s1
      | (Inr u, s1) \<Rightarrow> pruneParents root (butlast dir) s1)"
  by (subst pruneParents.simps) (simp only: if_False simp_thms)

definition prune_keeps :: "path \<Rightarrow> string set \<Rightarrow> fsys \<Rightarrow> fsys \<Rightarrow> bool" where
  "prune_keeps root K s s' \<longleftrightarrow> fs_inv root K s' \<and> fs_store root K s' = fs_store root K s
     \<and> (fs_quiet root s \<longrightarrow> fs_quiet root s')"

lemma prune_keeps_refl: "fs_inv root K s \<Longrightarrow> prune_keeps root K s s"
  by (simp add: prune_keeps_def)

lemma prune_keeps_trans:
  "prune_keeps root K s s1 \<Longrightarrow> prune_keeps root K s1 s2 \<Longrightarrow> prune_keeps root K s s2"
  by (simp add: prune_keeps_def)

lemma fs_quiet_del:
  "fs_quiet root s \<Longrightarrow> ffaults s' = [] \<Longrightarrow> node_at s' = (node_at s)(d := None) \<Longrightarrow> fs_quiet root s'"
  by (simp add: fs_quiet_def)

lemma prune_step_keeps:
  assumes "fs_inv root K s" and "k \<in> K" and "strict_prefix root d"
    and "strict_prefix d (kpath root k)" and o: "os_remove d s = (res, s1)"
  shows "prune_keeps root K s s1"
proof -
  note oo = os_remove_out [OF o fs_inv_wf [OF assms(1)]]
  have faults: "fs_quiet root s \<Longrightarrow> ffaults s1 = []"
    using oo(5) by (simp add: fs_quiet_def)
  show ?thesis
  proof (cases res)
    case (Inl e)
    note f = oo(2) [OF Inl]
    show ?thesis
      using fs_inv_same [OF f] fs_store_same [OF f] fs_quiet_same [OF f] faults assms(1)
      by (simp add: prune_keeps_def)
  next
    case (Inr u)
    then have n: "node_at s1 = (node_at s)(d := None)" using oo(3) [OF Inr] by simp
    note keep = fs_inv_rmdir [OF assms(1) oo(1) n assms(3,2,4)]
    show ?thesis
      using keep fs_quiet_del [OF _ _ n] faults by (simp add: prune_keeps_def)
  qed
qed

lemma pruneParents_keeps:
  "fs_inv root K s \<Longrightarrow> k \<in> K \<Longrightarrow> prefix root dir \<Longrightarrow> strict_prefix dir (kpath root k)
    \<Longrightarrow> prune_keeps root K s (pruneParents root dir s)"
proof (induction root dir s rule: pruneParents.induct)
  case (1 root dir s)
  show ?case
  proof (cases "dir = root \<or> dir = []")
    case True
    then show ?thesis using prune_keeps_refl [OF "1.prems"(1)] by auto
  next
    case False
    then have below: "strict_prefix root dir" using "1.prems"(3) by (auto simp: strict_prefix_def)
    then have up: "prefix root (butlast dir)"
      by (auto simp: strict_prefix_def prefix_def butlast_append)
    have "prefix (butlast dir) dir" by (simp add: prefixeq_butlast)
    then have lt: "strict_prefix (butlast dir) (kpath root k)"
      using "1.prems"(4) by (rule prefix_order.le_less_trans)
    obtain res s1 where o: "os_remove dir s = (res, s1)" by fastforce
    note keep = prune_step_keeps [OF "1.prems"(1,2) below "1.prems"(4) o]
    show ?thesis
    proof (cases res)
      case (Inl e)
      then show ?thesis using keep False o by (simp add: pruneParents_step)
    next
      case (Inr u)
      have "prune_keeps root K s1 (pruneParents root (butlast dir) s1)"
        by (rule "1.IH" [OF False o [symmetric] Inr _ "1.prems"(2) up lt])
          (use keep in \<open>simp add: prune_keeps_def\<close>)
      then have "prune_keeps root K s (pruneParents root (butlast dir) s1)"
        by (rule prune_keeps_trans [OF keep])
      then show ?thesis using False o Inr by (simp add: pruneParents_step)
    qed
  qed
qed

lemma strict_prefix_butlast_kpath: "strict_prefix (butlast (kpath root k)) (kpath root k)"
  by (metis append_butlast_last_id kpath_not_Nil prefixI prefix_order.le_neq_trans
      butlast_conv_take self_append_conv not_Cons_self2)

lemma pruneParents_nodes:
  "fs_wf s \<Longrightarrow> node_at s q = None \<Longrightarrow> node_at (pruneParents root dir s) q = None"
proof (induction root dir s rule: pruneParents.induct)
  case (1 root dir s)
  show ?case
  proof (cases "dir = root \<or> dir = []")
    case False
    obtain res s1 where o: "os_remove dir s = (res, s1)" by fastforce
    note oo = os_remove_out [OF o "1.prems"(1)]
    show ?thesis
    proof (cases res)
      case (Inl e)
      then show ?thesis
        using False o "1.prems"(2) node_at_fnodes [OF oo(2) [OF Inl]] by (simp add: pruneParents_step)
    next
      case (Inr u)
      have "node_at (pruneParents root (butlast dir) s1) q = None"
        by (rule "1.IH" [OF False o [symmetric] Inr oo(1)]) (use oo(3) [OF Inr] "1.prems"(2) in simp)
      then show ?thesis using False o Inr by (simp add: pruneParents_step)
    qed
  qed (use 1 in auto)
qed

text \<open>
  With no fault pending, no empty directory is left on the way up: pruning stops at a directory
  that has an entry, and every directory above it has an entry too.
\<close>

definition no_empty_dirs :: "path \<Rightarrow> path \<Rightarrow> fsys \<Rightarrow> bool" where
  "no_empty_dirs root dir s \<longleftrightarrow>
     (\<forall>d. strict_prefix root d \<longrightarrow> prefix d dir \<longrightarrow> node_at s d \<noteq> None \<longrightarrow>
        (\<exists>q. q \<noteq> [] \<and> butlast q = d \<and> node_at s q \<noteq> None))"

lemma prefix_snoc_butlast: "prefix d dir \<Longrightarrow> d \<noteq> dir \<Longrightarrow> prefix d (butlast dir)"
  by (auto simp: prefix_def butlast_append)

lemma no_empty_dirs_top:
  assumes "fs_wf s" and "node_at s dir \<noteq> None"
    and "\<exists>q. q \<noteq> [] \<and> butlast q = dir \<and> node_at s q \<noteq> None"
  shows "no_empty_dirs root dir s"
  unfolding no_empty_dirs_def
proof (intro allI impI)
  fix d
  assume "prefix d dir"
  show "\<exists>q. q \<noteq> [] \<and> butlast q = d \<and> node_at s q \<noteq> None"
  proof (cases "d = dir")
    case False
    then obtain c ys where dir: "dir = d @ c # ys"
      using \<open>prefix d dir\<close> by (auto elim!: prefixE) (metis append_Nil2 neq_Nil_conv)
    have "node_at s (d @ [c]) \<noteq> None"
      using assms(1,2) dir fs_wf_prefix_dir [of s "d @ [c]" ys] by (cases "ys = []") auto
    then show ?thesis by (intro exI [of _ "d @ [c]"]) simp
  qed (use assms(3) in simp)
qed

lemma no_empty_dirs_up:
  "no_empty_dirs root (butlast dir) s \<Longrightarrow> node_at s dir = None \<Longrightarrow> no_empty_dirs root dir s"
  unfolding no_empty_dirs_def by (metis prefix_snoc_butlast)

lemma pruneParents_no_empty:
  "fs_wf s \<Longrightarrow> ffaults s = [] \<Longrightarrow> prefix root dir \<Longrightarrow> node_at s dir \<in> {None, Some DirN} \<Longrightarrow>
    node_at s dir \<noteq> None \<Longrightarrow> no_empty_dirs root dir (pruneParents root dir s)"
proof (induction root dir s rule: pruneParents.induct)
  case (1 root dir s)
  have dir: "node_at s dir = Some DirN" using "1.prems"(4,5) by auto
  show ?case
  proof (cases "dir = root \<or> dir = []")
    case True
    have "\<not> (strict_prefix root d \<and> prefix d dir)" for d using True by auto
    then show ?thesis by (auto simp: no_empty_dirs_def)
  next
    case False
    then have up: "prefix root (butlast dir)"
      using "1.prems"(3) by (auto simp: prefix_def butlast_append)
    obtain res s1 where o: "os_remove dir s = (res, s1)" by fastforce
    note oo = os_remove_out [OF o "1.prems"(1)]
    show ?thesis
    proof (cases "has_children s dir")
      case True
      then have "res = Inl ENOTEMPTY" "s1 = s"
        using o False dir "1.prems"(1,2) by (auto simp: os_remove_def)
      then show ?thesis
        using no_empty_dirs_top [OF "1.prems"(1,5)] has_children_iff [OF "1.prems"(1)] True False o
        by (simp add: pruneParents_step)
    next
      case F: False
      then have res: "res = Inr ()" "s1 = del_node dir s"
        using o False dir "1.prems"(1,2) by (auto simp: os_remove_def)
      have ne: "butlast dir \<noteq> dir"
        using False by (metis append_butlast_last_id append_self_conv not_Cons_self2)
      have pd: "node_at s (butlast dir) = Some DirN"
        using "1.prems"(1,5) False by (auto simp: fs_wf_def)
      have nd: "node_at s1 = (node_at s)(dir := None)" using oo(3) [OF res(1)] by simp
      have ih: "no_empty_dirs root (butlast dir) (pruneParents root (butlast dir) s1)"
        by (rule "1.IH" [OF False o [symmetric] res(1) oo(1) oo(5) [OF "1.prems"(2)] up])
          (use nd pd ne in auto)
      have "node_at (pruneParents root (butlast dir) s1) dir = None"
        using pruneParents_nodes [OF oo(1), of dir root "butlast dir"] nd by simp
      then show ?thesis
        using no_empty_dirs_up [OF ih] False o res(1) by (simp add: pruneParents_step)
    qed
  qed
qed

section \<open>Delete\<close>

lemma fs_delete_ok:
  assumes "fs_inv root K s" and "k \<in> K" and "fs_delete root c k s = (res, s')"
  shows "fs_inv root K s' \<and> delete_spec (fs_store root K s) k res (fs_store root K s')"
proof (cases "ctxErr c")
  case (Some e)
  with assms show ?thesis by (auto simp: fs_delete_def delete_spec_def)
next
  case None
  note kp = fs_inv_keyPath [OF assms(1,2)]
  obtain r1 s1 where o: "os_remove (kpath root k) s = (r1, s1)" by fastforce
  note oo = os_remove_out [OF o fs_inv_wf [OF assms(1)]]
  show ?thesis
  proof (cases r1)
    case (Inl e)
    note f = oo(2) [OF Inl]
    have inv: "fs_inv root K s1" "fs_store root K s1 = fs_store root K s"
      using fs_inv_same [OF f] fs_store_same [OF f] assms(1) by simp_all
    have "e = ENOENT \<Longrightarrow> fs_store root K s k = None"
      using oo(4) Inl fs_store_Some [OF assms(1,2)] by auto
    then show ?thesis
      using assms(3) None kp o Inl inv
      by (auto simp: fs_delete_def delete_spec_def isErrNotExist_def split: if_splits oserr.splits)
  next
    case (Inr u)
    note r = oo(3) [OF Inr]
    note upd = fs_inv_key_update [OF assms(1) oo(1) assms(2), of None]
    have keep: "prune_keeps root K s1 (pruneParents root (butlast (kpath root k)) s1)"
      by (rule pruneParents_keeps [OF _ assms(2) prefix_butlast_kpath strict_prefix_butlast_kpath])
        (use upd r in simp)
    have "res = Inr ()" "s' = pruneParents root (butlast (kpath root k)) s1"
      using assms(3) None kp o Inr by (auto simp: fs_delete_def)
    moreover have "fs_store root K s k \<noteq> None" using r fs_store_Some [OF assms(1,2)] by simp
    ultimately show ?thesis
      using keep upd r by (simp add: prune_keeps_def delete_spec_def)
  qed
qed

lemma fs_delete_live:
  assumes "fs_inv root K s" and "fs_quiet root s" and "k \<in> K" and "ctxErr c = None"
    and "fs_delete root c k s = (res, s')"
  shows "fs_quiet root s'"
    and "if fs_store root K s k = None then res = Inl ErrNotFound else res = Inr ()"
proof -
  note kp = fs_inv_keyPath [OF assms(1,3)] and wf = fs_inv_wf [OF assms(1)]
  have faults: "ffaults s = []" using assms(2) by (simp add: fs_quiet_def)
  obtain r1 s1 where o: "os_remove (kpath root k) s = (r1, s1)" by fastforce
  note oo = os_remove_out [OF o wf]
  have f1: "ffaults s1 = []" using oo(5) faults by simp
  have "fs_quiet root s' \<and> (if fs_store root K s k = None then res = Inl ErrNotFound else res = Inr ())"
  proof (cases "node_at s (kpath root k)")
    case N: None
    have "resolve s (kpath root k) = Inl ENOENT"
      using N wf fs_inv_key_way [OF assms(1,3)] by (intro resolve_None) auto
    then have "r1 = Inl ENOENT" "s1 = s" using o faults by (auto simp: os_remove_def)
    then show ?thesis
      using assms o kp N fs_store_Some [OF assms(1,3)] by (auto simp: fs_delete_def)
  next
    case (Some n)
    then obtain ct t where n: "node_at s (kpath root k) = Some (RegF ct t)"
      using fs_inv_key_node [OF assms(1,3)] by auto
    then have r1: "r1 = Inr ()"
      using o os_remove_quiet [OF faults wf n] by simp
    note upd = fs_inv_key_update [OF assms(1) oo(1) assms(3), of None]
    have nd: "node_at s1 = (node_at s)(kpath root k := None)" using oo(3) [OF r1] by simp
    have keep: "prune_keeps root K s1 (pruneParents root (butlast (kpath root k)) s1)"
      by (rule pruneParents_keeps [OF _ assms(3) prefix_butlast_kpath strict_prefix_butlast_kpath])
        (use upd nd in simp)
    have "res = Inr ()" "s' = pruneParents root (butlast (kpath root k)) s1"
      using assms(4,5) kp o r1 by (auto simp: fs_delete_def)
    then show ?thesis
      using keep fs_quiet_del [OF assms(2) f1 nd] n fs_store_Some [OF assms(1,3)]
      by (simp add: prune_keeps_def)
  qed
  then show "fs_quiet root s'"
    "if fs_store root K s k = None then res = Inl ErrNotFound else res = Inr ()" by blast+
qed

section \<open>The interpretation\<close>

text \<open>A read leaves the tree alone, so it keeps the invariant, the store and a quiet state.\<close>

lemma fs_read_frame:
  "fnodes s' = fnodes s \<Longrightarrow> fs_inv root K s \<Longrightarrow>
     fs_inv root K s' \<and> fs_store root K s' = fs_store root K s"
  using fs_inv_same [of s' s] fs_store_same [of s' s] by simp

lemma fs_read_quiet:
  "fnodes s' = fnodes s \<Longrightarrow> ffaults s' = [] \<Longrightarrow> fs_quiet root s \<Longrightarrow> fs_quiet root s'"
  by (rule fs_quiet_same)

lemma fs_quiet_faults: "fs_quiet root s \<Longrightarrow> ffaults s = []"
  by (simp add: fs_quiet_def)

lemma os_seek_nodes [simp]: "fnodes (snd (os_seek h off s)) = fnodes s"
  using os_seek_out(1) [of h off s] by (cases "os_seek h off s") simp

lemma os_fstat_nodes [simp]: "fnodes (snd (os_fstat_size h s)) = fnodes s"
  using os_fstat_size_out(1) [of h s] by (cases "os_fstat_size h s") simp

lemma fs_getRange_nodes:
  assumes "fs_inv root K s" and "k \<in> K" and "fs_getRange root c k off len s = (res, s')"
  shows "fnodes s' = fnodes s"
proof (cases "ctxErr c")
  case None
  note kp = fs_inv_keyPath [OF assms(1,2)]
  obtain r1 s1 where o: "os_open (kpath root k) s = (r1, s1)" by fastforce
  note oo = open_key_out(1) [OF assms(1,2) o]
  show ?thesis
  proof (cases r1)
    case (Inl e)
    with None kp o oo assms(3) show ?thesis by (auto simp: fs_getRange_def split: if_splits)
  next
    case (Inr h)
    obtain r2 s2 where t: "os_fstat_size h s1 = (r2, s2)" by fastforce
    have f2: "fnodes s2 = fnodes s" using os_fstat_nodes [of h s1] t oo by simp
    show ?thesis
    proof (cases r2)
      case (Inl e)
      with None kp o Inr t f2 assms(3) show ?thesis by (auto simp: fs_getRange_def)
    next
      case (Inr sz)
      define start where "start = (let st = (if off < 0
          then (let st = wrap64 (sz + off) in if st < 0 then 0 else st) else off)
        in if st > sz then sz else st)"
      obtain r3 s3 where k3: "os_seek h start s2 = (r3, s3)" by fastforce
      have "fnodes s3 = fnodes s" using os_seek_nodes [of h start s2] k3 f2 by simp
      moreover have "s' = s3 \<or> s' = snd (os_close s3)"
        using None kp o \<open>r1 = Inr h\<close> t Inr k3 assms(3)
        by (cases r3) (auto simp: fs_getRange_def Let_def start_def split: if_splits)
      ultimately show ?thesis by auto
    qed
  qed
qed (use assms in \<open>auto simp: fs_getRange_def\<close>)

text \<open>A range read of a key yields a body over a regular file, which ends cleanly.\<close>

lemma fs_getRange_clean:
  assumes "fs_inv root K s" and "k \<in> K" and "fs_getRange root c k off len s = (Inr b, s')"
  shows "snd (copy_all b) = None"
proof -
  note kp = fs_inv_keyPath [OF assms(1,2)]
  have none: "ctxErr c = None" using assms(3) by (cases "ctxErr c") (auto simp: fs_getRange_def)
  obtain r1 s1 where o: "os_open (kpath root k) s = (r1, s1)" by fastforce
  then obtain h where h: "r1 = Inr h"
    using none kp assms(3) by (cases r1) (auto simp: fs_getRange_def split: if_splits)
  then obtain v where v: "h = FReg v" using open_key_out(2) [OF assms(1,2) o] by blast
  obtain r2 s2 where t: "os_fstat_size h s1 = (r2, s2)" by fastforce
  then obtain sz where sz: "r2 = Inr sz"
    using none kp assms(3) o h by (cases r2) (auto simp: fs_getRange_def)
  define start where "start = (let st = (if off < 0
      then (let st = wrap64 (sz + off) in if st < 0 then 0 else st) else off)
    in if st > sz then sz else st)"
  obtain r3 s3 where k3: "os_seek h start s2 = (r3, s3)" by fastforce
  then obtain h' where h': "r3 = Inr h'"
    using none kp assms(3) o h t sz
    by (cases r3) (auto simp: fs_getRange_def Let_def start_def split: if_splits)
  then obtain v' where "h' = FReg v'" using os_seek_out(2) [OF k3] v by auto
  moreover have "b = FileB h' \<or> (\<exists>n. b = LimitedB h' n)"
    using none kp assms(3) o h t sz k3 h'
    by (auto simp: fs_getRange_def Let_def start_def split: if_splits)
  ultimately show ?thesis by auto
qed

lemma fs_getRange_body_ok:
  assumes "fs_getRange root c k off len s = (Inr b, s')"
  shows "body_ok b"
proof -
  have "(\<exists>h. b = FileB h) \<or> (\<exists>h n. b = LimitedB h (wrap64 n))"
    using assms by (auto simp: fs_getRange_def Let_def
        split: option.splits sum.splits prod.splits if_splits)
  then show ?thesis by auto
qed


definition fs_objs :: "path \<Rightarrow> string set \<Rightarrow> fsys \<Rightarrow> objects" where
  "fs_objs root K s = tagged sha256hex (fs_store root K s)"

definition fs_rng :: "nat \<Rightarrow> int \<Rightarrow> int \<Rightarrow> bool" where
  "fs_rng sz off len \<longleftrightarrow> int sz < 2 ^ 63"

lemma fs_objs_None [simp]: "fs_objs root K s k = None \<longleftrightarrow> fs_store root K s k = None"
  by (simp add: fs_objs_def)

lemma fs_objs_same: "fs_store root K s' = fs_store root K s \<Longrightarrow> fs_objs root K s' = fs_objs root K s"
  by (simp add: fs_objs_def)

interpretation fs: live_bucket "fs_bucket root" "fs_inv root K" K "fs_objs root K" copy_all
    maxKeys fs_rng "fs_quiet root" fs_rng
  for root K
proof (unfold_locales, goal_cases)
  case (1 s)
  then show ?case by (simp add: fs_objs_def finite_store [OF fs_inv_wf])
next
  case (2 s)
  show ?case by (auto simp: fs_objs_def fs_store_def split: if_splits)
next
  case (3 s k v e)
  then show ?case by (simp add: fs_objs_def)
next
  case (5 s k c r n t res r' s')
  then show ?case by (simp add: fs_bucket_def fs_objs_def fs_put_ok oput_spec_tagged)
next
  case (6 s k c r t res r' s')
  then show ?case by (simp add: fs_bucket_def fs_objs_def fs_putStream_eq fs_put_ok oput_spec_tagged)
next
  case (7 s k c res s')
  then have g: "fs_get root c k s = (res, s')" by (simp add: fs_bucket_def)
  show ?case
    using fs_get_ok(2) [OF 7(1,2) g] fs_read_frame [OF fs_get_ok(1) [OF 7(1,2) g] 7(1)]
      oget_spec_tagged [of sha256hex copy_all "fs_store root K s" k res]
    by (simp add: fs_objs_def)
next
  case (8 s k off len c res s')
  then have g: "fs_getRange root c k off len s = (res, s')" by (simp add: fs_bucket_def)
  show ?case
    using fs_getRange_ok(2) [OF 8(1-4) g] fs_read_frame [OF fs_getRange_ok(1) [OF 8(1-4) g] 8(1)]
      ogetRange_spec_tagged [of copy_all "fs_store root K s" k off len res sha256hex]
    unfolding fs_objs_def fs_rng_def [abs_def] by simp
next
  case (9 s k c res s')
  then have g: "fs_stat root c k s = (res, s')" by (simp add: fs_bucket_def)
  show ?case
    using ostat_spec_tagged [OF fs_stat_ok(2) [OF 9(1,2) g]]
      fs_read_frame [OF fs_stat_ok(1) [OF 9(1,2) g] 9(1)]
    by (simp add: fs_objs_def)
next
  case (10 s c pre sa res s')
  then have g: "fs_list root c pre sa s = (res, s')" by (simp add: fs_bucket_def)
  show ?case
    using olist_spec_tagged [OF fs_list_ok(2) [OF 10(1) g]]
      fs_read_frame [OF fs_list_ok(1) [OF 10(1) g] 10(1)]
    by (simp add: fs_objs_def)
next
  case (11 s k c res s')
  then show ?case by (simp add: fs_bucket_def fs_objs_def fs_delete_ok delete_spec_tagged)
next
  case (12 s k c r v n t res r' s')
  then have p: "fs_put root c k r n t s = (res, r', s')" by (simp add: fs_bucket_def)
  show ?case
    using fs_put_live(1,3) [OF 12(1-5) _ p] 12(6) by (simp add: fs_objs_def split: if_splits)
next
  case (13 s k c r v t res r' s')
  then have p: "fs_put root c k r (- 1) t s = (res, r', s')" by (simp add: fs_bucket_def fs_putStream_eq)
  show ?case
    using fs_put_live(1,3) [OF 13(1-5) _ p] by (simp add: fs_objs_def split: if_splits)
next
  case (14 s k c res s')
  then have g: "fs_get root c k s = (res, s')" by (simp add: fs_bucket_def)
  note out = fs_get_ok [OF 14(1,3) g]
  show ?case
    using out(3) [OF 14(4) fs_quiet_faults [OF 14(2)]] fs_read_quiet [OF out(1) _ 14(2)]
    by (auto split: option.splits)
next
  case (15 s k c off len res s')
  then have g: "fs_getRange root c k off len s = (res, s')" by (simp add: fs_bucket_def)
  note out = fs_getRange_live [OF 15(1,3) fs_quiet_faults [OF 15(2)] 15(4) g]
  have "fnodes s' = fnodes s" by (rule fs_getRange_nodes [OF 15(1,3) g])
  then have "fs_quiet root s'" using out(1) fs_read_quiet [OF _ _ 15(2)] by blast
  moreover have "\<exists>b. res = Inr b \<and> snd (copy_all b) = None" if "fs_store root K s k \<noteq> None"
    using out(2) that fs_getRange_clean [OF 15(1,3)] g by auto
  ultimately show ?case using out(2) by (auto simp: fs_objs_def split: option.split)
next
  case (16 s k c res s')
  then have g: "fs_stat root c k s = (res, s')" by (simp add: fs_bucket_def)
  note out = fs_stat_live [OF 16(1,3) fs_quiet_faults [OF 16(2)] 16(4) g]
  show ?case using out fs_read_quiet [OF fs_stat_ok(1) [OF 16(1,3) g] _ 16(2)] by simp
next
  case (17 s c pre sa res s')
  then have g: "fs_list root c pre sa s = (res, s')" by (simp add: fs_bucket_def)
  note out = fs_list_ok [OF 17(1) g]
  show ?case
    using out(3) [OF 17(3) fs_quiet_faults [OF 17(2)]] fs_read_quiet [OF out(1) _ 17(2)] by blast
next
  case (18 s k c res s')
  then have g: "fs_delete root c k s = (res, s')" by (simp add: fs_bucket_def)
  show ?case using fs_delete_live [OF 18(1-4) g] by simp
qed (simp_all add: maxKeys_def)

end
