(* ===== verification/Prefixed.thy ===== *)
theory Prefixed
  imports FSDelete
begin

text \<open>
  prefixed.go: the view of a bucket under a key prefix, its construction with the flattening of
  nested views, and the proof that a view of a bucket that keeps the contract keeps the contract
  itself, over the sub-map of the keys below the prefix.
\<close>

section \<open>The view\<close>

text \<open>
  An interface value that is a \<open>*prefixedBucket\<close> is told apart from the others, because
  \<open>Prefixed\<close> asserts that type.
\<close>

datatype ('s, 'b) bucketV =
    OtherB "('s, 'b) bucket"
  | PrefixedB (pbInner: "('s, 'b) bucketV") (pbPrefix: string)

definition hasSuffix :: "string \<Rightarrow> string \<Rightarrow> bool" where
  "hasSuffix s t \<longleftrightarrow> suffix t s"

definition normPrefix :: "string \<Rightarrow> string" where
  "normPrefix p = (if hasSuffix p ''/'' then p else p @ ''/'')"

definition Prefixed :: "('s, 'b) bucketV \<Rightarrow> string \<Rightarrow> ('s, 'b) bucketV" where
  "Prefixed inner pre =
     (if pre = '''' then inner
      else let pre = normPrefix pre
           in case inner of
                PrefixedB i p \<Rightarrow> PrefixedB i (p @ pre)
              | OtherB B \<Rightarrow> PrefixedB inner pre)"

definition prefixed_put where
  "prefixed_put B pre c key body len ifMatch s = bPut B c (pre @ key) body len ifMatch s"

definition prefixed_putStream where
  "prefixed_putStream B pre c key body ifMatch s = bPutStream B c (pre @ key) body ifMatch s"

definition prefixed_get where
  "prefixed_get B pre c key s = bGet B c (pre @ key) s"

definition prefixed_getRange where
  "prefixed_getRange B pre c key off len s = bGetRange B c (pre @ key) off len s"

definition prefixed_stat where
  "prefixed_stat B pre c key s =
     (case bStat B c (pre @ key) s of
        (Inl e, s1) \<Rightarrow> (Inl e, s1)
      | (Inr info, s1) \<Rightarrow> (Inr (info\<lparr>oKey := trimPrefix (oKey info) pre\<rparr>), s1))"

definition prefixed_list where
  "prefixed_list B pre c p startAfter s =
     (let full = pre @ p;
          startKey = (if startAfter \<noteq> '''' then pre @ startAfter else startAfter)
      in case bList B c full startKey s of
           (Inl e, s1) \<Rightarrow> (Inl e, s1)
         | (Inr objs, s1) \<Rightarrow>
             (Inr (map (\<lambda>o'. o'\<lparr>oKey := trimPrefix (oKey o') pre\<rparr>) objs), s1))"

definition prefixed_delete where
  "prefixed_delete B pre c key s = bDelete B c (pre @ key) s"

definition prefixedBucket :: "('s, 'b) bucket \<Rightarrow> string \<Rightarrow> ('s, 'b) bucket" where
  "prefixedBucket B pre = \<lparr>
     bPut = prefixed_put B pre, bPutStream = prefixed_putStream B pre, bGet = prefixed_get B pre,
     bGetRange = prefixed_getRange B pre, bStat = prefixed_stat B pre, bList = prefixed_list B pre,
     bDelete = prefixed_delete B pre\<rparr>"

text \<open>The methods of an interface value.\<close>

primrec asBucket :: "('s, 'b) bucketV \<Rightarrow> ('s, 'b) bucket" where
  "asBucket (OtherB B) = B"
| "asBucket (PrefixedB i p) = prefixedBucket (asBucket i) p"

lemmas prefixed_defs = prefixed_put_def prefixed_putStream_def prefixed_get_def
  prefixed_getRange_def prefixed_stat_def prefixed_list_def prefixed_delete_def

lemma prefixedBucket_sel [simp]:
  "bPut (prefixedBucket B pre) = prefixed_put B pre"
  "bPutStream (prefixedBucket B pre) = prefixed_putStream B pre"
  "bGet (prefixedBucket B pre) = prefixed_get B pre"
  "bGetRange (prefixedBucket B pre) = prefixed_getRange B pre"
  "bStat (prefixedBucket B pre) = prefixed_stat B pre"
  "bList (prefixedBucket B pre) = prefixed_list B pre"
  "bDelete (prefixedBucket B pre) = prefixed_delete B pre"
  by (simp_all add: prefixedBucket_def)

section \<open>The view of a store\<close>

definition view_store :: "string \<Rightarrow> (string \<rightharpoonup> 'a) \<Rightarrow> (string \<rightharpoonup> 'a)" where
  "view_store pre m = (\<lambda>k. m (pre @ k))"

definition view_keys :: "string \<Rightarrow> string set \<Rightarrow> string set" where
  "view_keys pre K = {k. pre @ k \<in> K}"

lemma view_store_app [simp]: "view_store pre m k = m (pre @ k)"
  by (simp add: view_store_def)

lemma view_store_upd [simp]:
  "view_store pre (m(pre @ k := v)) = (view_store pre m)(k := v)"
  by (auto simp: view_store_def)

lemma view_keys_iff [simp]: "k \<in> view_keys pre K \<longleftrightarrow> pre @ k \<in> K"
  by (simp add: view_keys_def)

lemma view_dom: "(\<lambda>k. pre @ k) ` dom (view_store pre m) = {k \<in> dom m. prefix pre k}"
  by (auto simp: view_store_def prefix_def)

lemma view_dom_finite: "finite (dom m) \<Longrightarrow> finite (dom (view_store pre m))"
proof -
  assume "finite (dom m)"
  then have "finite ((\<lambda>k. pre @ k) ` dom (view_store pre m))" by (simp add: view_dom)
  then show ?thesis by (rule finite_imageD) (simp add: inj_on_def)
qed

lemma selects_view:
  "selects (pre @ p) (if sa \<noteq> '''' then pre @ sa else sa) (pre @ k) \<longleftrightarrow> selects p sa k"
  by (auto simp: selects_def append_less_cancel)

lemma list_keys_view:
  assumes "finite (dom m)"
  shows "list_keys m (pre @ p) (if sa \<noteq> '''' then pre @ sa else sa)
      = map (\<lambda>k. pre @ k) (list_keys (view_store pre m) p sa)"
proof -
  let ?A = "{k \<in> dom (view_store pre m). selects p sa k}"
  have "{k \<in> dom m. selects (pre @ p) (if sa \<noteq> '''' then pre @ sa else sa) k} = (\<lambda>k. pre @ k) ` ?A"
  proof (intro set_eqI iffI)
    fix k
    assume k: "k \<in> {k \<in> dom m. selects (pre @ p) (if sa \<noteq> '''' then pre @ sa else sa) k}"
    then have "prefix (pre @ p) k" by (simp add: selects_def)
    then obtain j where "k = pre @ j" by (auto simp: prefix_def)
    with k selects_view [of pre p sa j] show "k \<in> (\<lambda>k. pre @ k) ` ?A" by auto
  next
    fix k
    assume "k \<in> (\<lambda>k. pre @ k) ` ?A"
    with selects_view [of pre p sa] show
      "k \<in> {k \<in> dom m. selects (pre @ p) (if sa \<noteq> '''' then pre @ sa else sa) k}" by auto
  qed
  then show ?thesis
    using sorted_list_of_set_image_append [of ?A pre] view_dom_finite [OF assms, of pre]
    by (simp add: list_keys_def)
qed

section \<open>The contract of the view\<close>

text \<open>Each specification over the store, read at a prefixed key, is the one over the view.\<close>

lemma put_spec_view:
  "oput_spec m (pre @ k) r n t res m' \<Longrightarrow>
     oput_spec (view_store pre m) k r n t res (view_store pre m')"
  by (auto simp: oput_spec_def split: sum.splits)

lemma get_spec_view: "oget_spec bb m (pre @ k) res = oget_spec bb (view_store pre m) k res"
  by (simp add: oget_spec_def split: sum.split)

lemma getRange_spec_view:
  "ogetRange_spec bb rng m (pre @ k) off len res = ogetRange_spec bb rng (view_store pre m) k off len res"
  by (simp add: ogetRange_spec_def split: sum.split)

lemma stat_spec_view:
  "ostat_spec m (pre @ k) (Inr i) \<Longrightarrow>
     ostat_spec (view_store pre m) k (Inr (i\<lparr>oKey := trimPrefix (oKey i) pre\<rparr>))"
  by (auto simp: ostat_spec_def oinfo_ok_def trimPrefix_def)

lemma delete_spec_view:
  "odelete_spec m (pre @ k) res m' \<Longrightarrow> odelete_spec (view_store pre m) k res (view_store pre m')"
  by (auto simp: odelete_spec_def split: sum.splits)

lemma list_spec_view:
  assumes "finite (dom m)"
    and "olist_spec page m (pre @ p) (if sa \<noteq> '''' then pre @ sa else sa) (Inr is)"
  shows "olist_spec page (view_store pre m) p sa
    (Inr (map (\<lambda>i. i\<lparr>oKey := trimPrefix (oKey i) pre\<rparr>) is))"
proof -
  have keys: "map oKey is = map (\<lambda>k. pre @ k) (take page (list_keys (view_store pre m) p sa))"
    and ok: "list_all (oinfo_ok m) is"
    using assms(2) by (simp_all add: olist_spec_def list_keys_view [OF assms(1)] take_map)
  have pk: "prefix pre (oKey i)" if "i \<in> set is" for i
    using arg_cong [OF keys, of set] that by (auto simp: prefix_def)
  have "map oKey (map (\<lambda>i. i\<lparr>oKey := trimPrefix (oKey i) pre\<rparr>) is)
      = map (\<lambda>k. trimPrefix k pre) (map oKey is)" by simp
  also have "\<dots> = take page (list_keys (view_store pre m) p sa)"
    unfolding keys by (simp add: trimPrefix_def o_def)
  finally have "map oKey (map (\<lambda>i. i\<lparr>oKey := trimPrefix (oKey i) pre\<rparr>) is)
      = take page (list_keys (view_store pre m) p sa)" .
  moreover have "oinfo_ok (view_store pre m) (i\<lparr>oKey := trimPrefix (oKey i) pre\<rparr>)"
    if "i \<in> set is" for i
    using pk [OF that] ok that by (auto simp: list_all_iff oinfo_ok_def trimPrefix_def prefix_def)
  ultimately show ?thesis by (simp add: olist_spec_def list_all_iff)
qed

locale prefixed_bucket = live_bucket +
  fixes pre :: string

sublocale prefixed_bucket \<subseteq> view: live_bucket "prefixedBucket B pre" inv "view_keys pre K"
    "\<lambda>s. view_store pre (objs s)" bb page rng quiet rlive
proof (unfold_locales, goal_cases)
  case (1 s)
  then show ?case by (simp add: view_dom_finite objs_finite)
next
  case (2 s)
  then show ?case using objs_keys [OF 2] by (auto simp: view_store_def)
next
  case (5 s k c r n t res r' s')
  then show ?case using put_ok put_spec_view by (simp add: prefixed_put_def)
next
  case (6 s k c r t res r' s')
  then show ?case using putStream_ok put_spec_view by (simp add: prefixed_putStream_def; blast?)
next
  case (7 s k c res s')
  then show ?case using get_ok [of s "pre @ k" c res s'] get_spec_view [of bb "objs s" pre k res]
    by (simp add: prefixed_get_def)
next
  case (8 s k off len c res s')
  then show ?case using getRange_ok [of s "pre @ k" off len c res s']
      getRange_spec_view [of bb rng "objs s" pre k off len res]
    by (simp add: prefixed_getRange_def)
next
  case (9 s k c res s')
  obtain r1 s1 where st: "bStat B c (pre @ k) s = (r1, s1)" by fastforce
  note out = stat_ok [OF 9(1) _ st]
  then show ?case
    using 9(2,3) st stat_spec_view
    by (cases r1) (auto simp: prefixed_stat_def ostat_spec_def [of _ _ "Inl _"])
next
  case (10 s c p sa res s')
  let ?sa = "if sa \<noteq> '''' then pre @ sa else sa"
  obtain r1 s1 where l: "bList B c (pre @ p) ?sa s = (r1, s1)" by fastforce
  note out = list_ok [OF 10(1) l]
  show ?case
    using 10(2) l out list_spec_view [OF objs_finite [OF 10(1)]]
    by (cases r1) (auto simp: prefixed_list_def Let_def olist_spec_def [of _ _ _ _ "Inl _"])
next
  case (11 s k c res s')
  then show ?case using delete_ok delete_spec_view by (simp add: prefixed_delete_def; blast?)
next
  case (12 s k c r v n t res r' s')
  then show ?case using put_live by (simp add: prefixed_put_def; blast?)
next
  case (13 s k c r v t res r' s')
  then show ?case using putStream_live by (simp add: prefixed_putStream_def; blast?)
next
  case (14 s k c res s')
  then show ?case using get_live [of s "pre @ k" c res s'] by (auto simp: prefixed_get_def)
next
  case (15 s k c off len res s')
  then show ?case
    using getRange_live [of s "pre @ k" c off len res s'] by (auto simp: prefixed_getRange_def)
next
  case (16 s k c res s')
  obtain r1 s1 where st: "bStat B c (pre @ k) s = (r1, s1)" by fastforce
  show ?case
    using 16 st stat_live [OF 16(1,2) _ 16(4) st]
    by (cases r1) (auto simp: prefixed_stat_def split: if_splits)
next
  case (17 s c p sa res s')
  let ?sa = "if sa \<noteq> '''' then pre @ sa else sa"
  obtain r1 s1 where l: "bList B c (pre @ p) ?sa s = (r1, s1)" by fastforce
  show ?case
    using 17(4) l list_live [OF 17(1-3) l]
    by (cases r1) (auto simp: prefixed_list_def Let_def)
next
  case (18 s k c res s')
  then show ?case using delete_live by (simp add: prefixed_delete_def; blast?)
qed (auto simp: page_pos dest: etag_nonempty)

context prefixed_bucket
begin

lemma view_contract:
  "live_bucket (prefixedBucket B pre) inv (view_keys pre K) (\<lambda>s. view_store pre (objs s))
     bb page rng quiet rlive"
  by (rule view.live_bucket_axioms)

end

interpretation fsp: prefixed_bucket "fs_bucket root" "fs_inv root K" K "fs_objs root K" copy_all
    maxKeys fs_rng "fs_quiet root" fs_rng pre
  for root K pre
  by unfold_locales

section \<open>Flattening\<close>

text \<open>
  A view of a view and the flattened view are the same bucket, when the inner bucket reports
  keys below the prefix it was asked for.
\<close>

definition keys_as_asked :: "('s, 'b) bucket \<Rightarrow> bool" where
  "keys_as_asked B \<longleftrightarrow>
     (\<forall>c k s i s'. bStat B c k s = (Inr i, s') \<longrightarrow> oKey i = k) \<and>
     (\<forall>c p sa s is s'. bList B c p sa s = (Inr is, s') \<longrightarrow> (\<forall>i \<in> set is. prefix p (oKey i)))"

lemma trimPrefix_twice: "prefix (p @ q) k \<Longrightarrow> trimPrefix (trimPrefix k p) q = trimPrefix k (p @ q)"
  by (auto simp: prefix_def) (metis append_assoc trimPrefix_append)

lemma prefixed_flatten_stat:
  assumes "keys_as_asked B"
  shows "prefixed_stat (prefixedBucket B p) q c k s = prefixed_stat B (p @ q) c k s"
proof -
  obtain r1 s1 where st: "bStat B c (p @ q @ k) s = (r1, s1)" by fastforce
  show ?thesis
  proof (cases r1)
    case (Inr i)
    then have "oKey i = p @ q @ k" using assms st unfolding keys_as_asked_def by blast
    then have "trimPrefix (trimPrefix (oKey i) p) q = trimPrefix (oKey i) (p @ q)"
      by (intro trimPrefix_twice) simp
    then show ?thesis using st Inr by (simp add: prefixed_stat_def)
  qed (use st in \<open>simp add: prefixed_stat_def\<close>)
qed

lemma prefixed_flatten_list:
  assumes "keys_as_asked B"
  shows "prefixed_list (prefixedBucket B p) q c pre sa s = prefixed_list B (p @ q) c pre sa s"
proof -
  let ?sa = "if sa \<noteq> '''' then p @ q @ sa else sa"
  obtain r1 s1 where l: "bList B c (p @ q @ pre) ?sa s = (r1, s1)" by fastforce
  show ?thesis
  proof (cases r1)
    case (Inr "is")
    then have pk: "prefix (p @ q @ pre) (oKey i)" if "i \<in> set is" for i
      using assms l that unfolding keys_as_asked_def by blast
    have tw: "trimPrefix (trimPrefix (oKey i) p) q = trimPrefix (oKey i) (p @ q)" if "i \<in> set is" for i
    proof (rule trimPrefix_twice)
      have "prefix (p @ q) (p @ q @ pre)" by simp
      then show "prefix (p @ q) (oKey i)" using pk [OF that] by (rule prefix_order.trans)
    qed
    then have "map (\<lambda>i. i\<lparr>oKey := trimPrefix (trimPrefix (oKey i) p) q\<rparr>) is
        = map (\<lambda>i. i\<lparr>oKey := trimPrefix (oKey i) (p @ q)\<rparr>) is" by simp
    then show ?thesis
      using l Inr by (cases "sa = []") (simp_all add: prefixed_list_def o_def)
  qed (use l in \<open>cases "sa = []"; simp add: prefixed_list_def\<close>)
qed

lemma prefixed_flatten:
  assumes "keys_as_asked B"
  shows "prefixedBucket (prefixedBucket B p) q = prefixedBucket B (p @ q)"
proof -
  have "prefixed_stat (prefixedBucket B p) q = prefixed_stat B (p @ q)"
    and "prefixed_list (prefixedBucket B p) q = prefixed_list B (p @ q)"
    by (intro ext prefixed_flatten_stat prefixed_flatten_list assms)+
  moreover have "prefixed_put (prefixedBucket B p) q = prefixed_put B (p @ q)"
    "prefixed_putStream (prefixedBucket B p) q = prefixed_putStream B (p @ q)"
    "prefixed_get (prefixedBucket B p) q = prefixed_get B (p @ q)"
    "prefixed_getRange (prefixedBucket B p) q = prefixed_getRange B (p @ q)"
    "prefixed_delete (prefixedBucket B p) q = prefixed_delete B (p @ q)"
    by (simp_all add: prefixed_defs fun_eq_iff)
  ultimately show ?thesis by (simp add: prefixedBucket_def)
qed

text \<open>The filesystem backend reports keys as asked.\<close>

lemma listVisit_prefix:
  assumes "listVisit root pre sa e out s = (Inr out', s')"
    and "\<forall>i \<in> set out. prefix pre (oKey i)"
  shows "\<forall>i \<in> set out'. prefix pre (oKey i)"
  using assms unfolding listVisit_def Let_def
  by (auto split: node.splits if_splits sum.splits prod.splits)

lemma listWalk_prefix:
  "listWalk root pre sa es out s = (Inr out', s') \<Longrightarrow> \<forall>i \<in> set out. prefix pre (oKey i)
    \<Longrightarrow> \<forall>i \<in> set out'. prefix pre (oKey i)"
proof (induction es arbitrary: out s)
  case (Cons e es)
  obtain r s1 where v: "listVisit root pre sa e out s = (r, s1)" by fastforce
  then obtain out1 where r: "r = Inr out1" using Cons.prems(1) by (cases r) auto
  show ?case
    by (rule Cons.IH [of out1 s1])
      (use Cons.prems v r listVisit_prefix in auto)
qed simp

lemma fs_keys_as_asked: "keys_as_asked (fs_bucket root)"
proof -
  have "oKey i = k" if "fs_stat root c k s = (Inr i, s')" for c k s i s'
    using that by (auto simp: fs_stat_def split: option.splits sum.splits prod.splits if_splits)
  moreover have "prefix p (oKey i)" if l: "fs_list root c p sa s = (Inr is, s')" and i: "i \<in> set is"
    for c p sa s "is" s' i
  proof -
    have none: "ctxErr c = None" using l by (cases "ctxErr c") (auto simp: fs_list_def)
    obtain r1 s1 where o: "os_stat root s = (r1, s1)" by fastforce
    then obtain n where n: "r1 = Inr n" using l none by (cases r1) (auto simp: fs_list_def)
    obtain r2 s2 where w: "listWalk root p sa ((root, n) # walkEntries root s1) [] s1 = (r2, s2)"
      by fastforce
    then obtain out where out: "r2 = Inr out"
      using l none o n by (cases r2) (auto simp: fs_list_def simp del: listWalk.simps)
    have "is = (if length out > maxKeys then take maxKeys (sort_key oKey out) else sort_key oKey out)"
      using l none o n w out by (auto simp: fs_list_def Let_def simp del: listWalk.simps)
    then have "i \<in> set out" using i by (auto split: if_splits dest: in_set_takeD)
    then show ?thesis using listWalk_prefix w out by fastforce
  qed
  ultimately show ?thesis by (simp add: keys_as_asked_def fs_bucket_def; blast)
qed

end
