(* ===== verification/FSCorrect.thy ===== *)
theory FSCorrect
  imports FSDelete Prefixed
begin

text \<open>
  What the filesystem backend guarantees: conditional writes, reads, ranges, listing, paging
  and deletion as properties of fs.go over the store a directory represents, each for every
  behaviour of the environment or, where a call must succeed, for a quiet one; and the
  confinement of keys to the root, with the two ways keys can alias. A small concrete root
  serves the examples.
\<close>

section \<open>A concrete root\<close>

definition ex_root :: path where
  "ex_root = [''r'']"

definition ex_keys :: "string set" where
  "ex_keys = {''a/b'', ''c''}"

definition ex_fs :: fsys where
  "ex_fs = \<lparr>fnodes = [([''r''], DirN), ([''r'', ''a''], DirN), ([''r'', ''a'', ''b''], RegF [1, 2, 3] 7)],
     fnow = 5, fdirsize = 4096, ffaults = [], frand = []\<rparr>"

lemma ex_parts: "key_parts ''a/b'' = [''a'', ''b'']" "key_parts ''c'' = [''c'']"
  by (simp_all add: key_parts_def)

lemma ex_node_at: "node_at ex_fs p =
  (if p = [] then Some DirN else if p = [''r''] then Some DirN else if p = [''r'', ''a''] then Some DirN
   else if p = [''r'', ''a'', ''b''] then Some (RegF [1, 2, 3] 7) else None)"
  by (auto simp: node_at_def ex_fs_def)

lemma ex_plain: "plain_key ''a/b''" "plain_key ''c''"
  unfolding plain_key_def ex_parts by (simp_all add: sublist_code)

lemma ex_key_space: "key_space ex_keys"
  using ex_plain by (auto simp: key_space_def ex_keys_def ex_parts)

lemma ex_inv: "fs_inv ex_root ex_keys ex_fs"
proof -
  have "fs_wf ex_fs" unfolding fs_wf_def ex_node_at by (simp add: ex_fs_def)
  moreover have "node_ok ex_root ex_keys q n" if "strict_prefix ex_root q" "node_at ex_fs q = Some n" for q n
    using that by (auto simp: ex_node_at node_ok_def ex_root_def ex_keys_def kpath_def ex_parts
        split: if_splits)
  ultimately show ?thesis using ex_key_space by (simp add: fs_inv_def ex_node_at ex_root_def)
qed

lemma ex_quiet: "fs_quiet ex_root ex_fs"
  by (auto simp: fs_quiet_def ex_node_at ex_root_def tmp_named_def sublist_code)
    (simp_all add: ex_fs_def)

lemma ex_store: "fs_store ex_root ex_keys ex_fs = [''a/b'' \<mapsto> [1, 2, 3]]"
  by (auto simp: fs_store_def ex_keys_def kpath_def ex_parts file_at_def ex_node_at ex_root_def)

lemma ex_in_keys [simp]: "''a/b'' \<in> ex_keys" "''c'' \<in> ex_keys"
  by (simp_all add: ex_keys_def)

lemma ex_live [simp]: "ctxErr ctx_background = None"
  by (simp add: ctx_background_def)

lemmas ex_facts = ex_inv ex_quiet ex_store ex_in_keys ex_live

section \<open>Writes\<close>

text \<open>
  C1. Put and PutStream refine the specification of a conditional write, for every fault of the
  environment, every reader and every context: they keep the invariant of the directory; a
  success means the reader ended cleanly, the declared length (if any) was the number of bytes
  delivered, the precondition held, the tag is the SHA-256 of the bytes and exactly this key
  now holds exactly these bytes; an error means that no object changed, and a precondition error
  that the precondition did not hold.
\<close>

theorem fs_put_refines:
  assumes "fs_inv root K s" and "k \<in> K"
  shows "(case fs_put root c k r n t s of (res, r', s') \<Rightarrow>
      fs_inv root K s' \<and> put_spec sha256hex (fs_store root K s) k r n t res (fs_store root K s'))
    \<and> (case fs_putStream root c k r t s of (res, r', s') \<Rightarrow>
      fs_inv root K s' \<and> put_spec sha256hex (fs_store root K s) k r (- 1) t res (fs_store root K s'))"
  using fs_put_ok [OF assms] by (auto simp: fs_putStream_eq split: prod.split)

theorem fs_put_refines_witness:
  "fs_inv ex_root ex_keys (snd (snd (fs_put ex_root ctx_background ''c'' [([9], None)] 1 None ex_fs)))"
  using fs_put_refines [OF ex_inv ex_in_keys(2), where c = ctx_background
      and r = "[([9], None)]" and n = 1 and t = None]
  by (auto split: prod.splits)

text \<open>
  C2. Compare-and-swap is decided by the precondition alone: in a quiet directory with a live
  context and a reader that delivers its bytes, the write succeeds with the SHA-256 of the
  bytes when the precondition holds of the current object, and answers exactly
  \<open>ErrPreconditionFailed\<close> otherwise; either way the reader has been consumed and no temporary
  file is left.
\<close>

theorem fs_put_decides:
  assumes "fs_inv root K s" and "fs_quiet root s" and "k \<in> K" and "ctxErr c = None"
    and "readAll r = (v, None)" and "0 \<le> n \<longrightarrow> n = int (length v)"
    and "fs_put root c k r n t s = (res, r', s')"
  shows "res = (if precond sha256hex (fs_store root K s k) t then Inr (sha256hex v)
                else Inl ErrPreconditionFailed)
    \<and> r' = readerRest r \<and> fs_quiet root s'"
  using fs_put_live [OF assms] by (auto split: if_splits)

theorem fs_put_decides_witness:
  "fst (fs_put ex_root ctx_background ''c'' [([9], None)] 1 (Some '''') ex_fs) = Inr (sha256hex [9])
   \<and> fst (fs_put ex_root ctx_background ''a/b'' [([9], None)] 1 (Some '''') ex_fs)
       = Inl ErrPreconditionFailed"
  using fs_put_decides [OF ex_inv ex_quiet, of "''c''" ctx_background "[([9], None)]" "[9]" 1 "Some ''''"]
    fs_put_decides [OF ex_inv ex_quiet, of "''a/b''" ctx_background "[([9], None)]" "[9]" 1 "Some ''''"]
  by (cases "fs_put ex_root ctx_background ''c'' [([9], None)] 1 (Some '''') ex_fs";
      cases "fs_put ex_root ctx_background ''a/b'' [([9], None)] 1 (Some '''') ex_fs")
    (simp add: ex_store precond_def)

text \<open>
  C3. The optimistic concurrency cycle works: what a successful write stored is what Get, read
  to the end, and Stat return, under the tag the write returned; and a later conditional write
  that still expects another tag is refused with the precondition error.
\<close>

theorem fs_put_read_cas:
  assumes "fs_inv root K s" and "fs_quiet root s" and "k \<in> K" and "ctxErr c = None"
    and "readAll r = (v, None)" and "n = int (length v)"
    and "bPut (fs_bucket root) c k r n t s = (Inr e, r', s1)"
  shows "(\<exists>b s2 i s3. bGet (fs_bucket root) c k s1 = (Inr (b, e), s2) \<and> copy_all b = (v, None)
      \<and> bStat (fs_bucket root) c k s2 = (Inr i, s3)
      \<and> oKey i = k \<and> oSize i = int (length v) \<and> oETag i = e)
    \<and> (\<forall>stale r2 v2 res r2' s2. stale \<noteq> e \<longrightarrow> readAll r2 = (v2, None) \<longrightarrow>
        bPut (fs_bucket root) c k r2 (int (length v2)) (Some stale) s1 = (res, r2', s2) \<longrightarrow>
        (\<exists>x. res = Inl x \<and> errIs x ErrPreconditionFailed))"
  using fs.put_then_read [OF assms(1-4,4-7)] fs.stale_write_fails [OF assms(1-4,4-7) _ refl] by blast

theorem fs_put_read_cas_witness:
  "\<exists>e r' s1 b s2. bPut (fs_bucket ex_root) ctx_background ''c'' [([9], None)] 1 None ex_fs = (Inr e, r', s1)
     \<and> bGet (fs_bucket ex_root) ctx_background ''c'' s1 = (Inr (b, e), s2) \<and> copy_all b = ([9], None)"
proof -
  obtain res r' s1 where p: "bPut (fs_bucket ex_root) ctx_background ''c'' [([9], None)] 1 None ex_fs
    = (res, r', s1)" by (metis surj_pair)
  then have "\<exists>e. res = Inr e"
    using fs.put_live [OF ex_inv ex_quiet, of "''c''" ctx_background "[([9], None)]" "[9]" 1 None res r' s1]
    by (simp add: oprecond_def)
  then obtain e where "res = Inr e" by blast
  with p fs_put_read_cas [OF ex_inv ex_quiet, of "''c''" ctx_background "[([9], None)]" "[9]" 1 None e r' s1]
  show ?thesis by simp blast
qed

section \<open>Reads\<close>

text \<open>
  C4. Get is exact: a missing key is \<open>ErrNotFound\<close>; for an object, the tag is the SHA-256 of
  its bytes and any sequence of Read calls, with buffers of any sizes, delivers a prefix of the
  bytes and reports end of file only after all of them.
\<close>

theorem fs_get_exact:
  assumes "fs_inv root K s" and "fs_quiet root s" and "k \<in> K" and "ctxErr c = None"
    and "fs_get root c k s = (res, s')"
  shows "case fs_store root K s k of
      None \<Rightarrow> res = Inl ErrNotFound
    | Some v \<Rightarrow> \<exists>b. res = Inr (b, sha256hex v) \<and>
        (\<forall>ms bs e b'. drain ms b = (bs, e, b') \<longrightarrow> prefix bs v \<and> (e = None \<or> e = Some EEOF \<and> bs = v))"
proof (cases "fs_store root K s k")
  case None
  then show ?thesis using fs_get_ok(3) [OF assms(1,3,5,4) fs_quiet_faults [OF assms(2)]] by simp
next
  case (Some v)
  have "prefix bs v \<and> (e = None \<or> e = Some EEOF \<and> bs = v)"
    if "drain ms (FileB (FReg v)) = (bs, e, b')" for ms bs e b'
    using drain_copy_all [of "FileB (FReg v)", OF _ that] by (cases e) (auto simp: finish_def)
  then show ?thesis
    using fs_get_ok(3) [OF assms(1,3,5,4) fs_quiet_faults [OF assms(2)]] Some
    by simp blast
qed

theorem fs_get_exact_witness:
  "\<exists>b. fst (fs_get ex_root ctx_background ''a/b'' ex_fs) = Inr (b, sha256hex [1, 2, 3])"
  using fs_get_exact [OF ex_inv ex_quiet ex_in_keys(1) ex_live, of "fst (fs_get ex_root ctx_background ''a/b'' ex_fs)"
      "snd (fs_get ex_root ctx_background ''a/b'' ex_fs)"]
  by (auto simp: ex_store)



section \<open>Listing\<close>

text \<open>
  C6. A List call that succeeds returns the first \<open>maxKeys\<close> of the selected keys in strict
  lexicographic order, each once, with the size and tag of its object; the selected keys are
  the stored ones with the prefix and after \<open>startAfter\<close>. In a quiet directory with a live
  context it does succeed. Files being written and other files than objects never show.
\<close>

theorem fs_list_page:
  assumes "fs_inv root K s" and "fs_list root c pre sa s = (res, s')"
  shows "fs_store root K s' = fs_store root K s
    \<and> (fs_quiet root s \<and> ctxErr c = None \<longrightarrow> (\<exists>is. res = Inr is))
    \<and> (\<forall>is. res = Inr is \<longrightarrow>
         map oKey is = take maxKeys (list_keys (fs_store root K s) pre sa)
         \<and> sorted_wrt (<) (map oKey is)
         \<and> (\<forall>i \<in> set is. \<exists>v. fs_store root K s (oKey i) = Some v
              \<and> prefix pre (oKey i) \<and> (sa \<noteq> '''' \<longrightarrow> sa < oKey i)
              \<and> oSize i = int (length v) \<and> oETag i = sha256hex v))"
proof -
  let ?m = "fs_store root K s"
  note out = fs_list_ok [OF assms]
  have fin: "finite {k \<in> dom ?m. selects pre sa k}"
    using finite_store [OF fs_inv_wf [OF assms(1)]] by simp
  have "sorted_wrt (<) (take maxKeys (list_keys ?m pre sa))"
    by (intro sorted_wrt_take) (simp add: list_keys_def)
  moreover have "selects pre sa k" if "k \<in> set (take maxKeys (list_keys ?m pre sa))" for k
    using in_set_takeD [OF that] fin by (simp add: list_keys_def)
  then have sel: "prefix pre (oKey i) \<and> (sa \<noteq> '''' \<longrightarrow> sa < oKey i)"
    if "map oKey is = take maxKeys (list_keys ?m pre sa)" "i \<in> set is" for i "is"
    using that unfolding selects_def [symmetric] by (metis imageI list.set_map)
  moreover have "map oKey is = take maxKeys (list_keys ?m pre sa) \<and> list_all (info_ok sha256hex ?m) is"
    if "res = Inr is" for "is"
    using out(2) that by (simp add: list_spec_def)
  ultimately have "res = Inr is \<longrightarrow> map oKey is = take maxKeys (list_keys ?m pre sa)
      \<and> sorted_wrt (<) (map oKey is)
      \<and> (\<forall>i \<in> set is. \<exists>v. ?m (oKey i) = Some v \<and> prefix pre (oKey i) \<and> (sa \<noteq> '''' \<longrightarrow> sa < oKey i)
           \<and> oSize i = int (length v) \<and> oETag i = sha256hex v)" for "is"
    using sel by (force simp: list_all_iff info_ok_def)
  then show ?thesis
    using out(3) fs_quiet_faults fs_store_same [OF out(1)] by blast
qed

theorem fs_list_page_witness:
  "\<exists>is. fst (fs_list ex_root ctx_background ''a'' '''' ex_fs) = Inr is \<and> map oKey is = [''a/b'']"
proof -
  have "list_keys [''a/b'' \<mapsto> [1, 2, 3 :: byte]] ''a'' '''' = [''a/b'']"
    by (simp add: list_keys_def selects_def cong: conj_cong)
  then show ?thesis
    using fs_list_page [OF ex_inv, of ctx_background "''a''" "''''"
        "fst (fs_list ex_root ctx_background ''a'' '''' ex_fs)"
        "snd (fs_list ex_root ctx_background ''a'' '''' ex_fs)"] ex_quiet
    by (auto simp: ex_store maxKeys_def)
qed

text \<open>
  C7. Paging is complete: the client loop that asks for the page after the last key received,
  until a page is not full, ends within one call more than the selected keys and enumerates
  every selected key once, in order, whatever their number.
\<close>

theorem fs_list_pages_complete:
  assumes "fs_inv root K s" and "fs_quiet root s" and "ctxErr c = None"
    and "length (list_keys (fs_objs root K s) pre sa) < n"
  shows "\<exists>is s'. list_pages n maxKeys (fs_bucket root) c pre sa s = (Some (Inr is), s')
    \<and> map oKey is = list_keys (fs_store root K s) pre sa \<and> fs_store root K s' = fs_store root K s"
proof -
  have "'''' \<notin> K" using fs_inv_plain [OF assms(1)] by (auto simp: plain_key_def)
  from fs.list_pages_all [OF assms(1-3) this assms(4)] obtain "is" s' where
    r: "list_pages n maxKeys (fs_bucket root) c pre sa s = (Some (Inr is), s')"
    "map oKey is = list_keys (fs_objs root K s) pre sa" "fs_objs root K s' = fs_objs root K s" by blast
  have "fs_store root K s' = fs_store root K s"
    using r(3) unfolding fs_objs_def by (rule tagged_inj)
  then show ?thesis using r by (simp add: fs_objs_def)
qed

theorem fs_list_pages_complete_witness:
  "\<exists>is s'. list_pages 2 maxKeys (fs_bucket ex_root) ctx_background '''' '''' ex_fs = (Some (Inr is), s')
     \<and> map oKey is = [''a/b'']"
proof -
  have l: "list_keys [''a/b'' \<mapsto> [1, 2, 3 :: byte]] '''' '''' = [''a/b'']"
    by (simp add: list_keys_def selects_def)
  have "list_keys (fs_objs ex_root ex_keys ex_fs) '''' '''' = [''a/b'']"
    by (simp add: fs_objs_def ex_store l)
  then show ?thesis
    using fs_list_pages_complete [OF ex_inv ex_quiet ex_live, of "''''" "''''" 2] l
    by (auto simp: ex_store)
qed

section \<open>Deletion\<close>

text \<open>
  C8. Delete removes exactly its object, answers \<open>ErrNotFound\<close> exactly when there is none, and
  cleans up: afterwards no directory on the way from the root to the deleted object is empty,
  the root still stands, and every other object is untouched.
\<close>

theorem fs_delete_exact:
  assumes "fs_inv root K s" and "fs_quiet root s" and "k \<in> K" and "ctxErr c = None"
    and "fs_delete root c k s = (res, s')"
  shows "fs_inv root K s' \<and> fs_store root K s' = (fs_store root K s)(k := None)
    \<and> res = (if fs_store root K s k = None then Inl ErrNotFound else Inr ())
    \<and> node_at s' root = Some DirN
    \<and> (res = Inr () \<longrightarrow> no_empty_dirs root (butlast (kpath root k)) s')"
proof -
  note ok = fs_delete_ok [OF assms(1,3,5)] and live = fs_delete_live [OF assms]
  have res: "res = (if fs_store root K s k = None then Inl ErrNotFound else Inr ())"
    using live(2) by (auto split: if_splits)
  have "no_empty_dirs root (butlast (kpath root k)) s'" if r: "res = Inr ()"
  proof -
    note kp = fs_inv_keyPath [OF assms(1,3)] and wf = fs_inv_wf [OF assms(1)]
    obtain r1 s1 where o: "os_remove (kpath root k) s = (r1, s1)" by fastforce
    note oo = os_remove_out [OF o wf]
    have r1: "r1 = Inr ()" and s': "s' = pruneParents root (butlast (kpath root k)) s1"
      using assms(4,5) kp o r by (auto simp: fs_delete_def split: sum.splits if_splits)
    have "node_at s (kpath root k) \<noteq> None"
      using r res fs_store_Some [OF assms(1,3)] by (auto split: if_splits)
    then have "node_at s (butlast (kpath root k)) = Some DirN" using wf by (simp add: fs_wf_def)
    moreover have "butlast (kpath root k) \<noteq> kpath root k"
      using strict_prefix_butlast_kpath [of root k] by auto
    ultimately have "node_at s1 (butlast (kpath root k)) = Some DirN" using oo(3) [OF r1] by simp
    then show ?thesis
      unfolding s' using oo fs_quiet_faults [OF assms(2)]
      by (intro pruneParents_no_empty) (auto simp: prefix_butlast_kpath)
  qed
  moreover have "fs_store root K s' = (fs_store root K s)(k := None)"
    using ok res by (auto simp: delete_spec_def fun_eq_iff split: if_splits)
  ultimately show ?thesis using ok res by (simp add: fs_inv_def)
qed

theorem fs_delete_exact_witness:
  "fst (fs_delete ex_root ctx_background ''a/b'' ex_fs) = Inr ()
   \<and> fs_store ex_root ex_keys (snd (fs_delete ex_root ctx_background ''a/b'' ex_fs)) = Map.empty"
  using fs_delete_exact [OF ex_inv ex_quiet ex_in_keys(1) ex_live, of
      "fst (fs_delete ex_root ctx_background ''a/b'' ex_fs)"
      "snd (fs_delete ex_root ctx_background ''a/b'' ex_fs)"]
  by (simp add: ex_store)

section \<open>Keys and paths\<close>




end
