(* ===== verification/FSConc.thy ===== *)
theory FSConc
  imports FSContract
begin

text \<open>
  Concurrent calls on one filesystem backend. Each call is a program counter with its local
  variables; a step is what a call does between two points at which others can interfere: the
  system calls on shared paths, and taking the mutex \<open>mu\<close>. Writing the temporary file is one
  step, because nobody else names it: a step that draws a suffix in use is left out. Hashing a file
  is one step, because the file it opens is never changed (a write replaces the file); for the same
  reason what a GetRange does with the file it has opened belongs to its one step. MkdirAll is one
  step. Contexts are live; the other cases end before any effect. List is left out: it walks the
  tree over many steps and promises no snapshot.
\<close>

section \<open>Calls\<close>

datatype call =
    PutInit string reader int "string option"
  | PutSpool path reader int "string option"
  | PutWait path path string "string option"
  | PutCheck path path string "string option"
  | PutCommit path path string "string option"
  | PutDone "err + string"
  | DelInit string
  | DelPrune path
  | DelDone "err + unit"
  | GetInit string
  | GetOpen path string
  | GetDone "err + body \<times> string"
  | RangeInit string int int
  | RangeDone "err + body"
  | StatInit string
  | StatTag string path int int
  | StatDone "err + objectInfo"

text \<open>
  One step of the call \<open>i\<close>, with the owner of the mutex; \<open>None\<close> when it is blocked or over.
  First the steps of a Put (or PutStream, with length -1): up to the parent directories; the
  spooled temporary file; the mutex; the check; the commit, after which the mutex is released.
\<close>

type_synonym step_result = "(call \<times> nat option \<times> fsys) option"

definition put_begin :: "path \<Rightarrow> string \<Rightarrow> reader \<Rightarrow> int \<Rightarrow> string option \<Rightarrow> nat option \<Rightarrow> fsys \<Rightarrow> step_result" where
  [simp]: "put_begin root k r n t l s =
     (case keyPath root k of
        Inl e \<Rightarrow> Some (PutDone (Inl e), l, s)
      | Inr p \<Rightarrow>
          (case os_mkdirAll (butlast p) s of
             (Inl e, s1) \<Rightarrow> Some (PutDone (Inl (EWrap ''objectstore/fs: mkdir parent'' (EOS e))), l, s1)
           | (Inr u, s1) \<Rightarrow> Some (PutSpool p r n t, l, s1)))"

definition put_spool :: "path \<Rightarrow> reader \<Rightarrow> int \<Rightarrow> string option \<Rightarrow> nat option \<Rightarrow> fsys \<Rightarrow> step_result" where
  [simp]: "put_spool p r n t l s =
     (case randSuffix s of (sfx, s0) \<Rightarrow>
      let tmp = tmpPath p sfx in
      case writeAndSync tmp r n s0 of
        (Inl e, r', s1) \<Rightarrow> Some (PutDone (Inl e), l, snd (os_remove tmp s1))
      | (Inr etag, r', s1) \<Rightarrow> Some (PutWait p tmp etag t, l, s1))"

definition put_lock :: "nat \<Rightarrow> path \<Rightarrow> path \<Rightarrow> string \<Rightarrow> string option \<Rightarrow> nat option \<Rightarrow> fsys \<Rightarrow> step_result" where
  [simp]: "put_lock i p tmp etag t l s = (if l = None then Some (PutCheck p tmp etag t, Some i, s) else None)"

definition put_check :: "path \<Rightarrow> path \<Rightarrow> string \<Rightarrow> string option \<Rightarrow> nat option \<Rightarrow> fsys \<Rightarrow> step_result" where
  [simp]: "put_check p tmp etag t l s =
     (case checkIfMatch p t s of
        (Some e, s1) \<Rightarrow> Some (PutDone (Inl e), None, snd (os_remove tmp s1))
      | (None, s1) \<Rightarrow> Some (PutCommit p tmp etag t, l, s1))"

definition put_commit :: "path \<Rightarrow> path \<Rightarrow> string \<Rightarrow> string option \<Rightarrow> nat option \<Rightarrow> fsys \<Rightarrow> step_result" where
  [simp]: "put_commit p tmp etag t l s =
     (case commit tmp p (ifAbsent t) s of
        (Some e, s1) \<Rightarrow> Some (PutDone (Inl e), None, snd (os_remove tmp s1))
      | (None, s1) \<Rightarrow> Some (PutDone (Inr etag), None, s1))"

text \<open>Delete: the file, then its empty parents one by one.\<close>

definition del_file :: "path \<Rightarrow> string \<Rightarrow> nat option \<Rightarrow> fsys \<Rightarrow> step_result" where
  [simp]: "del_file root k l s =
     (case keyPath root k of
        Inl e \<Rightarrow> Some (DelDone (Inl e), l, s)
      | Inr p \<Rightarrow>
          (case os_remove p s of
             (Inl e, s1) \<Rightarrow>
               Some (DelDone (Inl (if isErrNotExist (EOS e) then ErrNotFound
                                   else EWrap ''objectstore/fs: remove'' (EOS e))), l, s1)
           | (Inr u, s1) \<Rightarrow> Some (DelPrune (butlast p), l, s1)))"

definition del_parent :: "path \<Rightarrow> path \<Rightarrow> nat option \<Rightarrow> fsys \<Rightarrow> step_result" where
  [simp]: "del_parent root dir l s =
     (if dir = root \<or> dir = [] then Some (DelDone (Inr ()), l, s)
      else (case os_remove dir s of
              (Inl e, s1) \<Rightarrow> Some (DelDone (Inr ()), l, s1)
            | (Inr u, s1) \<Rightarrow> Some (DelPrune (butlast dir), l, s1)))"

text \<open>Get: the tag, then the file.\<close>

definition get_tag :: "path \<Rightarrow> string \<Rightarrow> nat option \<Rightarrow> fsys \<Rightarrow> step_result" where
  [simp]: "get_tag root k l s =
     (case keyPath root k of
        Inl e \<Rightarrow> Some (GetDone (Inl e), l, s)
      | Inr p \<Rightarrow>
          (case fileETag p s of
             (Inl e, s1) \<Rightarrow>
               Some (GetDone (Inl (if isErrNotExist e then ErrNotFound
                                   else EWrap ''objectstore/fs: etag'' e)), l, s1)
           | (Inr etag, s1) \<Rightarrow> Some (GetOpen p etag, l, s1)))"

definition get_open :: "path \<Rightarrow> string \<Rightarrow> nat option \<Rightarrow> fsys \<Rightarrow> step_result" where
  [simp]: "get_open p etag l s =
     (case os_open p s of
        (Inl e, s1) \<Rightarrow>
          Some (GetDone (Inl (if isErrNotExist (EOS e) then ErrNotFound
                              else EWrap ''objectstore/fs: open'' (EOS e))), l, s1)
      | (Inr h, s1) \<Rightarrow> Some (GetDone (Inr (FileB h, etag)), l, s1))"

text \<open>GetRange opens the file; Stat looks at its metadata, then hashes it.\<close>

definition range_open :: "path \<Rightarrow> string \<Rightarrow> int \<Rightarrow> int \<Rightarrow> nat option \<Rightarrow> fsys \<Rightarrow> step_result" where
  [simp]: "range_open root k off len l s =
     (case fs_getRange root ctx_background k off len s of (res, s1) \<Rightarrow> Some (RangeDone res, l, s1))"

definition stat_file :: "path \<Rightarrow> string \<Rightarrow> nat option \<Rightarrow> fsys \<Rightarrow> step_result" where
  [simp]: "stat_file root k l s =
     (case keyPath root k of
        Inl e \<Rightarrow> Some (StatDone (Inl e), l, s)
      | Inr p \<Rightarrow>
          (case os_stat p s of
             (Inl e, s1) \<Rightarrow>
               Some (StatDone (Inl (if isErrNotExist (EOS e) then ErrNotFound
                                    else EWrap ''objectstore/fs: stat'' (EOS e))), l, s1)
           | (Inr n, s1) \<Rightarrow>
               Some (StatTag k p (case n of RegF b t \<Rightarrow> int (length b) | _ \<Rightarrow> fdirsize s)
                       (case n of RegF b t \<Rightarrow> t | _ \<Rightarrow> fnow s), l, s1)))"

definition stat_tag :: "string \<Rightarrow> path \<Rightarrow> int \<Rightarrow> int \<Rightarrow> nat option \<Rightarrow> fsys \<Rightarrow> step_result" where
  [simp]: "stat_tag k p sz t l s =
     (case fileETag p s of
        (Inl e, s1) \<Rightarrow> Some (StatDone (Inl (EWrap ''objectstore/fs: etag'' e)), l, s1)
      | (Inr etag, s1) \<Rightarrow>
          Some (StatDone (Inr \<lparr>oKey = k, oSize = sz, oLastModified = t, oETag = etag\<rparr>), l, s1))"

fun call_step :: "path \<Rightarrow> nat \<Rightarrow> call \<Rightarrow> nat option \<Rightarrow> fsys \<Rightarrow> step_result" where
  "call_step root i (PutInit k r n t) l s = put_begin root k r n t l s"
| "call_step root i (PutSpool p r n t) l s = put_spool p r n t l s"
| "call_step root i (PutWait p tmp etag t) l s = put_lock i p tmp etag t l s"
| "call_step root i (PutCheck p tmp etag t) l s = put_check p tmp etag t l s"
| "call_step root i (PutCommit p tmp etag t) l s = put_commit p tmp etag t l s"
| "call_step root i (DelInit k) l s = del_file root k l s"
| "call_step root i (DelPrune dir) l s = del_parent root dir l s"
| "call_step root i (GetInit k) l s = get_tag root k l s"
| "call_step root i (GetOpen p etag) l s = get_open p etag l s"
| "call_step root i (RangeInit k off len) l s = range_open root k off len l s"
| "call_step root i (StatInit k) l s = stat_file root k l s"
| "call_step root i (StatTag k p sz t) l s = stat_tag k p sz t l s"
| "call_step root i c l s = None"

record cfs =
  cfFs :: fsys
  cfLock :: "nat option"
  cfCalls :: "call list"

text \<open>The temporary file that a call has, and the name the next step of a call will give it.\<close>

fun tmp_of :: "call \<Rightarrow> path option" where
  "tmp_of (PutWait p tmp etag t) = Some tmp"
| "tmp_of (PutCheck p tmp etag t) = Some tmp"
| "tmp_of (PutCommit p tmp etag t) = Some tmp"
| "tmp_of c = None"

fun tmp_next :: "fsys \<Rightarrow> call \<Rightarrow> path option" where
  "tmp_next s (PutSpool p r n t) = Some (tmpPath p (fst (randSuffix s)))"
| "tmp_next s c = None"

definition no_collision :: "nat \<Rightarrow> cfs \<Rightarrow> bool" where
  "no_collision i x \<longleftrightarrow>
     (case tmp_next (cfFs x) (cfCalls x ! i) of None \<Rightarrow> True
      | Some q \<Rightarrow> list_all (\<lambda>c. tmp_of c \<noteq> Some q) (cfCalls x))"

inductive cf_step :: "path \<Rightarrow> cfs \<Rightarrow> cfs \<Rightarrow> bool" for root where
  Step: "i < length (cfCalls x) \<Longrightarrow> no_collision i x
    \<Longrightarrow> call_step root i (cfCalls x ! i) (cfLock x) (cfFs x) = Some (c, l, s)
    \<Longrightarrow> cf_step root x \<lparr>cfFs = s, cfLock = l, cfCalls = (cfCalls x)[i := c]\<rparr>"

section \<open>A call alone\<close>

text \<open>The turn of a call; a blocked or finished call does nothing.\<close>

definition turn :: "path \<Rightarrow> nat \<Rightarrow> cfs \<Rightarrow> cfs" where
  "turn root i x =
     (case call_step root i (cfCalls x ! i) (cfLock x) (cfFs x) of
        None \<Rightarrow> x
      | Some (c, l, s) \<Rightarrow> \<lparr>cfFs = s, cfLock = l, cfCalls = (cfCalls x)[i := c]\<rparr>)"

lemma turn_step:
  assumes "i < length (cfCalls x)" and "no_collision i x"
  shows "(cf_step root)\<^sup>*\<^sup>* x (turn root i x)"
proof (cases "call_step root i (cfCalls x ! i) (cfLock x) (cfFs x)")
  case (Some y)
  obtain c l s where "y = (c, l, s)" by (cases y)
  then show ?thesis
    using cf_step.Step [OF assms, of root c l s] Some by (auto simp: turn_def)
qed (simp add: turn_def)

text \<open>The steps of a lone Put, Get, Stat or Delete compose to the operation.\<close>

definition alone :: "call \<Rightarrow> fsys \<Rightarrow> cfs" where
  "alone c s = \<lparr>cfFs = s, cfLock = None, cfCalls = [c]\<rparr>"

lemma turn_alone:
  "turn root 0 \<lparr>cfFs = s, cfLock = l, cfCalls = [c]\<rparr> =
     (case call_step root 0 c l s of None \<Rightarrow> \<lparr>cfFs = s, cfLock = l, cfCalls = [c]\<rparr>
      | Some (c', l', s') \<Rightarrow> \<lparr>cfFs = s', cfLock = l', cfCalls = [c']\<rparr>)"
  by (simp add: turn_def split: option.split)

lemma put_alone:
  assumes "fs_put root ctx_background k r n t s = (res, r', s')"
  shows "(turn root 0 ^^ 5) (alone (PutInit k r n t) s) = alone (PutDone res) s'"
  using assms
  by (auto simp: alone_def turn_alone numeral_eq_Suc fs_put_def ctx_background_def putLocked_def Let_def
      split: sum.splits prod.splits option.splits)

lemma get_alone:
  assumes "fs_get root ctx_background k s = (res, s')"
  shows "(turn root 0 ^^ 2) (alone (GetInit k) s) = alone (GetDone res) s'"
  using assms
  by (auto simp: alone_def turn_alone numeral_eq_Suc fs_get_def ctx_background_def Let_def
      split: sum.splits prod.splits option.splits if_splits)

lemma stat_alone:
  assumes "fs_stat root ctx_background k s = (res, s')"
  shows "(turn root 0 ^^ 2) (alone (StatInit k) s) = alone (StatDone res) s'"
  using assms
  by (auto simp: alone_def turn_alone numeral_eq_Suc fs_stat_def ctx_background_def Let_def
      split: sum.splits prod.splits option.splits if_splits)

lemma prune_alone:
  "length d < n \<Longrightarrow> (turn root 0 ^^ n) (alone (DelPrune d) s) = alone (DelDone (Inr ())) (pruneParents root d s)"
proof (induction n arbitrary: d s)
  case (Suc n)
  have done': "(turn root 0 ^^ n) (alone (DelDone (Inr ())) s') = alone (DelDone (Inr ())) s'" for s'
    by (induction n) (simp_all add: alone_def turn_alone)
  show ?case
  proof (cases "d = root \<or> d = []")
    case True
    then show ?thesis
      using done' by (simp add: funpow_swap1 alone_def turn_alone pruneParents.simps [of root d s])
  next
    case False
    obtain r s1 where o: "os_remove d s = (r, s1)" by fastforce
    show ?thesis
    proof (cases r)
      case (Inl e)
      then show ?thesis
        using False o done' by (simp add: funpow_swap1 alone_def turn_alone pruneParents.simps [of root d s])
    next
      case (Inr u)
      have "length (butlast d) < n" using Suc.prems False by (cases d) auto
      note Suc.IH [OF this, of s1]
      then show ?thesis
        using False o Inr by (simp add: funpow_swap1 alone_def turn_alone pruneParents.simps [of root d s])
    qed
  qed
qed simp

lemma delete_alone:
  assumes "fs_delete root ctx_background k s = (res, s')"
  shows "\<exists>n. (turn root 0 ^^ n) (alone (DelInit k) s) = alone (DelDone res) s'"
proof (cases "\<exists>p u s1. keyPath root k = Inr p \<and> os_remove p s = (Inr u, s1)")
  case True
  then obtain p u s1 where p: "keyPath root k = Inr p" "os_remove p s = (Inr u, s1)" by blast
  have "(turn root 0 ^^ Suc (Suc (length p))) (alone (DelInit k) s)
      = (turn root 0 ^^ Suc (length p)) (alone (DelPrune (butlast p)) s1)"
    using p by (simp add: funpow_swap1 alone_def turn_alone)
  also have "\<dots> = alone (DelDone res) s'"
    using prune_alone [of "butlast p" "Suc (length p)" root s1] assms p
    by (simp add: fs_delete_def ctx_background_def)
  finally show ?thesis by blast
next
  case False
  then have "(turn root 0 ^^ 1) (alone (DelInit k) s) = alone (DelDone res) s'"
    using assms
    by (auto simp: alone_def turn_alone fs_delete_def ctx_background_def split: sum.splits prod.splits)
  then show ?thesis by blast
qed


end
