(* ===== verification/FSConcProps.thy ===== *)
theory FSConcProps
  imports FSConc FSDelete
begin

text \<open>
  Concurrent calls of the filesystem backend refine the sequential specification, one atomic step
  per call: a forward simulation with the commit (or the refusal) of a write, the removal of the
  file of a deletion and the opening of the file of a read as their effects. The invariant says
  which temporary file each call owns, that the holder of the mutex has a precondition that still
  holds when it commits, and that the tag a read has computed is still that of the object. The last
  two need that no two calls of the run race: the conflicts are those of \<open>fs_races\<close>.
\<close>

section \<open>Refinement maps\<close>

text \<open>Every step of a concrete system is an abstract step or none, under an invariant.\<close>

locale refinement_map =
  fixes cstep :: "'c \<Rightarrow> 'c \<Rightarrow> bool"
    and astep :: "'a \<Rightarrow> 'a \<Rightarrow> bool"
    and inv :: "'c \<Rightarrow> bool"
    and abs :: "'c \<Rightarrow> 'a"
  assumes keeps: "inv x \<Longrightarrow> cstep x y \<Longrightarrow> inv y"
    and simulates: "inv x \<Longrightarrow> cstep x y \<Longrightarrow> abs y = abs x \<or> astep (abs x) (abs y)"
begin

lemma runs:
  assumes "cstep\<^sup>*\<^sup>* x y" and "inv x"
  shows "inv y \<and> astep\<^sup>*\<^sup>* (abs x) (abs y)"
  using assms(1)
proof (induction rule: rtranclp_induct)
  case (step y z)
  then have "abs z = abs y \<or> astep (abs y) (abs z)" "inv z" using simulates keeps by blast+
  then show ?case using step.IH by (auto intro: rtranclp.rtrancl_into_rtrancl)
qed (simp add: assms(2))

end

section \<open>The specification\<close>

text \<open>
  Concurrent calls of an ideal store: each invocation takes effect in one step, as the sequential
  specification of its operation, and then has its result.
\<close>

datatype invocation =
    RqPut string reader int "string option"
  | RqDelete string
  | RqGet string
  | RqRange string int int
  | RqStat string

datatype answer =
    APut "err + string"
  | ADelete "err + unit"
  | AGet "err + body \<times> string"
  | ARange "err + body"
  | AStat "err + objectInfo"

fun rq_key :: "invocation \<Rightarrow> string" where
  "rq_key (RqPut k r n t) = k"
| "rq_key (RqDelete k) = k"
| "rq_key (RqGet k) = k"
| "rq_key (RqRange k off len) = k"
| "rq_key (RqStat k) = k"

fun answers :: "invocation \<Rightarrow> store \<Rightarrow> answer \<Rightarrow> store \<Rightarrow> bool" where
  "answers (RqPut k r n t) st (APut res) st' = put_spec sha256hex st k r n t res st'"
| "answers (RqDelete k) st (ADelete res) st' = delete_spec st k res st'"
| "answers (RqGet k) st (AGet res) st' = (st' = st \<and> get_spec sha256hex body_bytes st k res)"
| "answers (RqRange k off len) st (ARange res) st' = (st' = st \<and> getRange_spec body_bytes st k off len res)"
| "answers (RqStat k) st (AStat res) st' = (st' = st \<and> stat_spec sha256hex st k res)"
| "answers q st a st' = False"

inductive lin_step :: "invocation list \<Rightarrow> store \<times> answer option list \<Rightarrow> store \<times> answer option list \<Rightarrow> bool"
  for reqs where
  Effect: "i < length reqs \<Longrightarrow> as ! i = None \<Longrightarrow> answers (reqs ! i) st a st'
    \<Longrightarrow> lin_step reqs (st, as) (st', as[i := Some a])"

fun rq_init :: "invocation \<Rightarrow> call" where
  "rq_init (RqPut k r n t) = PutInit k r n t"
| "rq_init (RqDelete k) = DelInit k"
| "rq_init (RqGet k) = GetInit k"
| "rq_init (RqRange k off len) = RangeInit k off len"
| "rq_init (RqStat k) = StatInit k"

text \<open>A request for a key of the key space, its offsets being 64-bit integers.\<close>

fun rq_ok :: "string set \<Rightarrow> invocation \<Rightarrow> bool" where
  "rq_ok K (RqRange k off len) = (k \<in> K \<and> is_i64 off \<and> is_i64 len)"
| "rq_ok K q = (rq_key q \<in> K)"

lemma rq_ok_key: "rq_ok K q \<Longrightarrow> rq_key q \<in> K"
  by (cases q) simp_all

text \<open>
  What a call has done: its answer once it has taken effect, which for a deletion is when the file is
  gone, before its parents are pruned.
\<close>

fun effect :: "call \<Rightarrow> answer option" where
  "effect (PutDone res) = Some (APut res)"
| "effect (DelPrune d) = Some (ADelete (Inr ()))"
| "effect (DelDone res) = Some (ADelete res)"
| "effect (GetDone res) = Some (AGet res)"
| "effect (RangeDone res) = Some (ARange res)"
| "effect (StatDone res) = Some (AStat res)"
| "effect c = None"

definition cf_start :: "invocation list \<Rightarrow> fsys \<Rightarrow> cfs" where
  "cf_start reqs s = \<lparr>cfFs = s, cfLock = None, cfCalls = map rq_init reqs\<rparr>"

definition cf_abs :: "path \<Rightarrow> string set \<Rightarrow> cfs \<Rightarrow> store \<times> answer option list" where
  "cf_abs root K x = (fs_store root K (cfFs x), map effect (cfCalls x))"

text \<open>
  The conflicts: a deletion of the object a compare-and-swap names, and a write of the object that a
  Get or a Stat names. Creations, unconditional writes and reads conflict with no deletion, and a
  GetRange with nothing.
\<close>

fun conflict :: "invocation \<Rightarrow> invocation \<Rightarrow> bool" where
  "conflict (RqPut k r n t) (RqDelete k') = (k = k' \<and> t \<noteq> None \<and> t \<noteq> Some '''')"
| "conflict (RqGet k) (RqPut k' r n t) = (k = k')"
| "conflict (RqStat k) (RqPut k' r n t) = (k = k')"
| "conflict q q' = False"

definition race_free :: "invocation list \<Rightarrow> bool" where
  "race_free reqs \<longleftrightarrow> list_all (\<lambda>q. list_all (\<lambda>q'. \<not> conflict q q') reqs) reqs"

lemma race_freeD: "race_free reqs \<Longrightarrow> i < length reqs \<Longrightarrow> j < length reqs \<Longrightarrow> \<not> conflict (reqs ! i) (reqs ! j)"
  by (simp add: race_free_def list_all_length)

section \<open>The invariant\<close>

text \<open>A call that owns a temporary file: the file holds the whole body, and the tag is its hash.\<close>

definition owns :: "path \<Rightarrow> invocation \<Rightarrow> fsys \<Rightarrow> path \<Rightarrow> path \<Rightarrow> string \<Rightarrow> string option \<Rightarrow> bool" where
  "owns root q s p tmp etag t \<longleftrightarrow>
     (case q of RqPut k r n t' \<Rightarrow> p = kpath root k \<and> t = t' \<and> tmp_named tmp \<and> tmp \<noteq> root
        \<and> snd (readAll r) = None \<and> (0 \<le> n \<longrightarrow> n = int (length (fst (readAll r))))
        \<and> etag = sha256hex (fst (readAll r)) \<and> (\<exists>t0. node_at s tmp = Some (RegF (fst (readAll r)) t0))
      | _ \<Rightarrow> False)"

lemma owns_put: "owns root q s p tmp etag t \<Longrightarrow> \<exists>k r n. q = RqPut k r n t"
  by (cases q) (auto simp: owns_def)

fun call_ok :: "path \<Rightarrow> string set \<Rightarrow> invocation \<Rightarrow> nat \<Rightarrow> nat option \<Rightarrow> fsys \<Rightarrow> call \<Rightarrow> bool" where
  "call_ok root K q i l s (PutInit k r n t) = (q = RqPut k r n t \<and> l \<noteq> Some i)"
| "call_ok root K q i l s (PutSpool p r n t) = (\<exists>k. q = RqPut k r n t \<and> p = kpath root k \<and> l \<noteq> Some i)"
| "call_ok root K q i l s (PutWait p tmp etag t) = (owns root q s p tmp etag t \<and> l \<noteq> Some i)"
| "call_ok root K q i l s (PutCheck p tmp etag t) = (owns root q s p tmp etag t \<and> l = Some i)"
| "call_ok root K q i l s (PutCommit p tmp etag t) =
     (owns root q s p tmp etag t \<and> l = Some i \<and> precond sha256hex (fs_store root K s (rq_key q)) t)"
| "call_ok root K q i l s (PutDone res) = (l \<noteq> Some i)"
| "call_ok root K q i l s (DelInit k) = (q = RqDelete k \<and> l \<noteq> Some i)"
| "call_ok root K q i l s (DelPrune d) =
     (prefix root d \<and> strict_prefix d (kpath root (rq_key q)) \<and> l \<noteq> Some i)"
| "call_ok root K q i l s (DelDone res) = (l \<noteq> Some i)"
| "call_ok root K q i l s (GetInit k) = (q = RqGet k \<and> l \<noteq> Some i)"
| "call_ok root K q i l s (GetOpen p etag) =
     (\<exists>k. q = RqGet k \<and> p = kpath root k \<and> l \<noteq> Some i
        \<and> (\<forall>v. fs_store root K s k = Some v \<longrightarrow> etag = sha256hex v))"
| "call_ok root K q i l s (GetDone res) = (l \<noteq> Some i)"
| "call_ok root K q i l s (RangeInit k off len) = (q = RqRange k off len \<and> l \<noteq> Some i)"
| "call_ok root K q i l s (RangeDone res) = (l \<noteq> Some i)"
| "call_ok root K q i l s (StatInit k) = (q = RqStat k \<and> l \<noteq> Some i)"
| "call_ok root K q i l s (StatTag k p sz t) =
     (q = RqStat k \<and> p = kpath root k \<and> l \<noteq> Some i
        \<and> (\<forall>v. fs_store root K s k = Some v \<longrightarrow> sz = int (length v)))"
| "call_ok root K q i l s (StatDone res) = (l \<noteq> Some i)"

definition cf_inv :: "path \<Rightarrow> string set \<Rightarrow> invocation list \<Rightarrow> cfs \<Rightarrow> bool" where
  "cf_inv root K reqs x \<longleftrightarrow> fs_inv root K (cfFs x) \<and> list_all (rq_ok K) reqs \<and> race_free reqs
     \<and> length (cfCalls x) = length reqs
     \<and> (\<forall>i < length reqs. call_ok root K (reqs ! i) i (cfLock x) (cfFs x) (cfCalls x ! i))
     \<and> (\<forall>i < length reqs. \<forall>j < length reqs. i \<noteq> j \<longrightarrow> tmp_of (cfCalls x ! i) \<noteq> None
          \<longrightarrow> tmp_of (cfCalls x ! i) \<noteq> tmp_of (cfCalls x ! j))"

lemma cf_inv_tmp:
  assumes "cf_inv root K reqs x" and "i < length reqs" "j < length reqs" "i \<noteq> j"
    and "tmp_of (cfCalls x ! i) = Some q"
  shows "tmp_of (cfCalls x ! j) \<noteq> Some q"
  using assms unfolding cf_inv_def by (metis option.distinct(1))

lemma cf_inv_start:
  assumes "fs_inv root K s" and "list_all (rq_ok K) reqs" and "race_free reqs"
  shows "cf_inv root K reqs (cf_start reqs s)"
proof -
  have "call_ok root K q i None s (rq_init q)" "tmp_of (rq_init q) = None" for q i
    by (cases q; simp)+
  then show ?thesis using assms by (simp add: cf_inv_def cf_start_def)
qed

text \<open>
  What a step of one call does to the others: the files that others own stay, a write changes its
  key under the mutex, a deletion removes its key, and the mutex passes between free and the call.
\<close>

fun changes :: "invocation \<Rightarrow> bool \<Rightarrow> store \<Rightarrow> store \<Rightarrow> bool" where
  "changes (RqPut k r n t) locked st st' = (st' = st \<or> locked \<and> (\<forall>k'. k' \<noteq> k \<longrightarrow> st' k' = st k'))"
| "changes (RqDelete k) locked st st' = (st' = st \<or> st' = st(k := None))"
| "changes q locked st st' = (st' = st)"

lemma changes_same [simp]: "changes q b st st"
  by (cases q) simp_all

definition frame :: "path \<Rightarrow> string set \<Rightarrow> invocation \<Rightarrow> nat \<Rightarrow> path option \<Rightarrow> nat option \<Rightarrow> fsys \<Rightarrow> nat option \<Rightarrow> fsys \<Rightarrow> bool" where
  "frame root K q i own l s l' s' \<longleftrightarrow>
     (\<forall>p n. tmp_named p \<longrightarrow> Some p \<noteq> own \<longrightarrow> node_at s p = Some n \<longrightarrow> node_at s' p = Some n)
     \<and> changes q (l = Some i) (fs_store root K s) (fs_store root K s')
     \<and> (l' = l \<or> l = None \<and> l' = Some i \<or> l = Some i \<and> l' = None)"

lemma precond_changes:
  assumes "changes q' b st st'" and "\<not> b" and "\<not> conflict (RqPut k r n t) q'" and "precond sha256hex (st k) t"
  shows "precond sha256hex (st' k) t"
proof -
  have "t = None \<or> t = Some '''' \<Longrightarrow> precond sha256hex None t"
    by (auto simp flip: ifAbsentTag_def)
  then show ?thesis using assms by (cases q') auto
qed

lemma tag_changes:
  "changes q' b st st' \<Longrightarrow> \<not> conflict (RqGet k) q' \<or> \<not> conflict (RqStat k) q' \<Longrightarrow> st' k = Some v \<Longrightarrow> st k = Some v"
  by (cases q') (auto split: if_splits)

lemma call_ok_frame:
  assumes "call_ok root K q j l s c" and "frame root K q' i own l s l' s'" and "j \<noteq> i"
    and "\<not> conflict q q'" and "\<And>tmp. tmp_of c = Some tmp \<Longrightarrow> Some tmp \<noteq> own"
  shows "call_ok root K q j l' s' c"
proof -
  have ow: "owns root q s p tmp etag t \<Longrightarrow> Some tmp \<noteq> own \<Longrightarrow> owns root q s' p tmp etag t" for p tmp etag t
    using assms(2) by (auto simp: owns_def frame_def split: invocation.splits)
  have lock: "l = Some j \<Longrightarrow> l' = Some j" "l \<noteq> Some j \<Longrightarrow> l' \<noteq> Some j" "l = Some j \<Longrightarrow> l \<noteq> Some i"
    using assms(2,3) by (auto simp: frame_def)
  have ch: "changes q' (l = Some i) (fs_store root K s) (fs_store root K s')"
    using assms(2) by (simp add: frame_def)
  show ?thesis
  proof (cases c)
    case (PutCommit p tmp etag t)
    then obtain k r n where q: "q = RqPut k r n t"
      using assms(1) by (auto simp: owns_def split: invocation.splits)
    have "precond sha256hex (fs_store root K s' k) t"
      by (rule precond_changes [OF ch]) (use assms(1,4) PutCommit lock(3) q in auto)
    then show ?thesis using assms(1,5) PutCommit ow lock q by auto
  next
    case (GetOpen p etag)
    then show ?thesis using assms(1,4) lock(2) tag_changes [OF ch] by auto
  next
    case (StatTag k p sz t)
    then show ?thesis using assms(1,4) lock(2) tag_changes [OF ch] by auto
  qed (use assms(1,5) ow lock in auto)
qed

text \<open>The invariant after a step of one call.\<close>

lemma cf_inv_update:
  assumes inv: "cf_inv root K reqs x" and i: "i < length reqs"
    and s: "fs_inv root K s'" and frame: "frame root K (reqs ! i) i own (cfLock x) (cfFs x) l' s'"
    and ok: "call_ok root K (reqs ! i) i l' s' c"
    and own: "\<And>q j. tmp_of c = Some q \<or> own = Some q \<Longrightarrow> j < length reqs \<Longrightarrow> j \<noteq> i
      \<Longrightarrow> tmp_of (cfCalls x ! j) \<noteq> Some q"
  shows "cf_inv root K reqs \<lparr>cfFs = s', cfLock = l', cfCalls = (cfCalls x)[i := c]\<rparr>"
proof -
  have len: "length (cfCalls x) = length reqs" using inv by (simp add: cf_inv_def)
  have "call_ok root K (reqs ! j) j l' s' ((cfCalls x)[i := c] ! j)" if j: "j < length reqs" for j
  proof (cases "j = i")
    case True
    then show ?thesis using ok i len by simp
  next
    case False
    have "call_ok root K (reqs ! j) j l' s' (cfCalls x ! j)"
    proof (rule call_ok_frame [OF _ frame False])
      show "\<not> conflict (reqs ! j) (reqs ! i)" using race_freeD [OF _ j i] inv by (simp add: cf_inv_def)
      show "call_ok root K (reqs ! j) j (cfLock x) (cfFs x) (cfCalls x ! j)"
        using inv j by (simp add: cf_inv_def)
    qed (use own [OF _ j False] in auto)
    then show ?thesis using False by simp
  qed
  moreover have "tmp_of ((cfCalls x)[i := c] ! a) \<noteq> tmp_of ((cfCalls x)[i := c] ! b)"
    if ab: "a < length reqs" "b < length reqs" "a \<noteq> b" "tmp_of ((cfCalls x)[i := c] ! a) \<noteq> None" for a b
  proof
    assume eq: "tmp_of ((cfCalls x)[i := c] ! a) = tmp_of ((cfCalls x)[i := c] ! b)"
    obtain q where q: "tmp_of ((cfCalls x)[i := c] ! a) = Some q" using ab(4) by blast
    consider "a = i" | "b = i" | "a \<noteq> i" "b \<noteq> i" by blast
    then show False
    proof cases
      case 1
      then show False using own [of q b] eq q ab len by simp
    next
      case 2
      then show False using own [of q a] eq q ab len by simp
    next
      case 3
      then have "tmp_of (cfCalls x ! a) = Some q" "tmp_of (cfCalls x ! b) = Some q"
        using eq q ab len by simp_all
      then show False using cf_inv_tmp [OF inv ab(1,2,3)] by simp
    qed
  qed
  ultimately show ?thesis using inv s len by (simp add: cf_inv_def)
qed

section \<open>The steps of a Put\<close>

text \<open>What every step of a call establishes.\<close>

definition step_ok :: "path \<Rightarrow> string set \<Rightarrow> invocation \<Rightarrow> nat \<Rightarrow> call \<Rightarrow> nat option \<Rightarrow> fsys
    \<Rightarrow> call \<Rightarrow> nat option \<Rightarrow> fsys \<Rightarrow> bool" where
  "step_ok root K q i c l s c' l' s' \<longleftrightarrow> fs_inv root K s' \<and> call_ok root K q i l' s' c'
     \<and> (\<exists>own. frame root K q i own l s l' s' \<and> tmp_of c' \<in> {None, own}
          \<and> own \<in> {None, tmp_of c, tmp_next s c})
     \<and> (if effect c' = effect c then fs_store root K s' = fs_store root K s
        else effect c = None \<and> answers q (fs_store root K s) (the (effect c')) (fs_store root K s'))"

text \<open>Refusing: the store stays, the call's own file goes.\<close>

lemma refuse_ok:
  assumes s: "fs_inv root K s" and s1: "fs_inv root K s1" "fs_store root K s1 = fs_store root K s"
    and nodes: "\<And>p n. tmp_named p \<Longrightarrow> p \<noteq> tmp \<Longrightarrow> node_at s p = Some n \<Longrightarrow> node_at s1 p = Some n"
    and tmp: "tmp_named tmp" "tmp \<noteq> root" "Some tmp \<in> {tmp_of c, tmp_next s c}"
    and l: "l' = l \<and> l \<noteq> Some i \<or> l = Some i \<and> l' = None"
    and c: "effect c = None"
    and e: "errIs e ErrPreconditionFailed \<Longrightarrow> clean_reader r \<Longrightarrow> \<not> precond sha256hex (fs_store root K s k) t"
  shows "step_ok root K (RqPut k r n t) i c l s (PutDone (Inl e)) l' (snd (os_remove tmp s1))"
proof -
  obtain x s2 where o: "os_remove tmp s1 = (x, s2)" by fastforce
  note oo = os_remove_out [OF o fs_inv_wf [OF s1(1)]]
  have n2: "node_at s2 p = node_at s1 p" if "p \<noteq> tmp" for p
    using oo(2,3) node_at_fnodes [of s2 s1] that by (cases x) auto
  have r: "fs_inv root K s2" "fs_store root K s2 = fs_store root K s"
    using fs_remove_tmp [OF s1(1) tmp(1,2)] s1(2) o by simp_all
  have "frame root K (RqPut k r n t) i (Some tmp) l s l' s2"
    using nodes n2 r(2) l by (auto simp: frame_def)
  moreover have "put_spec sha256hex (fs_store root K s) k r n t (Inl e) (fs_store root K s2)"
    using e r(2) by (simp add: put_spec_def)
  ultimately show ?thesis
    unfolding step_ok_def using r o tmp(3) l c by auto
qed

lemma init_ok:
  assumes s: "fs_inv root K s" and k: "k \<in> K" and l: "l \<noteq> Some i"
    and st: "call_step root i (PutInit k r n t) l s = Some (c', l', s')"
  shows "step_ok root K (RqPut k r n t) i (PutInit k r n t) l s c' l' s'"
proof -
  obtain m s1 where m: "os_mkdirAll (butlast (kpath root k)) s = (m, s1)" by fastforce
  note mm = fs_spool_ok [OF s k m]
  have new: "only_new_dirs (butlast (kpath root k)) s s1"
    by (rule os_mkdirAll_out(2) [OF m fs_inv_wf [OF s]])
  have fr: "frame root K (RqPut k r n t) i None l s l s1"
    using new mm(2) by (auto simp: frame_def only_new_dirs_def) (metis option.distinct(1))
  show ?thesis
  proof (cases m)
    case (Inl e)
    then have "c' = PutDone (Inl (EWrap ''objectstore/fs: mkdir parent'' (EOS e)))" "l' = l" "s' = s1"
      using st fs_inv_keyPath [OF s k] m by simp_all
    then show ?thesis using mm fr l by (auto simp: step_ok_def put_spec_def)
  next
    case (Inr u)
    then have "c' = PutSpool (kpath root k) r n t" "l' = l" "s' = s1"
      using st fs_inv_keyPath [OF s k] m by simp_all
    then show ?thesis using mm fr l by (auto simp: step_ok_def)
  qed
qed

lemma spool_ok:
  assumes s: "fs_inv root K s" and k: "k \<in> K" and l: "l \<noteq> Some i"
    and st: "call_step root i (PutSpool (kpath root k) r n t) l s = Some (c', l', s')"
  shows "step_ok root K (RqPut k r n t) i (PutSpool (kpath root k) r n t) l s c' l' s'"
proof -
  obtain sfx s0 where rs: "randSuffix s = (sfx, s0)" by fastforce
  note f0 = randSuffix_out(1) [OF rs]
  define q where "q = tmpPath (kpath root k) sfx"
  have q: "tmp_named q" "q \<noteq> root" "q \<noteq> []" by (simp_all add: q_def tmpPath_not_root)
  have nx: "tmp_next s (PutSpool (kpath root k) r n t) = Some q" by (simp add: rs q_def)
  have i0: "fs_inv root K s0" "fs_store root K s0 = fs_store root K s" "node_at s0 = node_at s"
    using s fs_inv_same [OF f0] fs_store_same [OF f0] node_at_fnodes [OF f0] by simp_all
  obtain w rr s1 where w: "writeAndSync q r n s0 = (w, rr, s1)" using prod_cases3 by blast
  note ww = writeAndSync_out [OF w fs_inv_wf [OF i0(1)] q(3)]
  have i1: "fs_inv root K s1" "fs_store root K s1 = fs_store root K s"
    using fs_install_tmp [OF i0(1) ww(1) q(1,2)] ww(2) i0(2) by auto
  have other: "node_at s1 p = Some x" if "p \<noteq> q" "node_at s p = Some x" for p x
    using ww(2) that i0(3) node_at_fnodes [of s1 s0] by (auto simp: installs_def)
  show ?thesis
  proof (cases w)
    case (Inl e)
    have "c' = PutDone (Inl e)" "l' = l" "s' = snd (os_remove q s1)"
      using st rs w Inl by (simp_all add: q_def Let_def)
    moreover have "step_ok root K (RqPut k r n t) i (PutSpool (kpath root k) r n t) l s (PutDone (Inl e)) l
        (snd (os_remove q s1))"
      by (rule refuse_ok [OF s i1 _ q(1,2)]) (use other nx l ww(4) Inl in auto)
    ultimately show ?thesis by simp
  next
    case (Inr etag)
    note wv = ww(3) [OF Inr]
    have c': "c' = PutWait (kpath root k) q etag t" "l' = l" "s' = s1"
      using st rs w Inr by (simp_all add: q_def Let_def)
    have "owns root (RqPut k r n t) s1 (kpath root k) q etag t"
      using wv q by (auto simp: owns_def installs_def)
    moreover have "frame root K (RqPut k r n t) i (Some q) l s l s1"
      using other i1(2) by (auto simp: frame_def)
    ultimately show ?thesis using c' i1 l nx by (auto simp: step_ok_def)
  qed
qed

lemma wait_ok:
  assumes s: "fs_inv root K s" and own: "owns root q s p tmp etag t" and l: "l \<noteq> Some i"
    and st: "call_step root i (PutWait p tmp etag t) l s = Some (c', l', s')"
  shows "step_ok root K q i (PutWait p tmp etag t) l s c' l' s'"
proof -
  have "c' = PutCheck p tmp etag t" "l = None" "l' = Some i" "s' = s"
    using st by (auto split: if_splits)
  moreover have "frame root K q i (Some tmp) None s (Some i) s" by (simp add: frame_def)
  ultimately show ?thesis using s own by (auto simp: step_ok_def)
qed

lemma check_ok:
  assumes s: "fs_inv root K s" and k: "k \<in> K" and own: "owns root (RqPut k r n t') s p tmp etag t"
    and l: "l = Some i" and st: "call_step root i (PutCheck p tmp etag t) l s = Some (c', l', s')"
  shows "step_ok root K (RqPut k r n t') i (PutCheck p tmp etag t) l s c' l' s'"
proof -
  have p: "p = kpath root k" "t' = t" "tmp_named tmp" "tmp \<noteq> root" using own by (auto simp: owns_def)
  obtain x s1 where ch: "checkIfMatch p t s = (x, s1)" by fastforce
  note cc = checkIfMatch_out [OF ch fs_inv_wf [OF s]]
  have i1: "fs_inv root K s1" "fs_store root K s1 = fs_store root K s" "node_at s1 = node_at s"
    using s fs_inv_same [OF cc(1)] fs_store_same [OF cc(1)] node_at_fnodes [OF cc(1)] by simp_all
  show ?thesis
  proof (cases x)
    case (Some e)
    then have "c' = PutDone (Inl e)" "l' = None" "s' = snd (os_remove tmp s1)" using st ch by simp_all
    moreover have "step_ok root K (RqPut k r n t') i (PutCheck p tmp etag t) l s (PutDone (Inl e)) None
        (snd (os_remove tmp s1))"
      by (rule refuse_ok [OF s i1(1,2) _ p(3,4)])
        (use cc(3) [OF Some] tree_cond_precond [OF s k] p i1(3) l in auto)
    ultimately show ?thesis by simp
  next
    case None
    then have c': "c' = PutCommit p tmp etag t" "l' = l" "s' = s1" using st ch by simp_all
    have "frame root K (RqPut k r n t') i (Some tmp) l s l s1" using i1 by (simp add: frame_def)
    moreover have "precond sha256hex (fs_store root K s k) t"
      using cc(2) [OF None] tree_cond_precond [OF s k] p by simp
    moreover have "owns root (RqPut k r n t') s1 p tmp etag t" using own i1(3) by (simp add: owns_def)
    ultimately show ?thesis using c' i1 l by (auto simp: step_ok_def)
  qed
qed

lemma commit_ok:
  assumes s: "fs_inv root K s" and k: "k \<in> K" and own: "owns root (RqPut k r n t') s p tmp etag t"
    and l: "l = Some i" and pre: "precond sha256hex (fs_store root K s k) t"
    and st: "call_step root i (PutCommit p tmp etag t) l s = Some (c', l', s')"
  shows "step_ok root K (RqPut k r n t') i (PutCommit p tmp etag t) l s c' l' s'"
proof -
  have p: "p = kpath root k" "t' = t" "tmp_named tmp" "tmp \<noteq> root" using own by (auto simp: owns_def)
  obtain t0 where t0: "node_at s tmp = Some (RegF (fst (readAll r)) t0)" using own by (auto simp: owns_def)
  have nq: "tmp \<noteq> p" using p kpath_not_tmp fs_inv_plain [OF s k] by blast
  obtain x s1 where cm: "commit tmp p (ifAbsent t) s = (x, s1)" by fastforce
  note cc = commit_out [OF cm fs_inv_wf [OF s] nq _ t0, unfolded p(1), OF kpath_not_Nil]
  show ?thesis
  proof (cases x)
    case (Some e)
    have f: "fnodes s1 = fnodes s" by (rule cc(3) [OF Some])
    have i1: "fs_inv root K s1" "fs_store root K s1 = fs_store root K s" "node_at s1 = node_at s"
      using s fs_inv_same [OF f] fs_store_same [OF f] node_at_fnodes [OF f] by simp_all
    have "c' = PutDone (Inl e)" "l' = None" "s' = snd (os_remove tmp s1)" using st cm Some by simp_all
    moreover have "errIs e ErrPreconditionFailed \<Longrightarrow> \<not> precond sha256hex (fs_store root K s k) t"
      using cc(4) [OF Some] ifAbsent_cond [of t s "kpath root k"] tree_cond_precond [OF s k] by auto
    then have "step_ok root K (RqPut k r n t') i (PutCommit p tmp etag t) l s (PutDone (Inl e)) None
        (snd (os_remove tmp s1))"
      by (intro refuse_ok [OF s i1(1,2) _ p(3,4)]) (use p i1(3) l in auto)
    ultimately show ?thesis by simp
  next
    case None
    have c': "c' = PutDone (Inr etag)" "l' = None" "s' = s1" using st cm None by simp_all
    have nodes: "node_at s1 = (node_at s)(kpath root k \<mapsto> RegF (fst (readAll r)) t0, tmp := None)
        \<or> node_at s1 = (node_at s)(kpath root k \<mapsto> RegF (fst (readAll r)) t0)"
      using cc(2) [OF None] by blast
    note ic = fs_inv_commit [OF s cc(1) k p(3,4) nodes]
    have "tmp_named q \<Longrightarrow> q \<noteq> kpath root k" for q
      using kpath_not_tmp fs_inv_plain [OF s k] by blast
    then have "frame root K (RqPut k r n t') i (Some tmp) l s None s1"
      using nodes l ic(2) by (auto simp: frame_def)
    moreover have "readAll r = (fst (readAll r), None)"
      using own by (cases "readAll r") (simp add: owns_def)
    then have "put_spec sha256hex (fs_store root K s) k r n t' (Inr etag) (fs_store root K s1)"
      using own pre p(2) ic(2) unfolding put_spec_def by (auto simp: owns_def)
    ultimately show ?thesis using c' ic(1) l by (auto simp: step_ok_def)
  qed
qed

lemma put_step_ok:
  assumes s: "fs_inv root K s" and k: "rq_key q \<in> K" and ok: "call_ok root K q i l s c"
    and st: "call_step root i c l s = Some (c', l', s')" and q: "q = RqPut k r n t"
    and c: "effect c = None"
  shows "step_ok root K q i c l s c' l' s'"
proof -
  have k: "k \<in> K" using k q by simp
  show ?thesis
  proof (cases c)
    case PutInit
    then show ?thesis using init_ok [OF s k] ok st q by auto
  next
    case PutSpool
    then show ?thesis using spool_ok [OF s k] ok st q by auto
  next
    case PutWait
    then show ?thesis using wait_ok [OF s] ok st q by auto
  next
    case PutCheck
    then show ?thesis using check_ok [OF s k] ok st q by auto
  next
    case PutCommit
    then show ?thesis using commit_ok [OF s k] ok st q by auto
  qed (use ok st q c in auto)
qed

section \<open>The steps of a Delete\<close>

lemma remove_file_ok:
  assumes s: "fs_inv root K s" and k: "k \<in> K" and l: "l \<noteq> Some i"
    and st: "call_step root i (DelInit k) l s = Some (c', l', s')"
  shows "step_ok root K (RqDelete k) i (DelInit k) l s c' l' s'"
proof -
  obtain r s1 where o: "os_remove (kpath root k) s = (r, s1)" by fastforce
  note oo = os_remove_out [OF o fs_inv_wf [OF s]]
  show ?thesis
  proof (cases r)
    case (Inl e)
    note f = oo(2) [OF Inl]
    have same: "fs_inv root K s1" "fs_store root K s1 = fs_store root K s" "node_at s1 = node_at s"
      using fs_inv_same [OF f] fs_store_same [OF f] node_at_fnodes [OF f] s by simp_all
    have "e = ENOENT \<Longrightarrow> fs_store root K s k = None"
      using oo(4) Inl fs_store_Some [OF s k] by auto
    moreover have "c' = DelDone (Inl (if isErrNotExist (EOS e) then ErrNotFound
        else EWrap ''objectstore/fs: remove'' (EOS e)))" "l' = l" "s' = s1"
      using st fs_inv_keyPath [OF s k] o Inl by simp_all
    moreover have "frame root K (RqDelete k) i None l s l s1" using same by (simp add: frame_def)
    ultimately show ?thesis
      using same l by (auto simp: step_ok_def delete_spec_def isErrNotExist_def split: if_splits oserr.splits)
  next
    case (Inr u)
    note r = oo(3) [OF Inr]
    note upd = fs_inv_key_update [OF s oo(1) k, of None]
    have c': "c' = DelPrune (butlast (kpath root k))" "l' = l" "s' = s1"
      using st fs_inv_keyPath [OF s k] o Inr by simp_all
    have store: "fs_inv root K s1" "fs_store root K s1 = (fs_store root K s)(k := None)"
      using upd r by simp_all
    have "tmp_named p \<Longrightarrow> p \<noteq> kpath root k" for p using kpath_not_tmp fs_inv_plain [OF s k] by blast
    then have "frame root K (RqDelete k) i None l s l s1" using r store(2) by (auto simp: frame_def)
    moreover have "fs_store root K s k \<noteq> None" using r fs_store_Some [OF s k] by simp
    ultimately show ?thesis
      using c' store l prefix_butlast_kpath strict_prefix_butlast_kpath
      by (auto simp: step_ok_def delete_spec_def)
  qed
qed

lemma prune_parent_ok:
  assumes s: "fs_inv root K s" and k: "rq_key q \<in> K" and ok: "call_ok root K q i l s (DelPrune d)"
    and st: "call_step root i (DelPrune d) l s = Some (c', l', s')"
  shows "step_ok root K q i (DelPrune d) l s c' l' s'"
proof (cases "d = root \<or> d = []")
  case True
  then show ?thesis using st s ok by (auto simp: step_ok_def frame_def)
next
  case False
  have d: "strict_prefix root d" "strict_prefix d (kpath root (rq_key q))"
    using ok False by (auto simp: strict_prefix_def)
  obtain r s1 where o: "os_remove d s = (r, s1)" by fastforce
  note oo = os_remove_out [OF o fs_inv_wf [OF s]]
  have keep: "fs_inv root K s1" "fs_store root K s1 = fs_store root K s"
    using prune_step_keeps [OF s k d o] by (simp_all add: prune_keeps_def)
  have "\<not> tmp_named d"
    using prefix_kpath_not_tmp [OF fs_inv_plain [OF s k] _ d(1)] d(2) by (simp add: strict_prefix_def)
  then have nodes: "tmp_named p \<Longrightarrow> node_at s p = Some n \<Longrightarrow> node_at s1 p = Some n" for p n
    using oo(2,3) node_at_fnodes [of s1 s] by (cases r) auto
  have fr: "frame root K q i None l s l s1" using nodes keep by (simp add: frame_def)
  show ?thesis
  proof (cases r)
    case (Inl e)
    then show ?thesis using st False o keep fr ok by (auto simp: step_ok_def)
  next
    case (Inr u)
    have "prefix root (butlast d)" "strict_prefix (butlast d) (kpath root (rq_key q))"
      using d prefix_order.le_less_trans [OF prefixeq_butlast]
      by (auto simp: strict_prefix_def prefix_def butlast_append)
    then show ?thesis using st False o Inr keep fr ok by (auto simp: step_ok_def)
  qed
qed

section \<open>The steps of a Get\<close>

lemma tag_ok:
  assumes s: "fs_inv root K s" and k: "k \<in> K" and l: "l \<noteq> Some i"
    and st: "call_step root i (GetInit k) l s = Some (c', l', s')"
  shows "step_ok root K (RqGet k) i (GetInit k) l s c' l' s'"
proof -
  obtain r s1 where e: "fileETag (kpath root k) s = (r, s1)" by fastforce
  note ee = fileETag_key_out [OF s k e]
  have same: "fs_inv root K s1" "fs_store root K s1 = fs_store root K s" "node_at s1 = node_at s"
    using fs_inv_same [OF ee(1)] fs_store_same [OF ee(1)] node_at_fnodes [OF ee(1)] s by simp_all
  have fr: "frame root K (RqGet k) i None l s l s1" using same by (simp add: frame_def)
  show ?thesis
  proof (cases r)
    case (Inl x)
    then show ?thesis
      using st fs_inv_keyPath [OF s k] e ee(3,4) same fr l
      by (auto simp: step_ok_def get_spec_def)
  next
    case (Inr etag)
    then show ?thesis
      using st fs_inv_keyPath [OF s k] e ee(2) same fr l by (auto simp: step_ok_def)
  qed
qed

lemma open_ok:
  assumes s: "fs_inv root K s" and k: "rq_key q \<in> K" and ok: "call_ok root K q i l s (GetOpen p etag)"
    and st: "call_step root i (GetOpen p etag) l s = Some (c', l', s')"
  shows "step_ok root K q i (GetOpen p etag) l s c' l' s'"
proof -
  obtain k where q: "q = RqGet k" "p = kpath root k" "l \<noteq> Some i"
      and tag: "\<forall>v. fs_store root K s k = Some v \<longrightarrow> etag = sha256hex v"
    using ok by auto
  have kK: "k \<in> K" using k q by simp
  obtain r s1 where o: "os_open (kpath root k) s = (r, s1)" by fastforce
  note oo = open_key_out [OF s kK o]
  have same: "fs_inv root K s1" "fs_store root K s1 = fs_store root K s" "node_at s1 = node_at s"
    using fs_inv_same [OF oo(1)] fs_store_same [OF oo(1)] node_at_fnodes [OF oo(1)] s by simp_all
  have fr: "frame root K q i None l s l s1" using same q by (simp add: frame_def)
  show ?thesis
  proof (cases r)
    case (Inl e)
    then show ?thesis
      using st o oo(3) same fr q
      by (auto simp: step_ok_def get_spec_def isErrNotExist_def split: oserr.splits)
  next
    case (Inr h)
    then obtain v where "h = FReg v" "fs_store root K s k = Some v" using oo(2) by blast
    then show ?thesis using st o Inr same fr q tag by (auto simp: step_ok_def get_spec_def)
  qed
qed

section \<open>The steps of a GetRange and of a Stat\<close>

lemma range_ok:
  assumes s: "fs_inv root K s" and q: "rq_ok K (RqRange k off len)" and l: "l \<noteq> Some i"
    and st: "call_step root i (RangeInit k off len) l s = Some (c', l', s')"
  shows "step_ok root K (RqRange k off len) i (RangeInit k off len) l s c' l' s'"
proof -
  obtain res s1 where g: "fs_getRange root ctx_background k off len s = (res, s1)" by fastforce
  have kK: "k \<in> K" "is_i64 off" "is_i64 len" using q by simp_all
  note gg = fs_getRange_ok [OF s kK g]
  have same: "fs_inv root K s1" "fs_store root K s1 = fs_store root K s" "node_at s1 = node_at s"
    using fs_inv_same [OF gg(1)] fs_store_same [OF gg(1)] node_at_fnodes [OF gg(1)] s by simp_all
  then have "frame root K (RqRange k off len) i None l s l s1" by (simp add: frame_def)
  then show ?thesis using st g gg(2) same l by (auto simp: step_ok_def)
qed

lemma stat_ok:
  assumes s: "fs_inv root K s" and k: "k \<in> K" and l: "l \<noteq> Some i"
    and st: "call_step root i (StatInit k) l s = Some (c', l', s')"
  shows "step_ok root K (RqStat k) i (StatInit k) l s c' l' s'"
proof -
  obtain r s1 where o: "os_stat (kpath root k) s = (r, s1)" by fastforce
  note oo = os_stat_out [OF o]
  have same: "fs_inv root K s1" "fs_store root K s1 = fs_store root K s" "node_at s1 = node_at s"
    using fs_inv_same [OF oo(1)] fs_store_same [OF oo(1)] node_at_fnodes [OF oo(1)] s by simp_all
  have fr: "frame root K (RqStat k) i None l s l s1" using same by (simp add: frame_def)
  show ?thesis
  proof (cases r)
    case (Inl x)
    have "x = ENOENT \<Longrightarrow> fs_store root K s k = None"
      using oo(3) [OF fs_inv_wf [OF s]] Inl k by (simp add: fs_store_def file_at_def)
    then show ?thesis
      using st fs_inv_keyPath [OF s k] o Inl same fr l
      by (auto simp: step_ok_def stat_spec_def isErrNotExist_def split: oserr.splits)
  next
    case (Inr n)
    then obtain v t where n: "n = RegF v t" "node_at s (kpath root k) = Some n"
      using oo(2) fs_inv_key_node [OF s k] by auto
    then have "fs_store root K s k = Some v" using k by (simp add: fs_store_def file_at_def)
    then show ?thesis
      using st fs_inv_keyPath [OF s k] o Inr n(1) same fr l by (auto simp: step_ok_def)
  qed
qed

lemma stat_tag_ok:
  assumes s: "fs_inv root K s" and k: "k \<in> K" and ok: "call_ok root K q i l s (StatTag k p sz t)"
    and st: "call_step root i (StatTag k p sz t) l s = Some (c', l', s')"
  shows "step_ok root K q i (StatTag k p sz t) l s c' l' s'"
proof -
  have q: "q = RqStat k" "p = kpath root k" "l \<noteq> Some i"
    and sz: "\<forall>v. fs_store root K s k = Some v \<longrightarrow> sz = int (length v)"
    using ok by auto
  obtain r s1 where e: "fileETag (kpath root k) s = (r, s1)" by fastforce
  note ee = fileETag_key_out [OF s k e]
  have same: "fs_inv root K s1" "fs_store root K s1 = fs_store root K s" "node_at s1 = node_at s"
    using fs_inv_same [OF ee(1)] fs_store_same [OF ee(1)] node_at_fnodes [OF ee(1)] s by simp_all
  have fr: "frame root K q i None l s l s1" using same q by (simp add: frame_def)
  show ?thesis
  proof (cases r)
    case (Inl x)
    then show ?thesis
      using st e q ee(4) same fr by (auto simp: step_ok_def stat_spec_def)
  next
    case (Inr etag)
    then obtain v where "etag = sha256hex v" "fs_store root K s k = Some v" using ee(2) by blast
    then show ?thesis
      using st e q Inr sz same fr by (auto simp: step_ok_def stat_spec_def info_ok_def)
  qed
qed

lemma call_step_ok:
  assumes s: "fs_inv root K s" and r: "rq_ok K q" and k: "rq_key q \<in> K" and ok: "call_ok root K q i l s c"
    and st: "call_step root i c l s = Some (c', l', s')"
  shows "step_ok root K q i c l s c' l' s'"
proof (cases c)
  case DelInit
  then show ?thesis using remove_file_ok [OF s] k ok st by auto
next
  case DelPrune
  then show ?thesis using prune_parent_ok [OF s k] ok st by auto
next
  case GetInit
  then show ?thesis using tag_ok [OF s] k ok st by auto
next
  case GetOpen
  then show ?thesis using open_ok [OF s k] ok st by auto
next
  case RangeInit
  then show ?thesis using range_ok [OF s] r ok st by auto
next
  case StatInit
  then show ?thesis using stat_ok [OF s] k ok st by auto
next
  case StatTag
  then show ?thesis using stat_tag_ok [OF s] k ok st by auto
next
  case PutWait
  then show ?thesis using wait_ok [OF s] ok st by auto
next
  case PutCheck
  then show ?thesis using ok owns_put put_step_ok [OF s k ok st] by fastforce
next
  case PutCommit
  then show ?thesis using ok owns_put put_step_ok [OF s k ok st] by fastforce
next
  case PutInit
  then show ?thesis using ok put_step_ok [OF s k ok st] by simp
next
  case PutSpool
  then show ?thesis using ok put_step_ok [OF s k ok st] by auto
qed (use st in simp_all)

section \<open>The refinement\<close>

lemma cf_step_refines:
  assumes "cf_step root x y" and inv: "cf_inv root K reqs x"
  shows "cf_inv root K reqs y \<and> (cf_abs root K y = cf_abs root K x
    \<or> lin_step reqs (cf_abs root K x) (cf_abs root K y))"
  using assms(1)
proof cases
  case (Step i c' l' s')
  have len: "length (cfCalls x) = length reqs" and i: "i < length reqs"
    using inv Step(2) by (simp_all add: cf_inv_def)
  have "rq_ok K (reqs ! i)" using inv i by (simp add: cf_inv_def list_all_length)
  with inv i have so: "step_ok root K (reqs ! i) i (cfCalls x ! i) (cfLock x) (cfFs x) c' l' s'"
    by (intro call_step_ok [OF _ _ rq_ok_key _ Step(4)]) (auto simp: cf_inv_def list_all_length)
  then obtain own where own: "frame root K (reqs ! i) i own (cfLock x) (cfFs x) l' s'" "tmp_of c' \<in> {None, own}"
      "own \<in> {None, tmp_of (cfCalls x ! i), tmp_next (cfFs x) (cfCalls x ! i)}"
    by (auto simp: step_ok_def)
  have foreign: "tmp_of (cfCalls x ! j) \<noteq> Some p"
    if "tmp_of c' = Some p \<or> own = Some p" "j < length reqs" "j \<noteq> i" for p j
  proof -
    have "own = Some p" using that(1) own(2) by auto
    then consider "tmp_of (cfCalls x ! i) = Some p" | "tmp_next (cfFs x) (cfCalls x ! i) = Some p"
      using own(3) by auto
    then show ?thesis
    proof cases
      case 1
      then show ?thesis using cf_inv_tmp [OF inv i that(2)] that(3) by blast
    next
      case 2
      then show ?thesis using Step(3) that(2) len by (simp add: no_collision_def list_all_length)
    qed
  qed
  have "cf_inv root K reqs y"
    unfolding Step(1)
    by (rule cf_inv_update [OF inv i _ own(1) _ foreign]) (use so in \<open>simp_all add: step_ok_def\<close>)
  moreover have "cf_abs root K y = cf_abs root K x \<or> lin_step reqs (cf_abs root K x) (cf_abs root K y)"
  proof (cases "effect c' = effect (cfCalls x ! i)")
    case True
    then have "map effect ((cfCalls x)[i := c']) = map effect (cfCalls x)"
      by (simp add: map_update list_update_same_conv len i)
    then show ?thesis using so True by (simp add: cf_abs_def Step(1) step_ok_def)
  next
    case False
    then have an: "effect (cfCalls x ! i) = None"
        "answers (reqs ! i) (fs_store root K (cfFs x)) (the (effect c')) (fs_store root K s')"
      using so by (simp_all add: step_ok_def)
    then have "Some (the (effect c')) = effect c'" using False by auto
    moreover have "map effect (cfCalls x) ! i = None" using an(1) i len by simp
    ultimately show ?thesis
      using lin_step.Effect [OF i _ an(2)] by (simp add: cf_abs_def Step(1) map_update)
  qed
  ultimately show ?thesis by blast
qed

interpretation calls: refinement_map "cf_step root" "lin_step reqs" "cf_inv root K reqs" "cf_abs root K"
  for root K reqs
  by unfold_locales (use cf_step_refines in blast)+

section \<open>Progress\<close>

text \<open>
  The mutex is held by the one call inside the critical section. Calls block only for it, and its
  holder never blocks.
\<close>

fun critical :: "call \<Rightarrow> bool" where
  "critical (PutCheck p tmp etag t) = True"
| "critical (PutCommit p tmp etag t) = True"
| "critical c = False"

fun finished :: "call \<Rightarrow> bool" where
  "finished (PutDone res) = True"
| "finished (DelDone res) = True"
| "finished (GetDone res) = True"
| "finished (RangeDone res) = True"
| "finished (StatDone res) = True"
| "finished c = False"

definition lock_inv :: "cfs \<Rightarrow> bool" where
  "lock_inv x \<longleftrightarrow> (\<forall>i < length (cfCalls x). critical (cfCalls x ! i) \<longleftrightarrow> cfLock x = Some i)
     \<and> (\<forall>i. cfLock x = Some i \<longrightarrow> i < length (cfCalls x))"

lemma call_step_lock:
  "call_step root i c l s = Some (c', l', s') \<Longrightarrow>
     (if critical c then l' = (if critical c' then l else None)
      else if critical c' then l = None \<and> l' = Some i else l' = l)"
  by (cases c) (auto simp: Let_def split: sum.splits prod.splits option.splits if_splits)

lemma cf_step_lock: "cf_step root x y \<Longrightarrow> lock_inv x \<Longrightarrow> lock_inv y \<and> length (cfCalls y) = length (cfCalls x)"
proof (induction rule: cf_step.induct)
  case (Step i x c l s)
  then show ?case
    using call_step_lock [OF Step(3)]
    by (auto simp: lock_inv_def nth_list_update split: if_splits)
qed

lemma cf_run_lock:
  "(cf_step root)\<^sup>*\<^sup>* (cf_start reqs s) x \<Longrightarrow> lock_inv x \<and> length (cfCalls x) = length reqs"
proof (induction rule: rtranclp_induct)
  case base
  have "\<not> critical (rq_init q)" for q by (cases q) simp_all
  then show ?case by (simp add: lock_inv_def cf_start_def)
next
  case (step y z)
  then show ?case using cf_step_lock by fastforce
qed

lemma call_blocked: "call_step root i c l s = None \<Longrightarrow> finished c \<or> l \<noteq> None \<and> \<not> critical c"
  by (cases c) (auto simp: Let_def split: sum.splits prod.splits option.splits if_splits)

lemma critical_unfinished: "critical c \<Longrightarrow> \<not> finished c"
  by (cases c) auto

lemma cf_progress:
  assumes inv: "lock_inv x" and i: "i < length (cfCalls x)" and "\<not> finished (cfCalls x ! i)"
    and free: "\<forall>j < length (cfCalls x). no_collision j x"
  shows "\<exists>y. cf_step root x y"
proof -
  have moves: "\<exists>y. cf_step root x y"
    if "j < length (cfCalls x)" "call_step root j (cfCalls x ! j) (cfLock x) (cfFs x) \<noteq> None" for j
    using that free cf_step.Step [of j x] by fastforce
  show ?thesis
  proof (cases "cfLock x")
    case None
    then show ?thesis using moves [OF i] call_blocked assms(3) by blast
  next
    case (Some j)
    then have j: "j < length (cfCalls x)" "critical (cfCalls x ! j)" using inv by (simp_all add: lock_inv_def)
    then show ?thesis using moves [OF j(1)] call_blocked critical_unfinished by blast
  qed
qed

text \<open>How many steps a call has left at most.\<close>

fun steps_left :: "path \<Rightarrow> call \<Rightarrow> nat" where
  "steps_left root (PutInit k r n t) = 5"
| "steps_left root (PutSpool p r n t) = 4"
| "steps_left root (PutWait p tmp etag t) = 3"
| "steps_left root (PutCheck p tmp etag t) = 2"
| "steps_left root (PutCommit p tmp etag t) = 1"
| "steps_left root (DelInit k) = (case keyPath root k of Inl e \<Rightarrow> 1 | Inr p \<Rightarrow> length p + 2)"
| "steps_left root (DelPrune d) = length d + 1"
| "steps_left root (GetInit k) = 2"
| "steps_left root (GetOpen p etag) = 1"
| "steps_left root (RangeInit k off len) = 1"
| "steps_left root (StatInit k) = 2"
| "steps_left root (StatTag k p sz t) = 1"
| "steps_left root c = 0"

lemma call_step_works: "call_step root i c l s = Some (c', l', s') \<Longrightarrow> steps_left root c' < steps_left root c"
  by (cases c) (auto simp: Let_def split: sum.splits prod.splits option.splits if_splits)

definition all_left :: "path \<Rightarrow> call list \<Rightarrow> nat" where
  "all_left root cs = sum_list (map (steps_left root) cs)"

lemma cf_step_works: "cf_step root x y \<Longrightarrow> all_left root (cfCalls y) < all_left root (cfCalls x)"
proof (induction rule: cf_step.induct)
  case (Step i x c l s)
  then show ?case
    using sum_list_update_less [OF Step(1), of "steps_left root" c] call_step_works by (simp add: all_left_def)
qed

lemma cf_run_works: "(cf_step root ^^ n) x y \<Longrightarrow> n + all_left root (cfCalls y) \<le> all_left root (cfCalls x)"
proof (induction n arbitrary: y)
  case (Suc n)
  then obtain z where "(cf_step root ^^ n) x z" "cf_step root z y" by auto
  then show ?case using Suc.IH cf_step_works [of root z y] by fastforce
qed simp

end
