(* ===== verification/FSConcCorrect.thy ===== *)
theory FSConcCorrect
  imports FSConcProps FSCorrect DigestTest
begin

text \<open>
  Concurrent calls on the filesystem backend as properties: any number of concurrent calls among
  which no two conflict are linearizable, they never deadlock and end, of several writes that create
  the same key one wins; and the conflicts, which the mutex of the code does not exclude because
  Delete, Get and Stat do not take it.
\<close>

section \<open>Concurrent calls\<close>

lemma calls_linearize:
  assumes "fs_inv root K s" and "list_all (rq_ok K) reqs" and "race_free reqs"
    and "(cf_step root)\<^sup>*\<^sup>* (cf_start reqs s) x"
  shows "cf_inv root K reqs x"
    and "(lin_step reqs)\<^sup>*\<^sup>* (fs_store root K s, replicate (length reqs) None)
      (fs_store root K (cfFs x), map effect (cfCalls x))"
proof -
  have "effect (rq_init q) = None" for q by (cases q) simp_all
  then have "cf_abs root K (cf_start reqs s) = (fs_store root K s, replicate (length reqs) None)"
    by (simp add: cf_abs_def cf_start_def comp_def map_replicate_const)
  then show "cf_inv root K reqs x" "(lin_step reqs)\<^sup>*\<^sup>* (fs_store root K s, replicate (length reqs) None)
      (fs_store root K (cfFs x), map effect (cfCalls x))"
    using calls.runs [OF assms(4) cf_inv_start [OF assms(1-3)]] by (simp_all add: cf_abs_def)
qed

text \<open>
  C9. Concurrent calls are linearizable: for any number of Puts (or PutStreams) with any
  preconditions, Deletes and Gets on any keys, among which no Delete meets a compare-and-swap and
  no Put meets a Get of the same key, every interleaving of their system calls and of the mutex, and
  every fault: the answers so far given, and the directory, are those of a sequence of atomic calls
  of the sequential specification, one per call; and what happens later follows it, so a call that
  has answered comes before every call that has not begun. The invariant of the directory holds at
  every step, so a process that is killed at any point leaves whole objects and no half-done call.
\<close>

theorem conc_calls_linearizable:
  assumes "fs_inv root K s" and "list_all (rq_ok K) reqs" and "race_free reqs"
    and "(cf_step root)\<^sup>*\<^sup>* (cf_start reqs s) x" and "(cf_step root)\<^sup>*\<^sup>* x y"
  shows "(lin_step reqs)\<^sup>*\<^sup>* (fs_store root K s, replicate (length reqs) None)
      (fs_store root K (cfFs x), map effect (cfCalls x))
    \<and> (lin_step reqs)\<^sup>*\<^sup>* (fs_store root K (cfFs x), map effect (cfCalls x))
      (fs_store root K (cfFs y), map effect (cfCalls y))
    \<and> fs_inv root K (cfFs y)"
proof -
  note lin = calls_linearize [OF assms(1-4)]
  have "cf_inv root K reqs y \<and> (lin_step reqs)\<^sup>*\<^sup>* (cf_abs root K x) (cf_abs root K y)"
    by (rule calls.runs [OF assms(5) lin(1)])
  then show ?thesis using lin(2) by (simp add: cf_abs_def cf_inv_def)
qed

text \<open>
  C10. Concurrent calls end, races or not: a run takes at most five steps for a Put, two for a Get,
  and one more than the depth of its file for a Delete; and as long as a call has not answered,
  some call can take a step, unless one is about to draw the suffix of a temporary file in use. In
  particular the mutex is never lost, whatever fails while it is held.
\<close>

theorem conc_calls_end:
  assumes "(cf_step root ^^ n) (cf_start reqs s) x"
  shows "n \<le> all_left root (map rq_init reqs)
    \<and> (list_all finished (cfCalls x) \<or> (\<exists>y. cf_step root x y) \<or> (\<exists>i < length reqs. \<not> no_collision i x))"
proof -
  have "lock_inv x" "length (cfCalls x) = length reqs"
    using cf_run_lock assms by (auto dest: relpowp_imp_rtranclp)
  then show ?thesis
    using cf_run_works [OF assms] cf_progress [of x _ root]
    by (fastforce simp: cf_start_def list_all_length)
qed

text \<open>What the specification implies: a created key stays while nobody deletes it, so it is created once.\<close>

definition creates :: "string \<Rightarrow> invocation \<Rightarrow> bool" where
  "creates k q \<longleftrightarrow> (\<exists>r n. q = RqPut k r n (Some ''''))"

definition wrote :: "answer option \<Rightarrow> bool" where
  "wrote a \<longleftrightarrow> (\<exists>e. a = Some (APut (Inr e)))"

lemma lin_created:
  assumes "(lin_step reqs)\<^sup>*\<^sup>* (st0, replicate (length reqs) None) z" and "RqDelete k \<notin> set reqs"
  shows "length (snd z) = length reqs
    \<and> (\<forall>i < length reqs. creates k (reqs ! i) \<and> wrote (snd z ! i) \<longrightarrow> fst z k \<noteq> None)
    \<and> (\<forall>i < length reqs. \<forall>j < length reqs. creates k (reqs ! i) \<and> wrote (snd z ! i)
        \<and> creates k (reqs ! j) \<and> wrote (snd z ! j) \<longrightarrow> i = j)"
  using assms(1)
proof (induction rule: rtranclp_induct)
  case base
  then show ?case by (simp add: wrote_def)
next
  case (step y z)
  from step(2) show ?case
  proof cases
    case (Effect i as st a st')
    have "reqs ! i \<noteq> RqDelete k" using Effect(3) assms(2) nth_mem by metis
    then have grows: "st k \<noteq> None \<Longrightarrow> st' k \<noteq> None"
      using Effect(5) by (cases "reqs ! i"; cases a) (auto simp: put_spec_def delete_spec_def split: sum.splits)
    have made: "creates k (reqs ! i) \<Longrightarrow> wrote (Some a) \<Longrightarrow> st' k \<noteq> None \<and> st k = None"
      using Effect(5) by (auto simp: creates_def wrote_def put_spec_def precond_def)
    have len: "length as = length reqs"
      and old: "\<forall>j < length reqs. creates k (reqs ! j) \<and> wrote (as ! j) \<longrightarrow> st k \<noteq> None"
      and one: "\<forall>i < length reqs. \<forall>j < length reqs. creates k (reqs ! i) \<and> wrote (as ! i)
        \<and> creates k (reqs ! j) \<and> wrote (as ! j) \<longrightarrow> i = j"
      using step(3) Effect(1) by simp_all
    have z: "fst z = st'" "snd z ! i = Some a" "j \<noteq> i \<Longrightarrow> snd z ! j = as ! j" for j
      using Effect(2,3) len by simp_all
    show ?thesis
    proof (intro conjI allI impI)
      show "length (snd z) = length reqs" using Effect(2) len by simp
    next
      fix j assume "j < length reqs" "creates k (reqs ! j) \<and> wrote (snd z ! j)"
      then show "fst z k \<noteq> None" using z old grows made by (cases "j = i") auto
    next
      fix j l
      assume "j < length reqs" "l < length reqs"
        "creates k (reqs ! j) \<and> wrote (snd z ! j) \<and> creates k (reqs ! l) \<and> wrote (snd z ! l)"
      then show "j = l" using z old one made by (cases "j = i"; cases "l = i") auto
    qed
  qed
qed

corollary one_creator:
  assumes "fs_inv root K s" and "list_all (rq_ok K) reqs" and "race_free reqs" and "RqDelete k \<notin> set reqs"
    and "(cf_step root)\<^sup>*\<^sup>* (cf_start reqs s) x"
    and "i < length reqs" "j < length reqs" and "creates k (reqs ! i)" "creates k (reqs ! j)"
    and "wrote (effect (cfCalls x ! i))" "wrote (effect (cfCalls x ! j))"
  shows "i = j"
proof -
  have "length (cfCalls x) = length reqs"
    using calls_linearize(1) [OF assms(1-3,5)] by (simp add: cf_inv_def)
  then show ?thesis
    using lin_created [OF calls_linearize(2) [OF assms(1-3,5)] assms(4)] assms(6-11) by simp
qed

section \<open>Races\<close>

definition ex_reader :: reader where
  "ex_reader = [([9], Some EEOF)]"

abbreviation ex_tag :: string where
  "ex_tag \<equiv> sha256hex [1, 2, 3]"

abbreviation ex_path :: path where
  "ex_path \<equiv> [''r'', ''a'', ''b'']"

abbreviation ex_tmp :: path where
  "ex_tmp \<equiv> [''r'', ''a'', ''b.tmp.0000000000000000'']"

text \<open>The root with the given files beside its two directories.\<close>

definition ex_tree :: "(path \<times> node) list \<Rightarrow> fsys" where
  "ex_tree fs = \<lparr>fnodes = [([''r''], DirN), ([''r'', ''a''], DirN)] @ fs,
     fnow = 5, fdirsize = 4096, ffaults = [], frand = []\<rparr>"

lemma ex_keyPath: "keyPath [''r''] ''a/b'' = Inr ex_path"
  using fs_inv_keyPath [OF ex_inv, of "''a/b''"] by (simp add: ex_root_def kpath_def ex_parts)

lemma ex_suffix: "hexEncode (replicate 8 0) = ''0000000000000000''"
  by code_simp

lemmas eval = ex_tree_def node_at_def set_node_def del_node_def has_children_def resolve_def with_fault_def
  os_mkdirAll_def os_mkdir_def os_create_def os_write_def os_sync_def os_close_def os_open_def os_remove_def
  os_rename_def os_link_def os_stat_def os_readAll_def writeAndSync_def checkIfMatch_def fileETag_def commit_def
  ifAbsent_def randSuffix_def draw_rand_def tmpPath_def ex_reader_def Let_def ex_keyPath ex_suffix

lemma step_init: "call_step [''r''] i (PutInit ''a/b'' ex_reader (- 1) t) l (ex_tree fs)
    = Some (PutSpool ex_path ex_reader (- 1) t, l, ex_tree fs)"
  by (simp add: eval)

lemma step_spool: "call_step [''r''] i (PutSpool ex_path ex_reader (- 1) t) l (ex_tree [(ex_path, RegF [1, 2, 3] 7)])
    = Some (PutWait ex_path ex_tmp (sha256hex [9]) t, l, ex_tree [(ex_path, RegF [1, 2, 3] 7), (ex_tmp, RegF [9] 5)])"
  by (simp add: eval)

lemma step_wait: "call_step [''r''] 0 (PutWait p tmp e t) None s = Some (PutCheck p tmp e t, Some 0, s)"
  by simp

lemma step_check_none: "call_step root i (PutCheck p tmp e None) l s = Some (PutCommit p tmp e None, l, s)"
  by (simp add: checkIfMatch_def)

lemma step_commit_over: "call_step [''r''] i (PutCommit ex_path ex_tmp e None) l
      (ex_tree [(ex_path, RegF [1, 2, 3] 7), (ex_tmp, RegF [9] 5)])
    = Some (PutDone (Inr e), None, ex_tree [(ex_path, RegF [9] 5)])"
  by (simp add: eval)

lemma step_tag: "call_step [''r''] i (GetInit ''a/b'') l (ex_tree [(ex_path, RegF [1, 2, 3] 7)])
    = Some (GetOpen ex_path ex_tag, l, ex_tree [(ex_path, RegF [1, 2, 3] 7)])"
  by (simp add: eval)

lemma step_open: "call_step [''r''] i (GetOpen ex_path e) l (ex_tree [(ex_path, RegF [9] 5)])
    = Some (GetDone (Inr (FileB (FReg [9]), e)), l, ex_tree [(ex_path, RegF [9] 5)])"
  by (simp add: eval)

lemma step_check: "call_step [''r''] i (PutCheck ex_path ex_tmp e (Some ex_tag)) l
      (ex_tree [(ex_path, RegF [1, 2, 3] 7), (ex_tmp, RegF [9] 5)])
    = Some (PutCommit ex_path ex_tmp e (Some ex_tag), l, ex_tree [(ex_path, RegF [1, 2, 3] 7), (ex_tmp, RegF [9] 5)])"
  by (simp add: eval)

lemma step_del: "call_step [''r''] i (DelInit ''a/b'') l (ex_tree [(ex_path, RegF [1, 2, 3] 7), (ex_tmp, RegF [9] 5)])
    = Some (DelPrune [''r'', ''a''], l, ex_tree [(ex_tmp, RegF [9] 5)])"
  by (simp add: eval)

lemma step_commit: "call_step [''r''] i (PutCommit ex_path ex_tmp e (Some ex_tag)) l (ex_tree [(ex_tmp, RegF [9] 5)])
    = Some (PutDone (Inr e), None, ex_tree [(ex_path, RegF [9] 5)])"
  by (simp add: eval)

lemma step_prune: "call_step [''r''] i (DelPrune [''r'', ''a'']) l (ex_tree [(ex_path, RegF [9] 5)])
    = Some (DelDone (Inr ()), l, ex_tree [(ex_path, RegF [9] 5)])"
  by (simp add: eval)

lemma step_stat: "call_step [''r''] i (StatInit ''a/b'') l (ex_tree [(ex_path, RegF [1, 2, 3] 7)])
    = Some (StatTag ''a/b'' ex_path 3 7, l, ex_tree [(ex_path, RegF [1, 2, 3] 7)])"
  by (simp add: eval)

lemma step_del_old: "call_step [''r''] i (DelInit ''a/b'') l (ex_tree [(ex_path, RegF [1, 2, 3] 7)])
    = Some (DelPrune [''r'', ''a''], l, ex_tree [])"
  by (simp add: eval)

lemma step_stat_tag: "call_step [''r''] i (StatTag ''a/b'' ex_path 3 7) l (ex_tree [])
    = Some (StatDone (Inl (EWrap ''objectstore/fs: etag'' (EOS ENOENT))), l, ex_tree [])"
  by (simp add: eval)

text \<open>The root alone.\<close>

definition ex_bare :: fsys where
  "ex_bare = \<lparr>fnodes = [([''r''], DirN)], fnow = 5, fdirsize = 4096, ffaults = [], frand = []\<rparr>"

lemma step_prune_bare: "call_step [''r''] i (DelPrune [''r'', ''a'']) l (ex_tree []) = Some (DelPrune [''r''], l, ex_bare)"
  by (simp add: eval ex_bare_def)

lemma step_spool_bare: "call_step [''r''] i (PutSpool ex_path ex_reader (- 1) t) l ex_bare
    = Some (PutDone (Inl (EWrap ''objectstore/fs: create'' (EOS ENOENT))), l, ex_bare)"
  by (simp add: eval ex_bare_def)

text \<open>A run of two calls.\<close>

definition two :: "call \<Rightarrow> call \<Rightarrow> nat option \<Rightarrow> fsys \<Rightarrow> cfs" where
  "two c d l s = \<lparr>cfFs = s, cfLock = l, cfCalls = [c, d]\<rparr>"

lemma run_fst:
  assumes "(cf_step root)\<^sup>*\<^sup>* (two c1 d l1 s1) x" and "call_step root 0 c l s = Some (c1, l1, s1)"
    and "tmp_of c = None" "tmp_of d = None"
  shows "(cf_step root)\<^sup>*\<^sup>* (two c d l s) x"
proof -
  have "cf_step root (two c d l s) (two c1 d l1 s1)"
    using Step [of 0 "two c d l s" root c1 l1 s1] assms(2-4)
    by (simp add: two_def no_collision_def split: option.split)
  then show ?thesis using assms(1) by (rule converse_rtranclp_into_rtranclp)
qed

lemma run_fst_tmp:
  assumes "(cf_step root)\<^sup>*\<^sup>* (two c1 d l1 s1) x" and "call_step root 0 c l s = Some (c1, l1, s1)"
    and "tmp_next s c = None"
  shows "(cf_step root)\<^sup>*\<^sup>* (two c d l s) x"
proof -
  have "cf_step root (two c d l s) (two c1 d l1 s1)"
    using Step [of 0 "two c d l s" root c1 l1 s1] assms(2,3) by (simp add: two_def no_collision_def)
  then show ?thesis using assms(1) by (rule converse_rtranclp_into_rtranclp)
qed

lemma run_snd:
  assumes "(cf_step root)\<^sup>*\<^sup>* (two c d1 l1 s1) x" and "call_step root 1 d l s = Some (d1, l1, s1)"
    and "tmp_next s d = None"
  shows "(cf_step root)\<^sup>*\<^sup>* (two c d l s) x"
proof -
  have "cf_step root (two c d l s) (two c d1 l1 s1)"
    using Step [of 1 "two c d l s" root d1 l1 s1] assms(2,3) by (simp add: two_def no_collision_def)
  then show ?thesis using assms(1) by (rule converse_rtranclp_into_rtranclp)
qed

abbreviation ex_old :: fsys where
  "ex_old \<equiv> ex_tree [(ex_path, RegF [1, 2, 3] 7)]"

abbreviation ex_new :: fsys where
  "ex_new \<equiv> ex_tree [(ex_path, RegF [9] 5)]"

lemma delete_race:
  "(cf_step [''r''])\<^sup>*\<^sup>* (two (PutInit ''a/b'' ex_reader (- 1) (Some ex_tag)) (DelInit ''a/b'') None ex_old)
    (two (PutDone (Inr (sha256hex [9]))) (DelDone (Inr ())) None ex_new)"
  by (rule run_fst, rule run_fst, rule run_fst_tmp, rule run_fst_tmp, rule run_snd, rule run_fst_tmp,
      rule run_snd, rule rtranclp.rtrancl_refl, rule step_prune, simp, rule step_commit, simp,
      rule step_del, simp, rule step_check, simp, rule step_wait, simp, rule step_spool, simp, simp,
      rule step_init, simp_all)

lemma get_race:
  "(cf_step [''r''])\<^sup>*\<^sup>* (two (PutInit ''a/b'' ex_reader (- 1) None) (GetInit ''a/b'') None ex_old)
    (two (PutDone (Inr (sha256hex [9]))) (GetDone (Inr (FileB (FReg [9]), ex_tag))) None ex_new)"
  by (rule run_snd, rule run_fst, rule run_fst, rule run_fst_tmp, rule run_fst_tmp, rule run_fst_tmp,
      rule run_snd, rule rtranclp.rtrancl_refl, rule step_open, simp, rule step_commit_over, simp,
      rule step_check_none, simp, rule step_wait, simp, rule step_spool, simp, simp,
      rule step_init, simp, simp, rule step_tag, simp)

lemma stat_race:
  "(cf_step [''r''])\<^sup>*\<^sup>* (two (StatInit ''a/b'') (DelInit ''a/b'') None ex_old)
    (two (StatDone (Inl (EWrap ''objectstore/fs: etag'' (EOS ENOENT)))) (DelPrune [''r'', ''a'']) None (ex_tree []))"
  by (rule run_fst, rule run_snd, rule run_fst, rule rtranclp.rtrancl_refl, rule step_stat_tag, simp, simp,
      rule step_del_old, simp, rule step_stat, simp_all)

lemma prune_race:
  "(cf_step [''r''])\<^sup>*\<^sup>* (two (PutInit ''a/b'' ex_reader (- 1) None) (DelInit ''a/b'') None ex_old)
    (two (PutDone (Inl (EWrap ''objectstore/fs: create'' (EOS ENOENT)))) (DelPrune [''r'']) None ex_bare)"
  by (rule run_fst, rule run_snd, rule run_snd, rule run_fst, rule rtranclp.rtrancl_refl, rule step_spool_bare,
      simp, simp, rule step_prune_bare, simp, rule step_del_old, simp, rule step_init, simp_all)

lemma ex_old_inv: "fs_inv [''r''] ex_keys ex_old" and ex_old_store: "fs_store [''r''] ex_keys ex_old = [''a/b'' \<mapsto> [1, 2, 3]]"
proof -
  have f: "ex_old = ex_fs" by (simp add: ex_tree_def ex_fs_def)
  show "fs_inv [''r''] ex_keys ex_old" using ex_inv unfolding f ex_root_def .
  show "fs_store [''r''] ex_keys ex_old = [''a/b'' \<mapsto> [1, 2, 3]]" using ex_store unfolding f ex_root_def .
qed

lemma ex_new_store: "fs_store [''r''] ex_keys ex_new ''a/b'' = Some [9]"
  by (simp add: fs_store_def kpath_def ex_parts file_at_def node_at_def ex_tree_def)

text \<open>
  C11. Four races that the mutex does not exclude. Delete does not take it: a compare-and-swap that
  has checked its tag, then a Delete of the object, then the commit: both calls succeed and the
  object is there, which neither order of the two calls explains. Get hashes the file and then
  opens it again: with a Put in between, it returns the new content under the old tag, which no
  state of the store explains. Stat looks at the file and then hashes it: with a Delete in
  between, and no fault, it fails with an error that is not ErrNotFound, where Get maps it. And the
  pruning of a Delete removes the directory that a Put has just made sure of: an unconditional Put
  of a good reader fails, without any fault.
\<close>

theorem fs_races:
  shows "(cf_step [''r''])\<^sup>*\<^sup>* (two (PutInit ''a/b'' ex_reader (- 1) (Some ex_tag)) (DelInit ''a/b'') None ex_old)
      (two (PutDone (Inr (sha256hex [9]))) (DelDone (Inr ())) None ex_new)
    \<and> \<not> (\<exists>m. put_spec sha256hex (fs_store [''r''] ex_keys ex_old) ''a/b'' ex_reader (- 1) (Some ex_tag)
            (Inr (sha256hex [9])) m \<and> delete_spec m ''a/b'' (Inr ()) (fs_store [''r''] ex_keys ex_new))
    \<and> \<not> (\<exists>m. delete_spec (fs_store [''r''] ex_keys ex_old) ''a/b'' (Inr ()) m
          \<and> put_spec sha256hex m ''a/b'' ex_reader (- 1) (Some ex_tag) (Inr (sha256hex [9]))
              (fs_store [''r''] ex_keys ex_new))
    \<and> (cf_step [''r''])\<^sup>*\<^sup>* (two (PutInit ''a/b'' ex_reader (- 1) None) (GetInit ''a/b'') None ex_old)
        (two (PutDone (Inr (sha256hex [9]))) (GetDone (Inr (FileB (FReg [9]), sha256hex [1, 2, 3]))) None ex_new)
    \<and> \<not> (\<exists>st. get_spec sha256hex body_bytes st ''a/b'' (Inr (FileB (FReg [9]), sha256hex [1, 2, 3])))
    \<and> (cf_step [''r''])\<^sup>*\<^sup>* (two (StatInit ''a/b'') (DelInit ''a/b'') None ex_old)
        (two (StatDone (Inl (EWrap ''objectstore/fs: etag'' (EOS ENOENT)))) (DelPrune [''r'', ''a'']) None (ex_tree []))
    \<and> (cf_step [''r''])\<^sup>*\<^sup>* (two (PutInit ''a/b'' ex_reader (- 1) None) (DelInit ''a/b'') None ex_old)
        (two (PutDone (Inl (EWrap ''objectstore/fs: create'' (EOS ENOENT)))) (DelPrune [''r'']) None ex_bare)
    \<and> ffaults ex_old = [] \<and> \<not> errIs (EWrap ''objectstore/fs: etag'' (EOS ENOENT)) ErrNotFound"
proof (intro conjI)
  show "\<not> (\<exists>m. put_spec sha256hex (fs_store [''r''] ex_keys ex_old) ''a/b'' ex_reader (- 1) (Some ex_tag)
            (Inr (sha256hex [9])) m \<and> delete_spec m ''a/b'' (Inr ()) (fs_store [''r''] ex_keys ex_new))"
    using ex_new_store by (auto simp: delete_spec_def)
  show "\<not> (\<exists>m. delete_spec (fs_store [''r''] ex_keys ex_old) ''a/b'' (Inr ()) m
          \<and> put_spec sha256hex m ''a/b'' ex_reader (- 1) (Some ex_tag) (Inr (sha256hex [9]))
              (fs_store [''r''] ex_keys ex_new))"
    by (auto simp: delete_spec_def put_spec_def precond_def)
  show "\<not> (\<exists>st. get_spec sha256hex body_bytes st ''a/b'' (Inr (FileB (FReg [9]), sha256hex [1, 2, 3])))"
    using sha256hex_differs by (auto simp: get_spec_def)
  show "ffaults ex_old = []" by (simp add: ex_tree_def)
  show "\<not> errIs (EWrap ''objectstore/fs: etag'' (EOS ENOENT)) ErrNotFound" by simp
qed (rule delete_race get_race stat_race prune_race)+

section \<open>Witnesses\<close>

text \<open>A compare-and-swap that has succeeded beside a creator that has not started.\<close>

lemma step_commit_cas: "call_step [''r''] i (PutCommit ex_path ex_tmp e (Some ex_tag)) l
      (ex_tree [(ex_path, RegF [1, 2, 3] 7), (ex_tmp, RegF [9] 5)])
    = Some (PutDone (Inr e), None, ex_tree [(ex_path, RegF [9] 5)])"
  by (simp add: eval)

text \<open>The run of a compare-and-swap, with a creator of the same key and a deletion of nothing.\<close>

abbreviation ex_reqs :: "invocation list" where
  "ex_reqs \<equiv> [RqPut ''a/b'' ex_reader (- 1) (Some ex_tag), RqPut ''a/b'' ex_reader (- 1) (Some '''')]"

abbreviation ex_won :: cfs where
  "ex_won \<equiv> two (PutDone (Inr (sha256hex [9]))) (PutInit ''a/b'' ex_reader (- 1) (Some '''')) None ex_new"

lemma ex_start: "cf_start ex_reqs ex_old
    = two (PutInit ''a/b'' ex_reader (- 1) (Some ex_tag)) (PutInit ''a/b'' ex_reader (- 1) (Some '''')) None ex_old"
  by (simp add: cf_start_def two_def)

lemma ex_cas_run: "(cf_step [''r''])\<^sup>*\<^sup>* (cf_start ex_reqs ex_old) ex_won"
  unfolding ex_start
  by (rule run_fst, rule run_fst, rule run_fst_tmp, rule run_fst_tmp, rule run_fst_tmp,
    rule rtranclp.rtrancl_refl, rule step_commit_cas, simp, rule step_check, simp, rule step_wait, simp,
    rule step_spool, simp, simp, rule step_init, simp_all)

lemma conc_calls_linearizable_witness:
  "cfCalls ex_won = [PutDone (Inr (sha256hex [9])), PutInit ''a/b'' ex_reader (- 1) (Some '''')]
    \<and> (lin_step ex_reqs)\<^sup>*\<^sup>* ([''a/b'' \<mapsto> [1, 2, 3]], [None, None])
        (fs_store [''r''] ex_keys ex_new, [Some (APut (Inr (sha256hex [9]))), None])"
proof -
  have "list_all (rq_ok ex_keys) ex_reqs" "race_free ex_reqs" by (simp_all add: race_free_def)
  note lin = conc_calls_linearizable [OF ex_old_inv this ex_cas_run rtranclp.rtrancl_refl]
  show ?thesis using conjunct1 [OF lin] by (simp add: two_def ex_old_store)
qed

lemma conc_calls_end_witness:
  "\<exists>n. n \<le> 10 \<and> (cf_step [''r''] ^^ n) (cf_start ex_reqs ex_old) ex_won \<and> (\<exists>y. cf_step [''r''] ex_won y)"
proof -
  obtain n where n: "(cf_step [''r''] ^^ n) (cf_start ex_reqs ex_old) ex_won"
    using rtranclp_imp_relpowp [OF ex_cas_run] by blast
  have "no_collision i ex_won" if "i < 2" for i
    using that by (auto simp: no_collision_def two_def less_2_cases_iff)
  then show ?thesis
    using conc_calls_end [OF n] n by (auto simp: all_left_def two_def)
qed

end
