(* ===== verification/Metering.thy ===== *)
theory Metering
  imports Prefixed "HOL-Library.Multiset"
begin

text \<open>
  metering.go: a bucket wrapper that counts requests and bytes under labels, in 64-bit
  counters that wrap. The wrapper is shown to keep the bucket contract, and the counters to
  account for every call and every byte.
\<close>

section \<open>Counters\<close>

record labelStats =
  PutBytes :: "64 word"
  PutCount :: "64 word"
  GetBytes :: "64 word"
  GetCount :: "64 word"
  ListCount :: "64 word"
  ListObjects :: "64 word"
  ListObjectBytes :: "64 word"

record stats =
  ByLabel :: "(string \<times> labelStats) list"
  TotalGet :: labelStats
  TotalPut :: labelStats
  TotalList :: labelStats

record labelCounters =
  putBytes :: "64 word"
  putCount :: "64 word"
  getBytes :: "64 word"
  getCount :: "64 word"
  listCount :: "64 word"
  listObjects :: "64 word"
  listObjectBytes :: "64 word"

text \<open>
  The label table is an association list: a Go map, in some order. A pointer to a label's
  counters is the label.
\<close>

type_synonym labels = "(string \<times> labelCounters) list"

record 's metered =
  mInner :: 's
  mLabels :: labels

definition labelStats0 :: labelStats where
  "labelStats0 = \<lparr>PutBytes = 0, PutCount = 0, GetBytes = 0, GetCount = 0, ListCount = 0,
     ListObjects = 0, ListObjectBytes = 0\<rparr>"

definition labelCounters0 :: labelCounters where
  "labelCounters0 = \<lparr>putBytes = 0, putCount = 0, getBytes = 0, getCount = 0, listCount = 0,
     listObjects = 0, listObjectBytes = 0\<rparr>"

definition newMetered :: "(string \<Rightarrow> string) option \<Rightarrow> 's \<Rightarrow> (string \<Rightarrow> string) \<times> 's metered" where
  "newMetered classify s =
     (case classify of None \<Rightarrow> (\<lambda>key. ''all'') | Some f \<Rightarrow> f, \<lparr>mInner = s, mLabels = []\<rparr>)"

text \<open>\<open>m.bucket(key)\<close>: the label, and the table with its row.\<close>

definition met_bucket :: "(string \<Rightarrow> string) \<Rightarrow> string \<Rightarrow> labels \<Rightarrow> string \<times> labels" where
  "met_bucket classify key ls =
     (let label = classify key
      in case map_of ls label of
           Some c \<Rightarrow> (label, ls)
         | None \<Rightarrow> (label, (label, labelCounters0) # ls))"

text \<open>An atomic update of the counters a pointer refers to.\<close>

definition atomicAdd :: "string \<Rightarrow> (labelCounters \<Rightarrow> labelCounters) \<Rightarrow> labels \<Rightarrow> labels" where
  "atomicAdd label f ls = map (\<lambda>(l, c). (l, if l = label then f c else c)) ls"

definition loadCounters :: "labelCounters \<Rightarrow> labelStats" where
  "loadCounters c = \<lparr>PutBytes = putBytes c, PutCount = putCount c, GetBytes = getBytes c,
     GetCount = getCount c, ListCount = listCount c, ListObjects = listObjects c,
     ListObjectBytes = listObjectBytes c\<rparr>"

definition stats_add :: "string \<times> labelCounters \<Rightarrow> stats \<Rightarrow> stats" where
  "stats_add e out =
     (let s = loadCounters (snd e)
      in out\<lparr>ByLabel := ByLabel out @ [(fst e, s)],
           TotalGet := (TotalGet out)\<lparr>GetBytes := GetBytes (TotalGet out) + GetBytes s,
                                    GetCount := GetCount (TotalGet out) + GetCount s\<rparr>,
           TotalPut := (TotalPut out)\<lparr>PutBytes := PutBytes (TotalPut out) + PutBytes s,
                                    PutCount := PutCount (TotalPut out) + PutCount s\<rparr>,
           TotalList := (TotalList out)\<lparr>ListCount := ListCount (TotalList out) + ListCount s,
             ListObjects := ListObjects (TotalList out) + ListObjects s,
             ListObjectBytes := ListObjectBytes (TotalList out) + ListObjectBytes s\<rparr>\<rparr>)"

definition met_stats :: "labels \<Rightarrow> stats" where
  "met_stats ls = fold stats_add ls
     \<lparr>ByLabel = [], TotalGet = labelStats0, TotalPut = labelStats0, TotalList = labelStats0\<rparr>"

section \<open>The wrapper\<close>

definition met_put where
  "met_put B classify c key body len ifMatch m =
     (case met_bucket classify key (mLabels m) of (l, ls) \<Rightarrow>
      let ls = atomicAdd l (\<lambda>c. c\<lparr>putCount := putCount c + 1\<rparr>) ls
      in case bPut B c key body len ifMatch (mInner m) of
           (Inr etag, r, s') \<Rightarrow>
             (Inr etag, r,
              \<lparr>mInner = s',
               mLabels = (if len > 0
                 then atomicAdd l (\<lambda>c. c\<lparr>putBytes := putBytes c + word_of_int len\<rparr>) ls else ls)\<rparr>)
         | (Inl e, r, s') \<Rightarrow> (Inl e, r, \<lparr>mInner = s', mLabels = ls\<rparr>))"

text \<open>
  The inner write reads through a \<open>countingReader\<close>, which adds what each Read delivers: in
  all, what the script held before the call and does not hold after it.
\<close>

definition met_putStream where
  "met_putStream B classify c key body ifMatch m =
     (case met_bucket classify key (mLabels m) of (l, ls) \<Rightarrow>
      let ls = atomicAdd l (\<lambda>c. c\<lparr>putCount := putCount c + 1\<rparr>) ls
      in case bPutStream B c key body ifMatch (mInner m) of
           (res, r, s') \<Rightarrow>
             (res, r,
              \<lparr>mInner = s',
               mLabels = atomicAdd l (\<lambda>c. c\<lparr>putBytes := putBytes c
                           + of_nat (reader_total body - reader_total r)\<rparr>) ls\<rparr>))"

text \<open>A \<open>countingReadCloser\<close> is the inner body with the label it counts under.\<close>

definition met_get where
  "met_get B classify c key m =
     (case met_bucket classify key (mLabels m) of (l, ls) \<Rightarrow>
      let ls = atomicAdd l (\<lambda>c. c\<lparr>getCount := getCount c + 1\<rparr>) ls
      in case bGet B c key (mInner m) of
           (Inl e, s') \<Rightarrow> (Inl e, \<lparr>mInner = s', mLabels = ls\<rparr>)
         | (Inr (rc, etag), s') \<Rightarrow> (Inr ((rc, l), etag), \<lparr>mInner = s', mLabels = ls\<rparr>))"

definition met_getRange where
  "met_getRange B classify c key off len m =
     (case met_bucket classify key (mLabels m) of (l, ls) \<Rightarrow>
      let ls = atomicAdd l (\<lambda>c. c\<lparr>getCount := getCount c + 1\<rparr>) ls
      in case bGetRange B c key off len (mInner m) of
           (Inl e, s') \<Rightarrow> (Inl e, \<lparr>mInner = s', mLabels = ls\<rparr>)
         | (Inr rc, s') \<Rightarrow> (Inr (rc, l), \<lparr>mInner = s', mLabels = ls\<rparr>))"

definition objSizes :: "objectInfo list \<Rightarrow> 64 word" where
  "objSizes objs = fold (\<lambda>i size. if oSize i > 0 then size + word_of_int (oSize i) else size) objs 0"

definition met_list where
  "met_list B classify c pre startAfter m =
     (case met_bucket classify pre (mLabels m) of (l, ls) \<Rightarrow>
      let ls = atomicAdd l (\<lambda>c. c\<lparr>listCount := listCount c + 1\<rparr>) ls
      in case bList B c pre startAfter (mInner m) of
           (Inl e, s') \<Rightarrow> (Inl e, \<lparr>mInner = s', mLabels = ls\<rparr>)
         | (Inr objs, s') \<Rightarrow>
             (Inr objs,
              \<lparr>mInner = s',
               mLabels =
                 atomicAdd l (\<lambda>c. c\<lparr>listObjectBytes := listObjectBytes c + objSizes objs\<rparr>)
                   (atomicAdd l (\<lambda>c. c\<lparr>listObjects := listObjects c + of_nat (length objs)\<rparr>) ls)\<rparr>))"

definition met_stat where
  "met_stat B classify c key m =
     (case met_bucket classify key (mLabels m) of (l, ls) \<Rightarrow>
      let ls = atomicAdd l (\<lambda>c. c\<lparr>getCount := getCount c + 1\<rparr>) ls
      in case bStat B c key (mInner m) of
           (res, s') \<Rightarrow> (res, \<lparr>mInner = s', mLabels = ls\<rparr>))"

definition met_delete where
  "met_delete B (classify :: string \<Rightarrow> string) c key m =
     (case bDelete B c key (mInner m) of (res, s') \<Rightarrow> (res, m\<lparr>mInner := s'\<rparr>))"

definition meteredBucket :: "('s, 'b) bucket \<Rightarrow> (string \<Rightarrow> string) \<Rightarrow> ('s metered, 'b \<times> string) bucket" where
  "meteredBucket B classify = \<lparr>
     bPut = met_put B classify, bPutStream = met_putStream B classify, bGet = met_get B classify,
     bGetRange = met_getRange B classify, bStat = met_stat B classify, bList = met_list B classify,
     bDelete = met_delete B classify\<rparr>"

text \<open>\<open>(*countingReadCloser).Read\<close>, over the inner body's Read, and \<open>Close\<close>.\<close>

definition counting_read :: "(nat \<Rightarrow> 'b \<Rightarrow> bytes \<times> err option \<times> 'b) \<Rightarrow> nat \<Rightarrow> 'b \<times> string \<Rightarrow> labels
    \<Rightarrow> bytes \<times> err option \<times> ('b \<times> string) \<times> labels" where
  "counting_read rd n b ls =
     (case rd n (fst b) of (bs, e, b') \<Rightarrow>
        (bs, e, (b', snd b),
         if length bs > 0
         then atomicAdd (snd b) (\<lambda>c. c\<lparr>getBytes := getBytes c + of_nat (length bs)\<rparr>) ls
         else ls))"

definition counting_close :: "('b \<Rightarrow> 'b) \<Rightarrow> 'b \<times> string \<Rightarrow> 'b \<times> string" where
  "counting_close cl b = (cl (fst b), snd b)"

text \<open>\<open>(*countingReader).Read\<close>.\<close>

definition countingReader_read :: "nat \<Rightarrow> reader \<times> string \<Rightarrow> labels
    \<Rightarrow> bytes \<times> err option \<times> (reader \<times> string) \<times> labels" where
  "countingReader_read n b ls =
     (case rd_read n (fst b) of (bs, e, r') \<Rightarrow>
        (bs, e, (r', snd b),
         if length bs > 0
         then atomicAdd (snd b) (\<lambda>c. c\<lparr>putBytes := putBytes c + of_nat (length bs)\<rparr>) ls
         else ls))"

section \<open>Transparency\<close>

lemma meteredBucket_sel [simp]:
  "bPut (meteredBucket B cl) = met_put B cl"
  "bPutStream (meteredBucket B cl) = met_putStream B cl"
  "bGet (meteredBucket B cl) = met_get B cl"
  "bGetRange (meteredBucket B cl) = met_getRange B cl"
  "bStat (meteredBucket B cl) = met_stat B cl"
  "bList (meteredBucket B cl) = met_list B cl"
  "bDelete (meteredBucket B cl) = met_delete B cl"
  by (simp_all add: meteredBucket_def)

text \<open>Every call does to the inner bucket what the same call on it does, and returns its result.\<close>

lemma met_put_inner:
  "met_put B cl c k r n t m = (res, r', m') \<Longrightarrow> bPut B c k r n t (mInner m) = (res, r', mInner m')"
  by (auto simp: met_put_def Let_def split: prod.splits sum.splits)

lemma met_putStream_inner:
  "met_putStream B cl c k r t m = (res, r', m') \<Longrightarrow>
     bPutStream B c k r t (mInner m) = (res, r', mInner m')"
  by (auto simp: met_putStream_def Let_def split: prod.splits sum.splits)

lemma met_get_inner:
  "met_get B cl c k m = (res, m') \<Longrightarrow>
     bGet B c k (mInner m) = (map_sum id (map_prod fst id) res, mInner m')"
  by (auto simp: met_get_def Let_def split: prod.splits sum.splits)

lemma met_getRange_inner:
  "met_getRange B cl c k off len m = (res, m') \<Longrightarrow>
     bGetRange B c k off len (mInner m) = (map_sum id fst res, mInner m')"
  by (auto simp: met_getRange_def Let_def split: prod.splits sum.splits)

lemma met_stat_inner:
  "met_stat B cl c k m = (res, m') \<Longrightarrow> bStat B c k (mInner m) = (res, mInner m')"
  by (auto simp: met_stat_def Let_def split: prod.splits sum.splits)

lemma met_list_inner:
  "met_list B cl c p sa m = (res, m') \<Longrightarrow> bList B c p sa (mInner m) = (res, mInner m')"
  by (auto simp: met_list_def Let_def split: prod.splits sum.splits)

lemma met_delete_inner:
  "met_delete B cl c k m = (res, m') \<Longrightarrow> bDelete B c k (mInner m) = (res, mInner m')"
  by (auto simp: met_delete_def split: prod.splits)

lemma get_spec_map:
  "oget_spec bb m k (map_sum id (map_prod fst id) res) = oget_spec (bb \<circ> fst) m k res"
  by (auto simp: oget_spec_def split: sum.split)

lemma getRange_spec_map:
  "ogetRange_spec bb rng m k off len (map_sum id fst res) = ogetRange_spec (bb \<circ> fst) rng m k off len res"
  by (auto simp: ogetRange_spec_def split: sum.split)

lemma map_sum_results:
  "(map_sum id f res = Inl e) = (res = Inl e)"
  "(\<exists>x. map_sum id f res = Inr x) = (\<exists>x. res = Inr x)"
  by (cases res; auto)+

locale metered_bucket = live_bucket +
  fixes classify :: "string \<Rightarrow> string"

sublocale metered_bucket \<subseteq> met: live_bucket "meteredBucket B classify" "\<lambda>m. inv (mInner m)" K
    "\<lambda>m. objs (mInner m)" "bb \<circ> fst" page rng "\<lambda>m. quiet (mInner m)" rlive
proof (unfold_locales, goal_cases)
  case (5 m k c r n t res r' m')
  then show ?case using put_ok [OF 5(1,2) met_put_inner] by simp
next
  case (6 m k c r t res r' m')
  then show ?case using putStream_ok [OF 6(1,2) met_putStream_inner] by simp
next
  case (7 m k c res m')
  then show ?case using get_ok [OF 7(1,2) met_get_inner] by (simp add: get_spec_map)
next
  case (8 m k off len c res m')
  then show ?case using getRange_ok [OF 8(1-4) met_getRange_inner] by (simp add: getRange_spec_map)
next
  case (9 m k c res m')
  then show ?case using stat_ok [OF 9(1,2) met_stat_inner] by simp
next
  case (10 m c p sa res m')
  then show ?case using list_ok [OF 10(1) met_list_inner] by simp
next
  case (11 m k c res m')
  then show ?case using delete_ok [OF 11(1,2) met_delete_inner] by simp
next
  case (12 m k c r v n t res r' m')
  then show ?case using put_live [OF 12(1-6) met_put_inner] by simp
next
  case (13 m k c r v t res r' m')
  then show ?case using putStream_live [OF 13(1-5) met_putStream_inner] by simp
next
  case (14 m k c res m')
  then show ?case
    using get_live [OF 14(1-4) met_get_inner [of B classify c k m res m']]
    by (cases res) (auto split: if_splits)
next
  case (15 m k c off len res m')
  then show ?case
    using getRange_live [OF 15(1-4) met_getRange_inner [of B classify c k off len m res m']]
    by (cases res) (auto split: option.splits)
next
  case (16 m k c res m')
  then show ?case using stat_live [OF 16(1-4) met_stat_inner] by simp
next
  case (17 m c p sa res m')
  then show ?case using list_live [OF 17(1-3) met_list_inner] by simp
next
  case (18 m k c res m')
  then show ?case using delete_live [OF 18(1-4) met_delete_inner] by simp
qed (use objs_finite objs_keys in \<open>auto simp: page_pos dest: etag_nonempty\<close>)

context metered_bucket
begin

lemma met_contract:
  "live_bucket (meteredBucket B classify) (\<lambda>m. inv (mInner m)) K (\<lambda>m. objs (mInner m)) (bb \<circ> fst)
     page rng (\<lambda>m. quiet (mInner m)) rlive"
  by (rule met.live_bucket_axioms)

end

interpretation fsm: metered_bucket "fs_bucket root" "fs_inv root K" K "fs_objs root K" copy_all
    maxKeys fs_rng "fs_quiet root" fs_rng classify
  for root K classify ..

section \<open>Accounting\<close>

text \<open>
  The totals are sums over the rows, so the order of the map does not matter; an increment of a
  row is an increment of the total.
\<close>

definition total :: "(labelCounters \<Rightarrow> 64 word) \<Rightarrow> labels \<Rightarrow> 64 word" where
  "total f ls = sum_list (map (f \<circ> snd) ls)"

lemma total_mset: "mset ls = mset ls' \<Longrightarrow> total f ls = total f ls'"
  by (metis total_def mset_map sum_mset_sum_list)

lemma stats_fold:
  "fold stats_add ls st = st\<lparr>
     ByLabel := ByLabel st @ map (\<lambda>(l, c). (l, loadCounters c)) ls,
     TotalGet := (TotalGet st)\<lparr>GetBytes := GetBytes (TotalGet st) + total getBytes ls,
       GetCount := GetCount (TotalGet st) + total getCount ls\<rparr>,
     TotalPut := (TotalPut st)\<lparr>PutBytes := PutBytes (TotalPut st) + total putBytes ls,
       PutCount := PutCount (TotalPut st) + total putCount ls\<rparr>,
     TotalList := (TotalList st)\<lparr>ListCount := ListCount (TotalList st) + total listCount ls,
       ListObjects := ListObjects (TotalList st) + total listObjects ls,
       ListObjectBytes := ListObjectBytes (TotalList st) + total listObjectBytes ls\<rparr>\<rparr>"
proof (induction ls arbitrary: st)
  case Nil
  then show ?case by (simp add: total_def)
next
  case (Cons e ls)
  obtain l c where e: "e = (l, c)" by (cases e)
  show ?case
    unfolding e fold_Cons o_apply Cons
    by (intro stats.equality labelStats.equality)
      (simp_all add: stats_add_def total_def Let_def loadCounters_def)
qed

lemma met_stats_totals:
  "met_stats ls = \<lparr>ByLabel = map (\<lambda>(l, c). (l, loadCounters c)) ls,
     TotalGet = labelStats0\<lparr>GetBytes := total getBytes ls, GetCount := total getCount ls\<rparr>,
     TotalPut = labelStats0\<lparr>PutBytes := total putBytes ls, PutCount := total putCount ls\<rparr>,
     TotalList = labelStats0\<lparr>ListCount := total listCount ls,
       ListObjects := total listObjects ls, ListObjectBytes := total listObjectBytes ls\<rparr>\<rparr>"
  by (simp add: met_stats_def stats_fold labelStats0_def)

definition labels_ok :: "labels \<Rightarrow> bool" where
  "labels_ok ls \<longleftrightarrow> distinct (map fst ls)"

lemma keys_atomicAdd [simp]: "map fst (atomicAdd l g ls) = map fst ls"
  by (auto simp: atomicAdd_def)

lemma labels_ok_atomicAdd [simp]: "labels_ok (atomicAdd l g ls) = labels_ok ls"
  by (simp add: labels_ok_def)

lemma labels_ok_bucket: "labels_ok ls \<Longrightarrow> met_bucket cl k ls = (l, ls') \<Longrightarrow> labels_ok ls'"
  by (auto simp: met_bucket_def labels_ok_def Let_def map_of_eq_None_iff split: option.splits)

lemma met_bucket_row: "met_bucket cl k ls = (l, ls') \<Longrightarrow> l = cl k \<and> l \<in> set (map fst ls')"
  by (auto simp: met_bucket_def Let_def split: option.splits dest!: map_of_SomeD)
    (metis fst_conv imageI)+

lemma total_bucket:
  "met_bucket cl k ls = (l, ls') \<Longrightarrow> f labelCounters0 = 0 \<Longrightarrow> total f ls' = total f ls"
  by (auto simp: met_bucket_def Let_def total_def split: option.splits)

lemma total_same: "(\<And>c. f (g c) = f c) \<Longrightarrow> total f (atomicAdd l g ls) = total f ls"
  by (induction ls) (auto simp: total_def atomicAdd_def)

lemma total_add:
  assumes "\<And>c. f (g c) = f c + d" and "labels_ok ls" and "l \<in> set (map fst ls)"
  shows "total f (atomicAdd l g ls) = total f ls + d"
  using assms(2,3)
proof (induction ls)
  case (Cons e ls)
  obtain l' c where e: "e = (l', c)" by (cases e)
  show ?case
  proof (cases "l' = l")
    case True
    then have "l \<notin> set (map fst ls)" using Cons.prems e by (simp add: labels_ok_def)
    then have "atomicAdd l g ls = ls"
      by (auto simp: atomicAdd_def intro!: map_idI) (metis fst_conv imageI)
    then show ?thesis using e True assms(1) by (simp add: atomicAdd_def total_def)
  next
    case False
    then have "l \<in> set (map fst ls)" "labels_ok ls" using Cons.prems e by (auto simp: labels_ok_def)
    from Cons.IH [OF this(2,1)] show ?thesis
      using e False by (simp add: atomicAdd_def total_def)
  qed
qed simp

lemma counters0_sel [simp]:
  "putBytes labelCounters0 = 0" "putCount labelCounters0 = 0" "getBytes labelCounters0 = 0"
  "getCount labelCounters0 = 0" "listCount labelCounters0 = 0" "listObjects labelCounters0 = 0"
  "listObjectBytes labelCounters0 = 0"
  by (simp_all add: labelCounters0_def)

text \<open>A run of calls, for the counters only.\<close>

datatype mcall =
    CPut ctx string reader int "string option"
  | CPutStream ctx string reader "string option"
  | CGet ctx string
  | CGetRange ctx string int int
  | CStat ctx string
  | CList ctx string string
  | CDelete ctx string

fun met_call :: "('s, 'b) bucket \<Rightarrow> (string \<Rightarrow> string) \<Rightarrow> mcall \<Rightarrow> 's metered \<Rightarrow> 's metered" where
  "met_call B cl (CPut c k r n t) m = snd (snd (met_put B cl c k r n t m))"
| "met_call B cl (CPutStream c k r t) m = snd (snd (met_putStream B cl c k r t m))"
| "met_call B cl (CGet c k) m = snd (met_get B cl c k m)"
| "met_call B cl (CGetRange c k off len) m = snd (met_getRange B cl c k off len m)"
| "met_call B cl (CStat c k) m = snd (met_stat B cl c k m)"
| "met_call B cl (CList c p sa) m = snd (met_list B cl c p sa m)"
| "met_call B cl (CDelete c k) m = snd (met_delete B cl c k m)"

fun put_weight :: "mcall \<Rightarrow> nat" where
  "put_weight (CPut _ _ _ _ _) = 1" | "put_weight (CPutStream _ _ _ _) = 1" | "put_weight _ = 0"

fun get_weight :: "mcall \<Rightarrow> nat" where
  "get_weight (CGet _ _) = 1" | "get_weight (CGetRange _ _ _ _) = 1"
| "get_weight (CStat _ _) = 1" | "get_weight _ = 0"

fun list_weight :: "mcall \<Rightarrow> nat" where
  "list_weight (CList _ _ _) = 1" | "list_weight _ = 0"

lemma count_one:
  assumes "labels_ok ls" and "met_bucket cl k ls = (l, ls1)" and "\<And>c. f (g c) = f c + d"
    and "f labelCounters0 = 0"
  shows "total f (atomicAdd l g ls1) = total f ls + d"
  using total_add [of f g d, OF assms(3) labels_ok_bucket [OF assms(1,2)]]
    met_bucket_row [OF assms(2)] total_bucket [OF assms(2), of f, OF assms(4)] by auto

definition counts :: "labels \<Rightarrow> labels \<Rightarrow> nat \<Rightarrow> nat \<Rightarrow> nat \<Rightarrow> bool" where
  "counts ls ls' p g l \<longleftrightarrow> labels_ok ls' \<and> total putCount ls' = total putCount ls + of_nat p
     \<and> total getCount ls' = total getCount ls + of_nat g
     \<and> total listCount ls' = total listCount ls + of_nat l"

lemma met_call_counts:
  assumes "labels_ok (mLabels m)"
  shows "counts (mLabels m) (mLabels (met_call B cl x m)) (put_weight x) (get_weight x) (list_weight x)"
proof -
  define l ls1 where "l k = fst (met_bucket cl k (mLabels m))"
    and "ls1 k = snd (met_bucket cl k (mLabels m))" for k
  then have b: "met_bucket cl k (mLabels m) = (l k, ls1 k)" for k by simp
  note ok = labels_ok_bucket [OF assms b]
  note one = count_one [OF assms b]
  have base: "f labelCounters0 = 0 \<Longrightarrow> total f (ls1 k) = total f (mLabels m)" for f k
    using total_bucket [OF b] .
  show ?thesis
    by (cases x)
      (auto simp: counts_def met_put_def met_putStream_def met_get_def met_getRange_def met_stat_def
        met_list_def met_delete_def Let_def b ok one base total_same assms
        split: prod.splits sum.splits)
qed

lemma counts_trans:
  "counts ls ls1 p g l \<Longrightarrow> counts ls1 ls2 p' g' l' \<Longrightarrow> counts ls ls2 (p + p') (g + g') (l + l')"
  by (simp add: counts_def)

definition met_run :: "('s, 'b) bucket \<Rightarrow> (string \<Rightarrow> string) \<Rightarrow> mcall list \<Rightarrow> 's metered \<Rightarrow> 's metered" where
  "met_run B cl xs m = fold (met_call B cl) xs m"

lemma met_run_counts:
  "labels_ok (mLabels m) \<Longrightarrow> counts (mLabels m) (mLabels (met_run B cl xs m))
     (sum_list (map put_weight xs)) (sum_list (map get_weight xs)) (sum_list (map list_weight xs))"
proof (induction xs arbitrary: m)
  case Nil
  then show ?case by (simp add: counts_def met_run_def)
next
  case (Cons x xs)
  note one = met_call_counts [OF Cons.prems, of B cl x]
  then have "labels_ok (mLabels (met_call B cl x m))" by (simp add: counts_def)
  from counts_trans [OF one Cons.IH [OF this]] show ?case by (simp add: met_run_def)
qed

text \<open>The bytes of a body read through the counter are the bytes counted.\<close>

fun counting_drain :: "nat list \<Rightarrow> body \<times> string \<Rightarrow> labels
    \<Rightarrow> bytes \<times> err option \<times> (body \<times> string) \<times> labels" where
  "counting_drain [] b ls = ([], None, b, ls)"
| "counting_drain (n # ns) b ls =
     (case counting_read body_read n b ls of
        (bs, Some e, b', ls') \<Rightarrow> (bs, Some e, b', ls')
      | (bs, None, b', ls') \<Rightarrow>
          (case counting_drain ns b' ls' of (bs', e, b'', ls'') \<Rightarrow> (bs @ bs', e, b'', ls'')))"

lemma counting_read_total:
  assumes "labels_ok ls" and "snd b \<in> set (map fst ls)"
    and "counting_read rd n b ls = (bs, e, b', ls')"
  shows "rd n (fst b) = (bs, e, fst b')" and "snd b' = snd b"
    and "map fst ls' = map fst ls" and "labels_ok ls'"
    and "total getBytes ls' = total getBytes ls + of_nat (length bs)"
  using assms total_add [of getBytes "\<lambda>c. c\<lparr>getBytes := getBytes c + of_nat (length bs)\<rparr>"
      "of_nat (length bs)" ls "snd b"]
  by (auto simp: counting_read_def split: prod.splits if_splits)

lemma counting_drain_total:
  "labels_ok ls \<Longrightarrow> snd b \<in> set (map fst ls) \<Longrightarrow> counting_drain ns b ls = (bs, e, b', ls') \<Longrightarrow>
     drain ns (fst b) = (bs, e, fst b')
     \<and> total getBytes ls' = total getBytes ls + of_nat (length bs)"
proof (induction ns arbitrary: b ls bs e b' ls')
  case (Cons n ns)
  obtain bs1 e1 b1 ls1 where r: "counting_read body_read n b ls = (bs1, e1, b1, ls1)"
    by (metis surj_pair)
  note one = counting_read_total [OF Cons.prems(1,2) r]
  show ?case
  proof (cases e1)
    case (Some x)
    with Cons.prems(3) r one show ?thesis by auto
  next
    case None
    obtain bs2 e2 b2 ls2 where d: "counting_drain ns b1 ls1 = (bs2, e2, b2, ls2)"
      by (metis surj_pair)
    have "snd b1 \<in> set (map fst ls1)" using one Cons.prems(2) by simp
    note ih = Cons.IH [OF one(4) this d]
    have "bs = bs1 @ bs2" "e = e2" "b' = b2" "ls' = ls2" using Cons.prems(3) r None d by auto
    then show ?thesis using ih one None by simp
  qed
qed simp

text \<open>What a \<open>countingReader\<close> adds over a whole write is what the script lost.\<close>

lemma rd_read_total: "rd_read n r = (bs, e, r') \<Longrightarrow> reader_total r = length bs + reader_total r'"
  by (cases r) (auto split: if_splits)

lemma countingReader_read_total:
  assumes "labels_ok ls" and "snd b \<in> set (map fst ls)"
    and "countingReader_read n b ls = (bs, e, b', ls')"
  shows "snd b' = snd b" and "total putBytes ls'
    = total putBytes ls + of_nat (reader_total (fst b) - reader_total (fst b'))"
  using assms rd_read_total [of n "fst b"]
    total_add [of putBytes "\<lambda>c. c\<lparr>putBytes := putBytes c + of_nat (length bs)\<rparr>"
      "of_nat (length bs)" ls "snd b"]
  by (auto simp: countingReader_read_def split: prod.splits if_splits)

end
