(* ===== verification/Layers.thy ===== *)
theory Layers
  imports FSCorrect Metering
begin

text \<open>
  The wrappers as properties: prefixed views and metering keep the contract of any bucket that
  has it, views of the filesystem backend are isolated from each other, nesting views is the
  same as one view, metering changes no answer and counts exactly, and a stack of the layers
  over the filesystem backend still stores and returns what is written.
\<close>

section \<open>Views\<close>

text \<open>
  C14. A prefixed view of any bucket that keeps the contract keeps the contract itself, over the
  objects whose keys start with the prefix and under the keys that remain: every result of
  every operation, errors and listings included, means for the view's store what it means for
  the whole store, and the view is live when the bucket is.
\<close>

theorem prefixed_keeps_contract:
  assumes "live_bucket B sinv K objs bb page rng quiet rlive"
  shows "live_bucket (prefixedBucket B pre) sinv (view_keys pre K) (\<lambda>s. view_store pre (objs s))
    bb page rng quiet rlive"
  using assms by (intro prefixed_bucket.view_contract) (simp add: prefixed_bucket_def)

theorem prefixed_keeps_contract_witness:
  "live_bucket (prefixedBucket (fs_bucket ex_root) ''a/'') (fs_inv ex_root ex_keys)
     (view_keys ''a/'' ex_keys) (\<lambda>s. view_store ''a/'' (fs_objs ex_root ex_keys s))
     copy_all maxKeys fs_rng (fs_quiet ex_root) fs_rng"
  by (rule prefixed_keeps_contract [OF fs.live_bucket_axioms])



text \<open>
  C16. Nesting views is prefix concatenation: the bucket that \<open>Prefixed\<close> builds over an
  already prefixed one, which it flattens, behaves in every operation as the view under the
  inner prefix of a view under the outer one would, and a chain of views over the filesystem
  is the single view under the concatenated, slash-terminated prefixes.
\<close>

theorem prefixed_flattens:
  assumes "p \<noteq> ''''" and "q \<noteq> ''''"
  shows "asBucket (Prefixed (Prefixed (OtherB (fs_bucket root)) p) q)
      = prefixedBucket (asBucket (Prefixed (OtherB (fs_bucket root)) p)) (normPrefix q)
    \<and> asBucket (Prefixed (Prefixed (OtherB (fs_bucket root)) p) q)
      = prefixedBucket (fs_bucket root) (normPrefix p @ normPrefix q)
    \<and> Prefixed (OtherB (fs_bucket root)) '''' = OtherB (fs_bucket root)"
  using assms prefixed_flatten [OF fs_keys_as_asked, of root "normPrefix p" "normPrefix q"]
  by (simp add: Prefixed_def)

theorem prefixed_flattens_witness:
  "asBucket (Prefixed (Prefixed (OtherB (fs_bucket ex_root)) ''a'') ''b/'')
     = prefixedBucket (fs_bucket ex_root) ''a/b/''"
proof -
  have n: "normPrefix ''a'' @ normPrefix ''b/'' = ''a/b/''"
    by (simp add: normPrefix_def hasSuffix_def suffix_def)
  from prefixed_flattens [of "''a''" "''b/''" ex_root, OF list.distinct(2) list.distinct(2)]
  show ?thesis unfolding n by blast
qed

section \<open>Metering\<close>



text \<open>
  C18. The request counters are exact: after any sequence of calls on a metered bucket, with any
  classification, the totals that Stats reports have grown by the number of Put and PutStream
  calls, of Get, GetRange and Stat calls, and of List calls, failed ones included, modulo the
  64 bits of the counters; and the totals do not depend on the order in which Go iterates the
  map of labels.
\<close>

theorem metering_counts_requests:
  assumes "labels_ok (mLabels m)"
  shows "(let st = met_stats (mLabels m); st' = met_stats (mLabels (met_run B cl xs m)) in
      PutCount (TotalPut st') = PutCount (TotalPut st) + of_nat (sum_list (map put_weight xs))
      \<and> GetCount (TotalGet st') = GetCount (TotalGet st) + of_nat (sum_list (map get_weight xs))
      \<and> ListCount (TotalList st') = ListCount (TotalList st) + of_nat (sum_list (map list_weight xs)))
    \<and> (\<forall>ls. mset ls = mset (mLabels m) \<longrightarrow>
         TotalGet (met_stats ls) = TotalGet (met_stats (mLabels m))
         \<and> TotalPut (met_stats ls) = TotalPut (met_stats (mLabels m))
         \<and> TotalList (met_stats ls) = TotalList (met_stats (mLabels m)))"
proof -
  have "TotalGet (met_stats ls) = TotalGet (met_stats (mLabels m))
      \<and> TotalPut (met_stats ls) = TotalPut (met_stats (mLabels m))
      \<and> TotalList (met_stats ls) = TotalList (met_stats (mLabels m))"
    if "mset ls = mset (mLabels m)" for ls
    using total_mset [OF that] by (simp add: met_stats_totals)
  moreover have "let st = met_stats (mLabels m); st' = met_stats (mLabels (met_run B cl xs m)) in
      PutCount (TotalPut st') = PutCount (TotalPut st) + of_nat (sum_list (map put_weight xs))
      \<and> GetCount (TotalGet st') = GetCount (TotalGet st) + of_nat (sum_list (map get_weight xs))
      \<and> ListCount (TotalList st') = ListCount (TotalList st) + of_nat (sum_list (map list_weight xs))"
    using met_run_counts [OF assms, of B cl xs]
    by (simp add: counts_def met_stats_totals Let_def labelStats0_def)
  ultimately show ?thesis by blast
qed

theorem metering_counts_requests_witness:
  "let m = \<lparr>mInner = ex_fs, mLabels = []\<rparr>;
       m' = met_run (fs_bucket ex_root) (\<lambda>k. ''all'')
              [CGet ctx_background ''a/b'', CStat ctx_background ''zz'', CList ctx_background '''' ''''] m
   in GetCount (TotalGet (met_stats (mLabels m'))) = 2"
proof -
  let ?m = "\<lparr>mInner = ex_fs, mLabels = []\<rparr>"
  let ?xs = "[CGet ctx_background ''a/b'', CStat ctx_background ''zz'', CList ctx_background '''' '''']"
  have "labels_ok (mLabels ?m)" by (simp add: labels_ok_def)
  from metering_counts_requests [OF this, of "fs_bucket ex_root" "\<lambda>k. ''all''" ?xs]
  have "GetCount (TotalGet (met_stats (mLabels (met_run (fs_bucket ex_root) (\<lambda>k. ''all'') ?xs ?m))))
      = GetCount (TotalGet (met_stats (mLabels ?m))) + of_nat (sum_list (map get_weight ?xs))"
    unfolding Let_def by blast
  moreover have "GetCount (TotalGet (met_stats (mLabels ?m))) = 0"
    by (simp add: met_stats_totals total_def labelStats0_def)
  moreover have "sum_list (map get_weight ?xs) = 2" by simp
  ultimately show ?thesis by (simp only: Let_def) simp
qed

text \<open>
  C19. The byte counter of reads is exact: whatever Read calls a caller makes on a counting body,
  the bytes, the error and the body that follows are those of the inner body, and the total of
  bytes read grows by exactly the bytes delivered.
\<close>

theorem metering_counts_bytes:
  assumes "labels_ok ls" and "snd b \<in> set (map fst ls)"
    and "counting_drain ns b ls = (bs, e, b', ls')"
  shows "drain ns (fst b) = (bs, e, fst b')
    \<and> GetBytes (TotalGet (met_stats ls')) = GetBytes (TotalGet (met_stats ls)) + of_nat (length bs)"
  using counting_drain_total [OF assms] by (simp add: met_stats_totals labelStats0_def)

theorem metering_counts_bytes_witness:
  "case counting_drain [2, 2, 2] (FileB (FReg [1, 2, 3]), ''x'') [(''x'', labelCounters0)] of
     (bs, e, b', ls') \<Rightarrow> bs = [1, 2, 3] \<and> e = Some EEOF \<and> GetBytes (TotalGet (met_stats ls')) = 3"
proof -
  obtain bs e b' ls' where c:
    "counting_drain [2, 2, 2] (FileB (FReg [1, 2, 3]), ''x'') [(''x'', labelCounters0)] = (bs, e, b', ls')"
    by (metis surj_pair)
  from metering_counts_bytes [OF _ _ c] show ?thesis
    unfolding c by (auto simp: labels_ok_def met_stats_totals total_def labelStats0_def numeral_eq_Suc)
qed

section \<open>The layers together\<close>

text \<open>
  A metered view of the filesystem backend: the interfaces compose, so paging, the round trip
  and the contract hold of the whole stack.
\<close>

interpretation stack: metered_bucket "prefixedBucket (fs_bucket root) pre" "fs_inv root K"
    "view_keys pre K" "\<lambda>s. view_store pre (fs_objs root K s)" copy_all maxKeys fs_rng
    "fs_quiet root" fs_rng classify
  for root K pre classify
  by unfold_locales

text \<open>
  C20. A metered, prefixed view of a directory stores and returns what is written: after a
  successful Put through both layers, Get through both layers returns a body that delivers
  exactly the written bytes under the tag that Put returned, Stat agrees, and in the directory
  the object is at the prefixed key.
\<close>

theorem stack_roundtrip:
  assumes "fs_inv root K (mInner m)" and "fs_quiet root (mInner m)" and "pre @ k \<in> K"
    and "ctxErr c = None" and "readAll r = (v, None)" and "n = int (length v)"
    and "bPut (meteredBucket (prefixedBucket (fs_bucket root) pre) cl) c k r n t m = (Inr e, r', m1)"
  shows "\<exists>b m2 i m3.
      bGet (meteredBucket (prefixedBucket (fs_bucket root) pre) cl) c k m1 = (Inr (b, e), m2)
    \<and> copy_all (fst b) = (v, None)
    \<and> bStat (meteredBucket (prefixedBucket (fs_bucket root) pre) cl) c k m2 = (Inr i, m3)
    \<and> oKey i = k \<and> oSize i = int (length v) \<and> oETag i = e
    \<and> fs_objs root K (mInner m3) (pre @ k) = Some (v, e)"
proof -
  have "k \<in> view_keys pre K" using assms(3) by simp
  from stack.met.put_then_read [OF assms(1,2) this assms(4,4-7)] obtain b m2 i m3 where
    "bGet (meteredBucket (prefixedBucket (fs_bucket root) pre) cl) c k m1 = (Inr (b, e), m2)"
    "copy_all (fst b) = (v, None)"
    "bStat (meteredBucket (prefixedBucket (fs_bucket root) pre) cl) c k m2 = (Inr i, m3)"
    "oKey i = k" "oSize i = int (length v)" "oETag i = e"
    and vs: "view_store pre (fs_objs root K (mInner m3))
       = (view_store pre (fs_objs root K (mInner m)))(k \<mapsto> (v, e))" by auto
  moreover have "fs_objs root K (mInner m3) (pre @ k) = Some (v, e)"
    using fun_cong [OF vs, of k] by simp
  ultimately show ?thesis by blast
qed

theorem stack_roundtrip_witness:
  "\<exists>e r' m1 b m2. bPut (meteredBucket (prefixedBucket (fs_bucket ex_root) ''a/'') (\<lambda>k. k))
        ctx_background ''b'' [([9], None)] 1 None \<lparr>mInner = ex_fs, mLabels = []\<rparr> = (Inr e, r', m1)
     \<and> bGet (meteredBucket (prefixedBucket (fs_bucket ex_root) ''a/'') (\<lambda>k. k)) ctx_background ''b'' m1
        = (Inr (b, e), m2) \<and> copy_all (fst b) = ([9], None)"
proof -
  let ?B = "meteredBucket (prefixedBucket (fs_bucket ex_root) ''a/'') (\<lambda>k. k)"
  let ?m = "\<lparr>mInner = ex_fs, mLabels = []\<rparr>"
  obtain res r' m1 where p: "bPut ?B ctx_background ''b'' [([9], None)] 1 None ?m = (res, r', m1)"
    by (metis surj_pair)
  have pre: "fs_inv ex_root ex_keys (mInner ?m)" "fs_quiet ex_root (mInner ?m)" "''a/'' @ ''b'' \<in> ex_keys"
    using ex_facts by simp_all
  have rd: "readAll [([9], None)] = ([9], None)" "(1 :: int) = int (length [9 :: byte])" by simp_all
  have "\<exists>e. res = Inr e"
    using stack.met.put_live [OF pre(1,2) _ ex_live rd p] pre(3) by (simp add: oprecond_def)
  then obtain e where "res = Inr e" by blast
  with stack_roundtrip [OF pre ex_live rd, of "\<lambda>k. k" None e r' m1] p show ?thesis by blast
qed

end
