(* ===== verification/Strconv.thy ===== *)
theory Strconv
  imports Prelude
begin

text \<open>
  Decimal numbers as Go's package strconv and \<open>fmt\<close> read and print them, and
  \<open>strconv.ParseBool\<close>, with the round trip of printing and reading.
\<close>

definition digit_char :: "nat \<Rightarrow> char" where
  "digit_char d = char_of (48 + d)"

fun showNat :: "nat \<Rightarrow> string" where
  "showNat n = (if n < 10 then [digit_char n] else showNat (n div 10) @ [digit_char (n mod 10)])"

declare showNat.simps [simp del]

text \<open>\<open>%d\<close> of a signed integer.\<close>

definition showInt :: "int \<Rightarrow> string" where
  "showInt i = (if i < 0 then CHR ''-'' # showNat (nat (- i)) else showNat (nat i))"

definition isDigit :: "char \<Rightarrow> bool" where
  "isDigit c \<longleftrightarrow> 48 \<le> (of_char c :: nat) \<and> (of_char c :: nat) \<le> 57"

text \<open>A non-empty sequence of decimal digits.\<close>

definition digitsVal :: "string \<Rightarrow> nat" where
  "digitsVal s = fold (\<lambda>c n. 10 * n + (of_char c - 48)) s 0"

definition parseNat :: "string \<Rightarrow> nat option" where
  "parseNat s = (if s \<noteq> [] \<and> list_all isDigit s then Some (digitsVal s) else None)"

text \<open>
  \<open>strconv.Atoi\<close>, for a 64-bit int: an optional sign, then digits; \<open>None\<close> for both of its
  errors (syntax and range).
\<close>

definition atoi :: "string \<Rightarrow> int option" where
  "atoi s =
     (case s of
        [] \<Rightarrow> None
      | c # cs \<Rightarrow>
          (case parseNat (if c = CHR ''-'' \<or> c = CHR ''+'' then cs else s) of
             None \<Rightarrow> None
           | Some n \<Rightarrow>
               let i = (if c = CHR ''-'' then - int n else int n)
               in if is_i64 i then Some i else None))"

definition parseBool :: "string \<Rightarrow> bool option" where
  "parseBool s =
     (if s \<in> {''1'', ''t'', ''T'', ''TRUE'', ''true'', ''True''} then Some True
      else if s \<in> {''0'', ''f'', ''F'', ''FALSE'', ''false'', ''False''} then Some False
      else None)"

section \<open>Printing and reading\<close>

lemma of_char_digit [simp]: "d < 10 \<Longrightarrow> (of_char (digit_char d) :: nat) = 48 + d"
  by (simp add: digit_char_def of_char_of)

lemma isDigit_digit [simp]: "d < 10 \<Longrightarrow> isDigit (digit_char d)"
  by (simp add: isDigit_def)

lemma digitsVal_snoc [simp]: "digitsVal (s @ [c]) = 10 * digitsVal s + (of_char c - 48)"
  by (simp add: digitsVal_def)

lemma showNat_digits: "list_all isDigit (showNat n) \<and> showNat n \<noteq> [] \<and> digitsVal (showNat n) = n"
proof (induction n rule: showNat.induct)
  case (1 n)
  show ?case
  proof (cases "n < 10")
    case True
    then show ?thesis by (simp add: showNat.simps [of n] digitsVal_def)
  next
    case False
    then show ?thesis using 1 by (simp add: showNat.simps [of n])
  qed
qed

text \<open>Evaluation of numerals.\<close>

lemma showNat_step:
  "n < 10 \<Longrightarrow> showNat n = [digit_char n]"
  "10 \<le> n \<Longrightarrow> showNat n = showNat (n div 10) @ [digit_char (n mod 10)]"
  by (simp_all add: showNat.simps [of n])

lemma digit_chars:
  "digit_char 0 = CHR ''0''" "digit_char 1 = CHR ''1''" "digit_char 2 = CHR ''2''"
  "digit_char 3 = CHR ''3''" "digit_char 4 = CHR ''4''" "digit_char 5 = CHR ''5''"
  "digit_char 6 = CHR ''6''" "digit_char 7 = CHR ''7''" "digit_char 8 = CHR ''8''"
  "digit_char 9 = CHR ''9''" "digit_char (Suc 0) = CHR ''1''"
  by code_simp+

lemma parseNat_showNat [simp]: "parseNat (showNat n) = Some n"
  using showNat_digits [of n] by (simp add: parseNat_def)

lemma showNat_chars: "c \<in> set (showNat n) \<Longrightarrow> isDigit c"
  using showNat_digits [of n] by (auto simp: list_all_iff)

lemma not_isDigit [simp]:
  "\<not> isDigit (CHR ''-'')" "\<not> isDigit (CHR ''+'')" "\<not> isDigit (CHR ''='')"
  by (simp_all add: isDigit_def)

lemma showNat_not_sign [simp]: "CHR ''-'' \<notin> set (showNat n)" "CHR ''+'' \<notin> set (showNat n)"
  using showNat_chars not_isDigit by blast+

lemma atoi_showInt:
  assumes "is_i64 i"
  shows "atoi (showInt i) = Some i"
proof (cases "i < 0")
  case True
  then show ?thesis using assms by (simp add: showInt_def atoi_def Let_def)
next
  case False
  obtain c cs where s: "showNat (nat i) = c # cs"
    using showNat_digits [of "nat i"] by (cases "showNat (nat i)") auto
  then have "c \<noteq> CHR ''-''" "c \<noteq> CHR ''+''"
    using showNat_not_sign [of "nat i"] by auto
  then show ?thesis
    using False assms parseNat_showNat [of "nat i"] s by (simp add: showInt_def atoi_def Let_def)
qed

end
