(* ===== verification/S3.thy ===== *)
theory S3
  imports Prefixed Strconv
begin

text \<open>
  s3.go: the S3 backend. The SDK is not part of the repository, so its client is a parameter of
  every operation (\<open>s3client\<close>, the record of the calls the code makes), and
  \<open>load\<close> stands for \<open>config.LoadDefaultConfig\<close>. Requests, options and answers carry the
  fields the code sets or reads; an absent pointer is \<open>None\<close>.
\<close>

section \<open>Requests and answers\<close>

record putObjectInput =
  piBucket :: string
  piKey :: string
  piBody :: reader
  piContentLength :: "int option"
  piIfNoneMatch :: "string option"
  piIfMatch :: "string option"
  piCacheControl :: "string option"

record keyInput =
  kiBucket :: string
  kiKey :: string

record getObjectInput =
  giBucket :: string
  giKey :: string
  giRange :: "string option"

record listObjectsV2Input =
  liBucket :: string
  liPrefix :: string
  liStartAfter :: "string option"

record s3Object =
  obKey :: "string option"
  obSize :: "int option"
  obLastModified :: "int option"
  obETag :: "string option"

record headOutput =
  hoContentLength :: "int option"
  hoLastModified :: "int option"
  hoETag :: "string option"

text \<open>Per-call options are the headers they add.\<close>

type_synonym headers = "(string \<times> string) list"

record 's s3client =
  putObject :: "ctx \<Rightarrow> putObjectInput \<Rightarrow> headers \<Rightarrow> 's \<Rightarrow> (err + string option) \<times> reader \<times> 's"
  upload :: "ctx \<Rightarrow> putObjectInput \<Rightarrow> headers \<Rightarrow> 's \<Rightarrow> (err + string option) \<times> reader \<times> 's"
  getObject :: "ctx \<Rightarrow> getObjectInput \<Rightarrow> headers \<Rightarrow> 's \<Rightarrow> (err + body \<times> string option) \<times> 's"
  listObjectsV2 :: "ctx \<Rightarrow> listObjectsV2Input \<Rightarrow> 's \<Rightarrow> (err + s3Object list) \<times> 's"
  headObject :: "ctx \<Rightarrow> keyInput \<Rightarrow> 's \<Rightarrow> (err + headOutput) \<times> 's"
  deleteObject :: "ctx \<Rightarrow> keyInput \<Rightarrow> 's \<Rightarrow> (err + unit) \<times> 's"

text \<open>The struct \<open>S3\<close>, less its two clients.\<close>

record s3 =
  s3Bucket :: string
  s3Prefix :: string

section \<open>Construction\<close>

datatype httpClient = CustomClient nat | StripedClient int bool

record s3Config =
  cfgBucket :: string
  cfgPrefix :: string
  cfgRegion :: string
  cfgEndpointURL :: string
  cfgUsePathStyle :: bool
  cfgAccessKey :: string
  cfgSecretKey :: string
  cfgSessionToken :: string
  cfgHTTPClient :: "nat option"
  cfgForceIPv4 :: bool
  cfgClients :: int
  cfgMaxAttempts :: int

datatype loadOpt =
    WithRegion string
  | WithHTTPClient httpClient
  | WithStaticCredentials string string string
  | WithMaxAttempts int

record s3Options =
  optDisableLogChecksum :: bool
  optBaseEndpoint :: "string option"
  optUsePathStyle :: bool

definition s3_loadOpts :: "s3Config \<Rightarrow> loadOpt list" where
  "s3_loadOpts cfg =
     (if cfgRegion cfg \<noteq> '''' then [WithRegion (cfgRegion cfg)] else [])
     @ [WithHTTPClient (case cfgHTTPClient cfg of
          Some h \<Rightarrow> CustomClient h
        | None \<Rightarrow> StripedClient (cfgClients cfg) (cfgForceIPv4 cfg))]
     @ (if cfgAccessKey cfg \<noteq> '''' \<or> cfgSecretKey cfg \<noteq> ''''
        then [WithStaticCredentials (cfgAccessKey cfg) (cfgSecretKey cfg) (cfgSessionToken cfg)] else [])
     @ (if cfgMaxAttempts cfg > 0 then [WithMaxAttempts (cfgMaxAttempts cfg)] else [])"

definition s3_options :: "s3Config \<Rightarrow> s3Options \<Rightarrow> s3Options" where
  "s3_options cfg o' =
     (let o1 = o'\<lparr>optDisableLogChecksum := True\<rparr>;
          o2 = (if cfgEndpointURL cfg \<noteq> ''''
                then o1\<lparr>optBaseEndpoint := Some (cfgEndpointURL cfg), optUsePathStyle := True\<rparr>
                else o1)
      in if cfgUsePathStyle cfg then o2\<lparr>optUsePathStyle := True\<rparr> else o2)"

text \<open>The client is \<open>s3.NewFromConfig\<close> of the loaded configuration and the option function.\<close>

definition openS3 :: "(loadOpt list \<Rightarrow> err + 'aws) \<Rightarrow> ('aws \<Rightarrow> (s3Options \<Rightarrow> s3Options) \<Rightarrow> 'c)
    \<Rightarrow> s3Config \<Rightarrow> err + 'c \<times> s3" where
  "openS3 load newFromConfig cfg =
     (if cfgBucket cfg = '''' then Inl (EMsg ''objectstore/s3: Bucket required'')
      else
        let pre = cfgPrefix cfg;
            pre = (if pre \<noteq> '''' \<and> \<not> hasSuffix pre ''/'' then pre @ ''/'' else pre)
        in case load (s3_loadOpts cfg) of
             Inl e \<Rightarrow> Inl (EWrap ''objectstore/s3: load config'' e)
           | Inr awsCfg \<Rightarrow>
               Inr (newFromConfig awsCfg (s3_options cfg), \<lparr>s3Bucket = cfgBucket cfg, s3Prefix = pre\<rparr>))"

section \<open>Helpers\<close>

definition keyOf :: "s3 \<Rightarrow> string \<Rightarrow> string" where
  "keyOf a k = s3Prefix a @ k"

definition applyIfMatch :: "putObjectInput \<Rightarrow> string option \<Rightarrow> putObjectInput" where
  "applyIfMatch pi ifMatch =
     (case ifMatch of
        None \<Rightarrow> pi
      | Some t \<Rightarrow> if t = '''' then pi\<lparr>piIfNoneMatch := Some ''*''\<rparr> else pi\<lparr>piIfMatch := Some t\<rparr>)"

definition tigrisConsistent :: "string \<times> string" where
  "tigrisConsistent = (''X-Tigris-Consistent'', ''true'')"

definition conditionalOpts :: "string option \<Rightarrow> headers" where
  "conditionalOpts ifMatch = (if ifMatch = None then [] else [tigrisConsistent])"

definition quote_char :: char where
  "quote_char = char_of (34 :: nat)"

definition strippedETag :: "string option \<Rightarrow> string" where
  "strippedETag s =
     (case s of None \<Rightarrow> ''''
      | Some t \<Rightarrow> rev (dropWhile (\<lambda>c. c = quote_char) (rev (dropWhile (\<lambda>c. c = quote_char) t))))"

definition formatRange :: "int \<Rightarrow> int \<Rightarrow> string" where
  "formatRange off len =
     (if off < 0 then ''bytes='' @ showInt off
      else if len \<le> 0 then ''bytes='' @ showInt off @ ''-''
      else ''bytes='' @ showInt off @ ''-'' @ showInt (wrap64 (wrap64 (off + len) - 1)))"

text \<open>\<open>errors.As\<close> finds the first error of its type.\<close>

definition firstResponse :: "err \<Rightarrow> nat option" where
  "firstResponse e =
     (case List.find (\<lambda>x. case x of EResponse st y \<Rightarrow> True | _ \<Rightarrow> False) (errTree e) of
        Some (EResponse st y) \<Rightarrow> Some st
      | _ \<Rightarrow> None)"

definition isNotFound :: "err \<Rightarrow> bool" where
  "isNotFound e \<longleftrightarrow>
     ENoSuchKey \<in> set (errTree e) \<or> ENotFoundAPI \<in> set (errTree e) \<or> firstResponse e = Some 404"

definition isPreconditionFailed :: "err \<Rightarrow> bool" where
  "isPreconditionFailed e \<longleftrightarrow> firstResponse e = Some 412"

section \<open>Operations\<close>

definition s3_cacheControl :: "ctx \<Rightarrow> putObjectInput \<Rightarrow> putObjectInput" where
  "s3_cacheControl c pi =
     (let cc = cacheControlFromContext c
      in if cc \<noteq> '''' then pi\<lparr>piCacheControl := Some cc\<rparr> else pi)"

definition s3_put_err :: "string \<Rightarrow> err \<Rightarrow> err" where
  "s3_put_err what e =
     (if isPreconditionFailed e then EWrap2 ErrPreconditionFailed e else EWrap what e)"

definition s3_put :: "'s s3client \<Rightarrow> s3 \<Rightarrow> ctx \<Rightarrow> string \<Rightarrow> reader \<Rightarrow> int \<Rightarrow> string option \<Rightarrow> 's
    \<Rightarrow> (err + string) \<times> reader \<times> 's" where
  "s3_put C a c key body len ifMatch s =
     (let pi = \<lparr>piBucket = s3Bucket a, piKey = keyOf a key, piBody = body,
                piContentLength = Some len, piIfNoneMatch = None, piIfMatch = None,
                piCacheControl = None\<rparr>;
          pi = s3_cacheControl c (applyIfMatch pi ifMatch)
      in case putObject C c pi (conditionalOpts ifMatch) s of
           (Inl e, r, s1) \<Rightarrow> (Inl (s3_put_err ''objectstore/s3: Put'' e), r, s1)
         | (Inr etag, r, s1) \<Rightarrow> (Inr (strippedETag etag), r, s1))"

definition s3_putStream :: "'s s3client \<Rightarrow> s3 \<Rightarrow> ctx \<Rightarrow> string \<Rightarrow> reader \<Rightarrow> string option \<Rightarrow> 's
    \<Rightarrow> (err + string) \<times> reader \<times> 's" where
  "s3_putStream C a c key body ifMatch s =
     (let pi = \<lparr>piBucket = s3Bucket a, piKey = keyOf a key, piBody = body,
                piContentLength = None, piIfNoneMatch = None, piIfMatch = None,
                piCacheControl = None\<rparr>;
          pi = s3_cacheControl c (applyIfMatch pi ifMatch)
      in case upload C c pi (conditionalOpts ifMatch) s of
           (Inl e, r, s1) \<Rightarrow> (Inl (s3_put_err ''objectstore/s3: PutStream'' e), r, s1)
         | (Inr etag, r, s1) \<Rightarrow> (Inr (strippedETag etag), r, s1))"

definition s3_get :: "'s s3client \<Rightarrow> s3 \<Rightarrow> ctx \<Rightarrow> string \<Rightarrow> 's \<Rightarrow> (err + body \<times> string) \<times> 's" where
  "s3_get C a c key s =
     (let opts = (if consistentReadFromContext c then [tigrisConsistent] else [])
      in case getObject C c \<lparr>giBucket = s3Bucket a, giKey = keyOf a key, giRange = None\<rparr> opts s of
           (Inl e, s1) \<Rightarrow>
             if isNotFound e then (Inl ErrNotFound, s1)
             else (Inl (EWrap ''objectstore/s3: Get'' e), s1)
         | (Inr (b, etag), s1) \<Rightarrow> (Inr (b, strippedETag etag), s1))"

definition s3_getRange :: "'s s3client \<Rightarrow> s3 \<Rightarrow> ctx \<Rightarrow> string \<Rightarrow> int \<Rightarrow> int \<Rightarrow> 's
    \<Rightarrow> (err + body) \<times> 's" where
  "s3_getRange C a c key off len s =
     (case getObject C c \<lparr>giBucket = s3Bucket a, giKey = keyOf a key,
             giRange = Some (formatRange off len)\<rparr> [] s of
        (Inl e, s1) \<Rightarrow>
          if isNotFound e then (Inl ErrNotFound, s1)
          else (Inl (EWrap ''objectstore/s3: GetRange'' e), s1)
      | (Inr (b, etag), s1) \<Rightarrow> (Inr b, s1))"

fun s3_listEntries :: "s3 \<Rightarrow> s3Object list \<Rightarrow> objectInfo list" where
  "s3_listEntries a [] = []"
| "s3_listEntries a (c # cs) =
     (case obKey c of
        None \<Rightarrow> s3_listEntries a cs
      | Some k \<Rightarrow>
          if \<not> prefix (s3Prefix a) k then s3_listEntries a cs
          else \<lparr>oKey = drop (length (s3Prefix a)) k,
                oSize = (case obSize c of None \<Rightarrow> 0 | Some n \<Rightarrow> n),
                oLastModified = (case obLastModified c of None \<Rightarrow> 0 | Some t \<Rightarrow> t),
                oETag = strippedETag (obETag c)\<rparr> # s3_listEntries a cs)"

definition s3_list :: "'s s3client \<Rightarrow> s3 \<Rightarrow> ctx \<Rightarrow> string \<Rightarrow> string \<Rightarrow> 's
    \<Rightarrow> (err + objectInfo list) \<times> 's" where
  "s3_list C a c pre startAfter s =
     (case listObjectsV2 C c \<lparr>liBucket = s3Bucket a, liPrefix = keyOf a pre,
             liStartAfter = (if startAfter \<noteq> '''' then Some (keyOf a startAfter) else None)\<rparr> s of
        (Inl e, s1) \<Rightarrow> (Inl (EWrap ''objectstore/s3: List'' e), s1)
      | (Inr contents, s1) \<Rightarrow> (Inr (s3_listEntries a contents), s1))"

definition s3_stat :: "'s s3client \<Rightarrow> s3 \<Rightarrow> ctx \<Rightarrow> string \<Rightarrow> 's \<Rightarrow> (err + objectInfo) \<times> 's" where
  "s3_stat C a c key s =
     (case headObject C c \<lparr>kiBucket = s3Bucket a, kiKey = keyOf a key\<rparr> s of
        (Inl e, s1) \<Rightarrow>
          if isNotFound e then (Inl ErrNotFound, s1)
          else (Inl (EWrap ''objectstore/s3: Stat'' e), s1)
      | (Inr out, s1) \<Rightarrow>
          (Inr \<lparr>oKey = key,
                oSize = (case hoContentLength out of None \<Rightarrow> 0 | Some n \<Rightarrow> n),
                oLastModified = (case hoLastModified out of None \<Rightarrow> 0 | Some t \<Rightarrow> t),
                oETag = strippedETag (hoETag out)\<rparr>, s1))"

definition s3_delete :: "'s s3client \<Rightarrow> s3 \<Rightarrow> ctx \<Rightarrow> string \<Rightarrow> 's \<Rightarrow> (err + unit) \<times> 's" where
  "s3_delete C a c key s =
     (case headObject C c \<lparr>kiBucket = s3Bucket a, kiKey = keyOf a key\<rparr> s of
        (Inl e, s1) \<Rightarrow>
          if isNotFound e then (Inl ErrNotFound, s1)
          else (Inl (EWrap ''objectstore/s3: Delete head'' e), s1)
      | (Inr out, s1) \<Rightarrow>
          (case deleteObject C c \<lparr>kiBucket = s3Bucket a, kiKey = keyOf a key\<rparr> s1 of
             (Inl e, s2) \<Rightarrow> (Inl (EWrap ''objectstore/s3: Delete'' e), s2)
           | (Inr u, s2) \<Rightarrow> (Inr (), s2)))"

definition s3_bucket :: "'s s3client \<Rightarrow> s3 \<Rightarrow> ('s, body) bucket" where
  "s3_bucket C a = \<lparr>
     bPut = s3_put C a, bPutStream = s3_putStream C a, bGet = s3_get C a,
     bGetRange = s3_getRange C a, bStat = s3_stat C a, bList = s3_list C a,
     bDelete = s3_delete C a\<rparr>"

end
