(* ===== verification/S3Contract.thy ===== *)
theory S3Contract
  imports S3
begin

text \<open>
  What s3.go relies on from the service and the SDK, as named hypotheses over an abstraction of
  the service's state (\<open>s3_service\<close>), and the result: under them the S3 backend keeps the
  bucket contract, for the range reads that its Range header can express. The header itself is
  shown to denote the requested range under the HTTP rules.
\<close>

section \<open>Range headers\<close>

text \<open>The byte ranges of RFC 9110: a first and last position, a first one, or a suffix length.\<close>

datatype rangeSpec = FromTo nat nat | From nat | Suffix nat

definition parseRange :: "string \<Rightarrow> rangeSpec option" where
  "parseRange h =
     (if \<not> prefix ''bytes='' h then None
      else case split_on (CHR ''-'') (drop 6 h) of
        [a, b] \<Rightarrow>
          if a = '''' then map_option Suffix (parseNat b)
          else (case parseNat a of
                  None \<Rightarrow> None
                | Some x \<Rightarrow>
                    if b = '''' then Some (From x)
                    else (case parseNat b of
                            None \<Rightarrow> None
                          | Some y \<Rightarrow> if y < x then None else Some (FromTo x y)))
      | _ \<Rightarrow> None)"

text \<open>The part a range selects; \<open>None\<close> is the 416 answer. A header that is no range is ignored.\<close>

definition http_range :: "string \<Rightarrow> bytes \<Rightarrow> bytes option" where
  "http_range h c =
     (case parseRange h of
        None \<Rightarrow> Some c
      | Some (FromTo x y) \<Rightarrow> if x < length c then Some (take (Suc (y - x)) (drop x c)) else None
      | Some (From x) \<Rightarrow> if x < length c then Some (drop x c) else None
      | Some (Suffix n) \<Rightarrow> if n = 0 \<or> c = [] then None else Some (drop (length c - n) c))"

text \<open>
  The range reads that the header expresses, and those whose range is also satisfiable: a
  suffix range carries no length, the last position must not overflow, and the service rejects
  a range that selects nothing.
\<close>

definition s3_rng :: "nat \<Rightarrow> int \<Rightarrow> int \<Rightarrow> bool" where
  "s3_rng sz off len \<longleftrightarrow>
     (if off < 0 then len \<le> 0 \<or> min (int sz) (- off) \<le> len
      else 0 < len \<longrightarrow> off + len \<le> 2 ^ 63)"

definition s3_rlive :: "nat \<Rightarrow> int \<Rightarrow> int \<Rightarrow> bool" where
  "s3_rlive sz off len \<longleftrightarrow> s3_rng sz off len \<and> (if off < 0 then 0 < sz else off < int sz)"

lemma split_on_digits:
  "sep \<notin> set a \<Longrightarrow> split_on sep (a @ sep # b) = a # split_on sep b"
  by (induction a) auto

lemma split_on_none: "sep \<notin> set a \<Longrightarrow> split_on sep a = [a]"
  by (induction a) auto

lemma showNat_ne [simp]: "showNat n \<noteq> []"
  using showNat_digits [of n] by simp

lemma parseRange_suffix: "parseRange (''bytes='' @ CHR ''-'' # showNat n) = Some (Suffix n)"
  using split_on_digits [of "CHR ''-''" "[]" "showNat n"]
  by (simp add: parseRange_def split_on_none)

lemma parseRange_from: "parseRange (''bytes='' @ showNat x @ ''-'') = Some (From x)"
  using split_on_digits [of "CHR ''-''" "showNat x" "[]"]
  by (simp add: parseRange_def)

lemma parseRange_fromTo:
  "parseRange (''bytes='' @ showNat x @ ''-'' @ showNat y) = (if y < x then None else Some (FromTo x y))"
  using split_on_digits [of "CHR ''-''" "showNat x" "showNat y"]
  by (simp add: parseRange_def split_on_none)

lemma wrap64_pred:
  assumes "0 \<le> off" and "0 < len" and "off + len \<le> 2 ^ 63"
  shows "wrap64 (wrap64 (off + len) - 1) = off + len - 1"
proof -
  have "is_i64 (off + len - 1)" using assms by (simp add: is_i64_def)
  then show ?thesis by (simp add: wrap64_minus_left)
qed

lemma take_suffix_all: "n \<le> m \<Longrightarrow> length c = n \<Longrightarrow> take m c = c"
  by simp

lemma formatRange_denotes':
  assumes "s3_rng (length c) off len"
  shows "http_range (formatRange off len) c
    = (if s3_rlive (length c) off len then Some (range_of c off len) else None)"
proof (cases "off < 0")
  case True
  have len: "len \<le> 0 \<or> min (int (length c)) (- off) \<le> len"
    using assms True by (auto simp: s3_rng_def)
  have h: "http_range (formatRange off len) c
      = (if c = [] then None else Some (drop (length c - nat (- off)) c))"
    using True parseRange_suffix [of "nat (- off)"]
    by (simp add: formatRange_def showInt_def http_range_def)
  have start: "range_start (length c) off = length c - nat (- off)"
    using True by (simp add: range_start_def)
  have "length (drop (length c - nat (- off)) c) \<le> nat len" if "0 < len"
    using len that True by (auto simp: min_def split: if_splits)
  then have "range_of c off len = drop (length c - nat (- off)) c"
    by (simp add: range_of_def start Let_def)
  then show ?thesis using h True assms by (simp add: s3_rlive_def)
next
  case False
  have start: "nat off < length c \<Longrightarrow> range_start (length c) off = nat off"
    using False by (simp add: range_start_def)
  have live: "s3_rlive (length c) off len \<longleftrightarrow> nat off < length c"
    using False assms by (auto simp: s3_rlive_def)
  show ?thesis
  proof (cases "len \<le> 0")
    case True
    have "formatRange off len = ''bytes='' @ showNat (nat off) @ ''-''"
      using False True by (simp add: formatRange_def showInt_def)
    then show ?thesis using parseRange_from [of "nat off"] True
      by (simp add: http_range_def range_of_def start live)
  next
    case pos: False
    have le: "off + len \<le> 2 ^ 63" using assms False pos by (auto simp: s3_rng_def)
    have "wrap64 (wrap64 (off + len) - 1) = off + len - 1"
      by (rule wrap64_pred) (use False pos le in auto)
    then have h: "formatRange off len
        = ''bytes='' @ showNat (nat off) @ ''-'' @ showNat (nat (off + len - 1))"
      using False pos by (simp add: formatRange_def showInt_def)
    have "Suc (nat (off + len - 1) - nat off) = nat len" "\<not> nat (off + len - 1) < nat off"
      using False pos by auto
    then show ?thesis using h parseRange_fromTo [of "nat off" "nat (off + len - 1)"] pos
      by (simp add: http_range_def range_of_def start live Let_def)
  qed
qed

section \<open>What the service promises\<close>

text \<open>
  The state of the service is abstracted to the objects of one bucket under their full keys,
  with their tags as a client sees them, that is unquoted. An SDK error is not one of the
  package's sentinels, unless the reader it was given failed with one.
\<close>

definition put_cond :: "objects \<Rightarrow> putObjectInput \<Rightarrow> bool" where
  "put_cond m pi \<longleftrightarrow> (piIfNoneMatch pi \<noteq> None \<longrightarrow> m (piKey pi) = None)
     \<and> (\<forall>t. piIfMatch pi = Some t \<longrightarrow> map_option snd (m (piKey pi)) = Some t)"

definition put_answer :: "objects \<Rightarrow> putObjectInput \<Rightarrow> err + string option \<Rightarrow> objects \<Rightarrow> bool" where
  "put_answer m pi res m' \<longleftrightarrow>
     (case res of
        Inr t \<Rightarrow> \<exists>v. readAll (piBody pi) = (v, None)
          \<and> (\<forall>n. piContentLength pi = Some n \<longrightarrow> 0 \<le> n \<longrightarrow> n = int (length v))
          \<and> put_cond m pi \<and> m' = m(piKey pi \<mapsto> (v, strippedETag t))
      | Inl e \<Rightarrow>
          (m' = m \<or> (\<exists>v t. readAll (piBody pi) = (v, None) \<and> put_cond m pi
                       \<and> m' = m(piKey pi \<mapsto> (v, t))))
          \<and> (isPreconditionFailed e \<longrightarrow> m' = m \<and> \<not> put_cond m pi)
          \<and> (clean_reader (piBody pi) \<longrightarrow> \<not> errIs e ErrPreconditionFailed))"

definition put_serves where
  "put_serves call bkt sinv Kf os quiet \<longleftrightarrow>
     (\<forall>c pi h s res r s'. sinv s \<longrightarrow> piBucket pi = bkt \<longrightarrow> piKey pi \<in> Kf \<longrightarrow>
        call c pi h s = (res, r, s') \<longrightarrow>
        sinv s' \<and> put_answer (os s) pi res (os s') \<and>
        (\<forall>v. quiet s \<longrightarrow> ctxErr c = None \<longrightarrow> readAll (piBody pi) = (v, None) \<longrightarrow>
           (\<forall>n. piContentLength pi = Some n \<longrightarrow> n = int (length v)) \<longrightarrow>
           quiet s' \<and> (if put_cond (os s) pi then \<exists>t. res = Inr t
                       else \<exists>e. res = Inl e \<and> (isPreconditionFailed e
                              \<or> isNotFound e \<and> piIfMatch pi \<noteq> None \<and> os s (piKey pi) = None))))"

text \<open>
  Amazon S3 answers an If-Match write of a missing object with 404, not 412. Services that answer
  412 there too satisfy \<open>answers_412\<close>.
\<close>

definition answers_412 where
  "answers_412 call bkt sinv Kf os \<longleftrightarrow>
     (\<forall>c pi h s e r s'. sinv s \<longrightarrow> piBucket pi = bkt \<longrightarrow> piKey pi \<in> Kf \<longrightarrow>
        os s (piKey pi) = None \<longrightarrow> call c pi h s = (Inl e, r, s') \<longrightarrow> \<not> isNotFound e)"

definition get_range_of :: "getObjectInput \<Rightarrow> bytes \<Rightarrow> bytes option" where
  "get_range_of gi v = (case giRange gi of None \<Rightarrow> Some v | Some h \<Rightarrow> http_range h v)"

definition get_serves where
  "get_serves call bkt sinv Kf os quiet \<longleftrightarrow>
     (\<forall>c gi h s res s'. sinv s \<longrightarrow> giBucket gi = bkt \<longrightarrow> giKey gi \<in> Kf \<longrightarrow>
        call c gi h s = (res, s') \<longrightarrow>
        sinv s' \<and> os s' = os s \<and>
        (case res of
           Inr (b, t) \<Rightarrow> \<exists>v w. os s (giKey gi) = Some (v, strippedETag t)
             \<and> get_range_of gi v = Some w \<and> delivers (copy_all b) w
         | Inl e \<Rightarrow> (isNotFound e \<longrightarrow> os s (giKey gi) = None) \<and> \<not> errIs e ErrNotFound) \<and>
        (quiet s \<longrightarrow> ctxErr c = None \<longrightarrow> quiet s' \<and>
           (case os s (giKey gi) of
              None \<Rightarrow> \<exists>e. res = Inl e \<and> isNotFound e
            | Some (v, e) \<Rightarrow> get_range_of gi v \<noteq> None \<longrightarrow>
                (\<exists>b t. res = Inr (b, t) \<and> snd (copy_all b) = None))))"

definition head_serves where
  "head_serves call bkt sinv Kf os quiet \<longleftrightarrow>
     (\<forall>c ki s res s'. sinv s \<longrightarrow> kiBucket ki = bkt \<longrightarrow> kiKey ki \<in> Kf \<longrightarrow>
        call c ki s = (res, s') \<longrightarrow>
        sinv s' \<and> os s' = os s \<and>
        (case res of
           Inr h \<Rightarrow> \<exists>v. os s (kiKey ki) = Some (v, strippedETag (hoETag h))
             \<and> hoContentLength h = Some (int (length v))
         | Inl e \<Rightarrow> (isNotFound e \<longrightarrow> os s (kiKey ki) = None) \<and> \<not> errIs e ErrNotFound) \<and>
        (quiet s \<longrightarrow> ctxErr c = None \<longrightarrow> quiet s' \<and>
           (if os s (kiKey ki) = None then \<exists>e. res = Inl e \<and> isNotFound e
            else \<exists>h. res = Inr h)))"

definition list_answer :: "nat \<Rightarrow> objects \<Rightarrow> listObjectsV2Input \<Rightarrow> s3Object list \<Rightarrow> bool" where
  "list_answer page m li cs \<longleftrightarrow>
     map obKey cs = map Some (take page
       (list_keys m (liPrefix li) (case liStartAfter li of None \<Rightarrow> '''' | Some x \<Rightarrow> x)))
     \<and> (\<forall>o' \<in> set cs. \<forall>k. obKey o' = Some k \<longrightarrow> (\<exists>v. m k = Some (v, strippedETag (obETag o'))
          \<and> obSize o' = Some (int (length v))))"

definition list_serves where
  "list_serves call bkt sinv os page quiet \<longleftrightarrow>
     (\<forall>c li s res s'. sinv s \<longrightarrow> liBucket li = bkt \<longrightarrow> call c li s = (res, s') \<longrightarrow>
        sinv s' \<and> os s' = os s \<and> (\<forall>cs. res = Inr cs \<longrightarrow> list_answer page (os s) li cs) \<and>
        (quiet s \<longrightarrow> ctxErr c = None \<longrightarrow> quiet s' \<and> (\<exists>cs. res = Inr cs)))"

text \<open>DeleteObject succeeds whether or not the object exists.\<close>

definition delete_serves where
  "delete_serves call bkt sinv Kf os quiet \<longleftrightarrow>
     (\<forall>c ki s res s'. sinv s \<longrightarrow> kiBucket ki = bkt \<longrightarrow> kiKey ki \<in> Kf \<longrightarrow>
        call c ki s = (res, s') \<longrightarrow>
        sinv s' \<and>
        (case res of
           Inr u \<Rightarrow> os s' = (os s)(kiKey ki := None)
         | Inl e \<Rightarrow> (os s' = os s \<or> os s' = (os s)(kiKey ki := None)) \<and> \<not> errIs e ErrNotFound) \<and>
        (quiet s \<longrightarrow> ctxErr c = None \<longrightarrow> quiet s' \<and> (\<exists>u. res = Inr u)))"

definition s3_service where
  "s3_service C bkt sinv Kf os page quiet \<longleftrightarrow>
     0 < page \<and>
     (\<forall>s. sinv s \<longrightarrow> finite (dom (os s)) \<and> dom (os s) \<subseteq> Kf
        \<and> (\<forall>k v e. os s k = Some (v, e) \<longrightarrow> e \<noteq> '''')) \<and>
     put_serves (putObject C) bkt sinv Kf os quiet \<and>
     put_serves (upload C) bkt sinv Kf os quiet \<and>
     get_serves (getObject C) bkt sinv Kf os quiet \<and>
     head_serves (headObject C) bkt sinv Kf os quiet \<and>
     list_serves (listObjectsV2 C) bkt sinv os page quiet \<and>
     delete_serves (deleteObject C) bkt sinv Kf os quiet"

section \<open>The contract of the backend\<close>

definition put_input :: "s3 \<Rightarrow> ctx \<Rightarrow> string \<Rightarrow> reader \<Rightarrow> int option \<Rightarrow> string option \<Rightarrow> putObjectInput" where
  "put_input a c key body len ifMatch =
     s3_cacheControl c (applyIfMatch
       \<lparr>piBucket = s3Bucket a, piKey = keyOf a key, piBody = body, piContentLength = len,
        piIfNoneMatch = None, piIfMatch = None, piCacheControl = None\<rparr> ifMatch)"

lemma put_input_sel [simp]:
  "piBucket (put_input a c k r n t) = s3Bucket a"
  "piKey (put_input a c k r n t) = keyOf a k"
  "piBody (put_input a c k r n t) = r"
  "piContentLength (put_input a c k r n t) = n"
  by (simp_all add: put_input_def s3_cacheControl_def applyIfMatch_def Let_def split: option.split)

lemma put_input_cond: "put_cond m (put_input a c k r n t) \<longleftrightarrow> oprecond (m (keyOf a k)) t"
  unfolding put_cond_def put_input_sel
  by (auto simp: put_input_def s3_cacheControl_def applyIfMatch_def Let_def oprecond_def
      split: option.split)

lemma s3_put_eq:
  "s3_put C a c k r n t s =
     (case putObject C c (put_input a c k r (Some n) t) (conditionalOpts t) s of
        (Inl e, r, s1) \<Rightarrow> (Inl (s3_put_err ''objectstore/s3: Put'' e), r, s1)
      | (Inr etag, r, s1) \<Rightarrow> (Inr (strippedETag etag), r, s1))"
  by (simp add: s3_put_def put_input_def Let_def)

lemma s3_putStream_eq:
  "s3_putStream C a c k r t s =
     (case upload C c (put_input a c k r None t) (conditionalOpts t) s of
        (Inl e, r, s1) \<Rightarrow> (Inl (s3_put_err ''objectstore/s3: PutStream'' e), r, s1)
      | (Inr etag, r, s1) \<Rightarrow> (Inr (strippedETag etag), r, s1))"
  by (simp add: s3_putStream_def put_input_def Let_def)

lemma s3_put_err_is [simp]:
  "errIs (s3_put_err what e) ErrPreconditionFailed
     \<longleftrightarrow> isPreconditionFailed e \<or> errIs e ErrPreconditionFailed"
  by (simp add: s3_put_err_def)

text \<open>Put and PutStream, from the answer of the call they make.\<close>

definition s3_put_result where
  "s3_put_result what x = (case x of
      (Inl e, r, s1) \<Rightarrow> (Inl (s3_put_err what e), r, s1)
    | (Inr etag, r, s1) \<Rightarrow> (Inr (strippedETag etag), r, s1))"

lemma s3_put_contract:
  assumes "put_serves call (s3Bucket a) sinv Kf os quiet" and "sinv s" and "keyOf a k \<in> Kf"
    and r: "s3_put_result what (call c (put_input a c k r n t) h s) = (res, r', s')"
    and n: "n = None \<or> n = Some m"
  shows "sinv s'"
    and "oput_spec (view_store (s3Prefix a) (os s)) k r (case n of None \<Rightarrow> - 1 | Some m \<Rightarrow> m) t res
      (view_store (s3Prefix a) (os s'))"
    and "quiet s \<Longrightarrow> ctxErr c = None \<Longrightarrow> readAll r = (v, None) \<Longrightarrow> n = None \<or> n = Some (int (length v))
      \<Longrightarrow> answers_412 call (s3Bucket a) sinv Kf os
      \<Longrightarrow> quiet s' \<and> (if oprecond (view_store (s3Prefix a) (os s) k) t then \<exists>e. res = Inr e
            else \<exists>e. res = Inl e \<and> errIs e ErrPreconditionFailed)"
proof -
  obtain r1 r2 s1 where call: "call c (put_input a c k r n t) h s = (r1, r2, s1)"
    by (metis surj_pair)
  then have s1: "s1 = s'" and res: "res = map_sum (s3_put_err what) strippedETag r1"
    using r by (auto simp: s3_put_result_def split: sum.splits)
  note ans = assms(1) [unfolded put_serves_def, rule_format, OF assms(2) _ _ call,
      unfolded put_input_sel put_input_cond, OF refl assms(3)]
  show "sinv s'" using ans s1 by simp
  have "put_answer (os s) (put_input a c k r n t) r1 (os s')" using ans s1 by simp
  then show "oput_spec (view_store (s3Prefix a) (os s)) k r (case n of None \<Rightarrow> - 1 | Some m \<Rightarrow> m) t res
      (view_store (s3Prefix a) (os s'))"
    using n unfolding res put_answer_def oput_spec_def put_input_sel put_input_cond
    by (cases r1) (auto simp: keyOf_def)
  assume "quiet s" "ctxErr c = None" "readAll r = (v, None)" "n = None \<or> n = Some (int (length v))"
    and "answers_412 call (s3Bucket a) sinv Kf os"
  moreover from this(5) have "os s (keyOf a k) = None \<Longrightarrow> r1 = Inl e \<Longrightarrow> \<not> isNotFound e" for e
    using assms(2,3) call unfolding answers_412_def by (metis put_input_sel(1,2))
  ultimately show "quiet s' \<and> (if oprecond (view_store (s3Prefix a) (os s) k) t then \<exists>e. res = Inr e
            else \<exists>e. res = Inl e \<and> errIs e ErrPreconditionFailed)"
    using ans s1 by (auto simp: res keyOf_def split: if_splits)
qed

lemma s3_listEntries_keys:
  assumes "map obKey cs = map (\<lambda>k. Some (s3Prefix a @ k)) ks"
  shows "map oKey (s3_listEntries a cs) = ks"
  using assms by (induction cs arbitrary: ks) auto

lemma s3_listEntries_info:
  assumes "\<forall>o' \<in> set cs. \<forall>k. obKey o' = Some k \<longrightarrow>
      (\<exists>v. m k = Some (v, strippedETag (obETag o')) \<and> obSize o' = Some (int (length v)))"
  shows "list_all (oinfo_ok (view_store (s3Prefix a) m)) (s3_listEntries a cs)"
  using assms
proof (induction cs)
  case (Cons c cs)
  have ih: "list_all (oinfo_ok (view_store (s3Prefix a) m)) (s3_listEntries a cs)"
    by (rule Cons.IH) (use Cons.prems in simp)
  show ?case
  proof (cases "obKey c")
    case None
    with ih show ?thesis unfolding s3_listEntries.simps(2) None by (simp only: option.case)
  next
    case (Some k)
    then obtain v where "m k = Some (v, strippedETag (obETag c))" "obSize c = Some (int (length v))"
      using Cons.prems by auto
    then have "prefix (s3Prefix a) k \<Longrightarrow> oinfo_ok (view_store (s3Prefix a) m)
        \<lparr>oKey = drop (length (s3Prefix a)) k,
         oSize = (case obSize c of None \<Rightarrow> 0 | Some n \<Rightarrow> n),
         oLastModified = (case obLastModified c of None \<Rightarrow> 0 | Some t \<Rightarrow> t),
         oETag = strippedETag (obETag c)\<rparr>"
      by (auto simp: oinfo_ok_def prefix_def)
    with ih show ?thesis
      unfolding s3_listEntries.simps(2) Some by (simp only: option.case list.pred_inject split: if_split) simp
  qed
qed simp

lemma s3_list_contract:
  assumes "list_serves (listObjectsV2 C) (s3Bucket a) sinv os page quiet" and "sinv s"
    and fin: "finite (dom (os s))" and r: "s3_list C a c p sa s = (res, s')"
  shows "sinv s' \<and> os s' = os s \<and> olist_spec page (view_store (s3Prefix a) (os s)) p sa res"
    and "quiet s \<Longrightarrow> ctxErr c = None \<Longrightarrow> quiet s' \<and> (\<exists>x. res = Inr x)"
proof -
  let ?li = "\<lparr>liBucket = s3Bucket a, liPrefix = keyOf a p,
    liStartAfter = (if sa \<noteq> '''' then Some (keyOf a sa) else None)\<rparr>"
  obtain r1 s1 where call: "listObjectsV2 C c ?li s = (r1, s1)" by fastforce
  note ans = assms(1) [unfolded list_serves_def, rule_format, OF assms(2) _ call, simplified]
  have s1: "s1 = s'" and res: "res = map_sum (EWrap ''objectstore/s3: List'') (s3_listEntries a) r1"
    using r call by (auto simp: s3_list_def split: sum.splits)
  have "olist_spec page (view_store (s3Prefix a) (os s)) p sa res"
  proof (cases r1)
    case (Inr cs)
    then have la: "list_answer page (os s) ?li cs" using ans by simp
    have "(case liStartAfter ?li of None \<Rightarrow> '''' | Some x \<Rightarrow> x)
        = (if sa \<noteq> '''' then s3Prefix a @ sa else sa)" by (simp add: keyOf_def)
    then have "map obKey cs = map (\<lambda>k. Some (s3Prefix a @ k))
        (take page (list_keys (view_store (s3Prefix a) (os s)) p sa))"
      using la list_keys_view [OF fin, of "s3Prefix a" p sa]
      by (simp add: list_answer_def keyOf_def take_map)
    then show ?thesis
      using s3_listEntries_keys s3_listEntries_info [of cs "os s" a] la Inr res
      by (simp add: olist_spec_def list_answer_def)
  qed (use res in \<open>simp add: olist_spec_def\<close>)
  then show "sinv s' \<and> os s' = os s \<and> olist_spec page (view_store (s3Prefix a) (os s)) p sa res"
    using ans s1 by simp
  show "quiet s \<Longrightarrow> ctxErr c = None \<Longrightarrow> quiet s' \<and> (\<exists>x. res = Inr x)"
    using ans s1 by (auto simp: res)
qed

lemma s3_get_contract:
  assumes "get_serves (getObject C) (s3Bucket a) sinv Kf os quiet" and "sinv s" and "keyOf a k \<in> Kf"
    and r: "s3_get C a c k s = (res, s')"
  shows "sinv s' \<and> os s' = os s \<and> oget_spec copy_all (view_store (s3Prefix a) (os s)) k res"
    and "quiet s \<Longrightarrow> ctxErr c = None \<Longrightarrow> quiet s' \<and>
      (if view_store (s3Prefix a) (os s) k = None then res = Inl ErrNotFound
       else \<exists>b e. res = Inr (b, e) \<and> snd (copy_all b) = None)"
proof -
  let ?gi = "\<lparr>giBucket = s3Bucket a, giKey = keyOf a k, giRange = None\<rparr>"
  let ?h = "if consistentReadFromContext c then [tigrisConsistent] else []"
  obtain r1 s1 where call: "getObject C c ?gi ?h s = (r1, s1)" by fastforce
  note ans = assms(1) [unfolded get_serves_def, rule_format, OF assms(2) _ _ call,
      simplified, OF assms(3)]
  have s1: "s1 = s'" and res: "res = (case r1 of
      Inl e \<Rightarrow> Inl (if isNotFound e then ErrNotFound else EWrap ''objectstore/s3: Get'' e)
    | Inr (b, t) \<Rightarrow> Inr (b, strippedETag t))"
    using r call by (auto simp: s3_get_def Let_def split: sum.splits if_splits)
  show "sinv s' \<and> os s' = os s \<and> oget_spec copy_all (view_store (s3Prefix a) (os s)) k res"
    using ans s1 by (cases r1) (auto simp: res oget_spec_def keyOf_def get_range_of_def)
  assume "quiet s" "ctxErr c = None"
  then show "quiet s' \<and> (if view_store (s3Prefix a) (os s) k = None then res = Inl ErrNotFound
       else \<exists>b e. res = Inr (b, e) \<and> snd (copy_all b) = None)"
    using ans s1 by (cases r1) (auto simp: res keyOf_def get_range_of_def split: option.splits)
qed

lemma s3_getRange_contract:
  assumes "get_serves (getObject C) (s3Bucket a) sinv Kf os quiet" and "sinv s" and "keyOf a k \<in> Kf"
    and r: "s3_getRange C a c k off len s = (res, s')"
  shows "sinv s' \<and> os s' = os s
      \<and> ogetRange_spec copy_all s3_rng (view_store (s3Prefix a) (os s)) k off len res"
    and "quiet s \<Longrightarrow> ctxErr c = None \<Longrightarrow> quiet s' \<and>
      (case view_store (s3Prefix a) (os s) k of None \<Rightarrow> res = Inl ErrNotFound
       | Some (v, e) \<Rightarrow> s3_rlive (length v) off len \<longrightarrow> (\<exists>b. res = Inr b \<and> snd (copy_all b) = None))"
proof -
  let ?gi = "\<lparr>giBucket = s3Bucket a, giKey = keyOf a k, giRange = Some (formatRange off len)\<rparr>"
  obtain r1 s1 where call: "getObject C c ?gi [] s = (r1, s1)" by fastforce
  note ans = assms(1) [unfolded get_serves_def, rule_format, OF assms(2) _ _ call,
      simplified, OF assms(3)]
  have hr: "s3_rng (length v) off len \<Longrightarrow> http_range (formatRange off len) v
      = (if s3_rlive (length v) off len then Some (range_of v off len) else None)" for v
    by (rule formatRange_denotes')
  have lr: "s3_rlive (length v) off len \<Longrightarrow> s3_rng (length v) off len" for v
    by (simp add: s3_rlive_def)
  have s1: "s1 = s'" and res: "res = (case r1 of
      Inl e \<Rightarrow> Inl (if isNotFound e then ErrNotFound else EWrap ''objectstore/s3: GetRange'' e)
    | Inr (b, t) \<Rightarrow> Inr b)"
    using r call by (auto simp: s3_getRange_def split: sum.splits if_splits)
  show "sinv s' \<and> os s' = os s
      \<and> ogetRange_spec copy_all s3_rng (view_store (s3Prefix a) (os s)) k off len res"
    using ans s1 hr
    by (cases r1) (auto simp: res ogetRange_spec_def keyOf_def get_range_of_def split: if_splits)
  assume "quiet s" "ctxErr c = None"
  then show "quiet s' \<and>
      (case view_store (s3Prefix a) (os s) k of None \<Rightarrow> res = Inl ErrNotFound
       | Some (v, e) \<Rightarrow> s3_rlive (length v) off len \<longrightarrow> (\<exists>b. res = Inr b \<and> snd (copy_all b) = None))"
    using ans s1 hr lr by (cases r1) (auto simp: res keyOf_def get_range_of_def split: option.splits)
qed

lemma s3_stat_contract:
  assumes "head_serves (headObject C) (s3Bucket a) sinv Kf os quiet" and "sinv s" and "keyOf a k \<in> Kf"
    and r: "s3_stat C a c k s = (res, s')"
  shows "sinv s' \<and> os s' = os s \<and> ostat_spec (view_store (s3Prefix a) (os s)) k res"
    and "quiet s \<Longrightarrow> ctxErr c = None \<Longrightarrow> quiet s' \<and>
      (if view_store (s3Prefix a) (os s) k = None then res = Inl ErrNotFound else \<exists>x. res = Inr x)"
proof -
  obtain r1 s1 where call: "headObject C c \<lparr>kiBucket = s3Bucket a, kiKey = keyOf a k\<rparr> s = (r1, s1)"
    by fastforce
  note ans = assms(1) [unfolded head_serves_def, rule_format, OF assms(2) _ _ call,
      simplified, OF assms(3)]
  have s1: "s1 = s'" using r call by (auto simp: s3_stat_def split: sum.splits if_splits)
  show "sinv s' \<and> os s' = os s \<and> ostat_spec (view_store (s3Prefix a) (os s)) k res"
    using ans s1 r call
    by (cases r1) (auto simp: s3_stat_def ostat_spec_def oinfo_ok_def keyOf_def split: if_splits)
  assume "quiet s" "ctxErr c = None"
  then show "quiet s' \<and>
      (if view_store (s3Prefix a) (os s) k = None then res = Inl ErrNotFound else \<exists>x. res = Inr x)"
    using ans s1 r call by (cases r1) (auto simp: s3_stat_def keyOf_def split: if_splits)
qed

lemma s3_delete_contract:
  assumes "head_serves (headObject C) (s3Bucket a) sinv Kf os quiet"
    and "delete_serves (deleteObject C) (s3Bucket a) sinv Kf os quiet"
    and "sinv s" and "keyOf a k \<in> Kf" and r: "s3_delete C a c k s = (res, s')"
  shows "sinv s' \<and> odelete_spec (view_store (s3Prefix a) (os s)) k res
      (view_store (s3Prefix a) (os s'))"
    and "quiet s \<Longrightarrow> ctxErr c = None \<Longrightarrow> quiet s' \<and>
      (if view_store (s3Prefix a) (os s) k = None then res = Inl ErrNotFound else res = Inr ())"
proof -
  let ?ki = "\<lparr>kiBucket = s3Bucket a, kiKey = keyOf a k\<rparr>"
  obtain r1 s1 where head: "headObject C c ?ki s = (r1, s1)" by fastforce
  note hans = assms(1) [unfolded head_serves_def, rule_format, OF assms(3) _ _ head,
      simplified, OF assms(4)]
  obtain r2 s2 where del: "deleteObject C c ?ki s1 = (r2, s2)" by fastforce
  have sinv1: "sinv s1" using hans by simp
  note dans = assms(2) [unfolded delete_serves_def, rule_format, OF sinv1 _ _ del,
      simplified, OF assms(4)]
  show "sinv s' \<and> odelete_spec (view_store (s3Prefix a) (os s)) k res
      (view_store (s3Prefix a) (os s'))"
  proof (cases r1)
    case (Inl e)
    then show ?thesis
      using r head hans by (auto simp: s3_delete_def odelete_spec_def keyOf_def split: if_splits)
  next
    case (Inr h)
    then obtain v where "os s (keyOf a k) = Some (v, strippedETag (hoETag h))" using hans by auto
    then show ?thesis
      using r head del hans dans Inr
      by (cases r2) (auto simp: s3_delete_def odelete_spec_def keyOf_def)
  qed
  assume q: "quiet s" "ctxErr c = None"
  then have q1: "quiet s1" using hans by simp
  show "quiet s' \<and>
      (if view_store (s3Prefix a) (os s) k = None then res = Inl ErrNotFound else res = Inr ())"
    using r head del hans dans q q1
    by (cases "os s (s3Prefix a @ k)") (auto simp: s3_delete_def keyOf_def split: if_splits)
qed

text \<open>The backend over the prefix it was opened with.\<close>

lemma s3_bucket_safe:
  assumes "s3_service C (s3Bucket a) sinv Kf os page quiet"
  shows "bucket_contract (s3_bucket C a) sinv (view_keys (s3Prefix a) Kf)
    (\<lambda>s. view_store (s3Prefix a) (os s)) copy_all page s3_rng"
proof -
  note svc = assms [unfolded s3_service_def]
  have put: "put_serves (putObject C) (s3Bucket a) sinv Kf os quiet"
    and up: "put_serves (upload C) (s3Bucket a) sinv Kf os quiet"
    and get: "get_serves (getObject C) (s3Bucket a) sinv Kf os quiet"
    and head: "head_serves (headObject C) (s3Bucket a) sinv Kf os quiet"
    and lst: "list_serves (listObjectsV2 C) (s3Bucket a) sinv os page quiet"
    and del: "delete_serves (deleteObject C) (s3Bucket a) sinv Kf os quiet"
    and st: "sinv s \<Longrightarrow> finite (dom (os s))" "sinv s \<Longrightarrow> dom (os s) \<subseteq> Kf" for s
    using svc by blast+
  have kf: "k \<in> view_keys (s3Prefix a) Kf \<Longrightarrow> keyOf a k \<in> Kf" for k by (simp add: keyOf_def)
  show ?thesis
  proof (unfold_locales, goal_cases)
    case (1 s)
    then show ?case by (simp add: view_dom_finite st)
  next
    case (2 s)
    then show ?case using st(2) [OF 2] by (auto simp: view_store_def)
  next
    case (3 s k v e)
    then show ?case using svc by (auto simp: view_store_def)
  next
    case 4
    then show ?case using svc by blast
  next
    case (5 s k c r n t res r' s')
    then have "s3_put_result ''objectstore/s3: Put''
        (putObject C c (put_input a c k r (Some n) t) (conditionalOpts t) s) = (res, r', s')"
      by (simp add: s3_bucket_def s3_put_eq s3_put_result_def)
    from s3_put_contract(1,2) [OF put 5(1) kf [OF 5(2)] this, of n] show ?case by simp
  next
    case (6 s k c r t res r' s')
    then have "s3_put_result ''objectstore/s3: PutStream''
        (upload C c (put_input a c k r None t) (conditionalOpts t) s) = (res, r', s')"
      by (simp add: s3_bucket_def s3_putStream_eq s3_put_result_def)
    from s3_put_contract(1,2) [OF up 6(1) kf [OF 6(2)] this] show ?case by simp
  next
    case (7 s k c res s')
    then show ?case using s3_get_contract(1) [OF get 7(1) kf [OF 7(2)]] by (simp add: s3_bucket_def)
  next
    case (8 s k off len c res s')
    then show ?case
      using s3_getRange_contract(1) [OF get 8(1) kf [OF 8(2)]] by (simp add: s3_bucket_def)
  next
    case (9 s k c res s')
    then show ?case using s3_stat_contract(1) [OF head 9(1) kf [OF 9(2)]] by (simp add: s3_bucket_def)
  next
    case (10 s c p sa res s')
    then show ?case using s3_list_contract(1) [OF lst 10(1) st(1) [OF 10(1)]] by (simp add: s3_bucket_def)
  next
    case (11 s k c res s')
    then show ?case
      using s3_delete_contract(1) [OF head del 11(1) kf [OF 11(2)]] by (simp add: s3_bucket_def)
  qed
qed

lemma s3_bucket_live:
  assumes "s3_service C (s3Bucket a) sinv Kf os page quiet"
    and "answers_412 (putObject C) (s3Bucket a) sinv Kf os"
    and "answers_412 (upload C) (s3Bucket a) sinv Kf os"
  shows "live_bucket (s3_bucket C a) sinv (view_keys (s3Prefix a) Kf)
    (\<lambda>s. view_store (s3Prefix a) (os s)) copy_all page s3_rng quiet s3_rlive"
proof -
  note svc = assms(1) [unfolded s3_service_def]
  have put: "put_serves (putObject C) (s3Bucket a) sinv Kf os quiet"
    and up: "put_serves (upload C) (s3Bucket a) sinv Kf os quiet"
    and get: "get_serves (getObject C) (s3Bucket a) sinv Kf os quiet"
    and head: "head_serves (headObject C) (s3Bucket a) sinv Kf os quiet"
    and lst: "list_serves (listObjectsV2 C) (s3Bucket a) sinv os page quiet"
    and del: "delete_serves (deleteObject C) (s3Bucket a) sinv Kf os quiet"
    and st: "sinv s \<Longrightarrow> finite (dom (os s))" for s
    using svc by blast+
  have kf: "k \<in> view_keys (s3Prefix a) Kf \<Longrightarrow> keyOf a k \<in> Kf" for k by (simp add: keyOf_def)
  show ?thesis
  proof (rule live_bucket.intro [OF s3_bucket_safe [OF assms(1)]], unfold_locales, goal_cases)
    case (1 s k c r v n t res r' s')
    then have "s3_put_result ''objectstore/s3: Put''
        (putObject C c (put_input a c k r (Some n) t) (conditionalOpts t) s) = (res, r', s')"
      by (simp add: s3_bucket_def s3_put_eq s3_put_result_def)
    from s3_put_contract(3) [OF put 1(1) kf [OF 1(3)] this, of n] show ?case using 1 assms(2) by simp
  next
    case (2 s k c r v t res r' s')
    then have "s3_put_result ''objectstore/s3: PutStream''
        (upload C c (put_input a c k r None t) (conditionalOpts t) s) = (res, r', s')"
      by (simp add: s3_bucket_def s3_putStream_eq s3_put_result_def)
    from s3_put_contract(3) [OF up 2(1) kf [OF 2(3)] this] show ?case using 2 assms(3) by simp
  next
    case (3 s k c res s')
    then show ?case using s3_get_contract(2) [OF get 3(1) kf [OF 3(3)], of c res s']
      by (auto simp: s3_bucket_def)
  next
    case (4 s k c off len res s')
    then show ?case
      using s3_getRange_contract(2) [OF get 4(1) kf [OF 4(3)], of c off len res s']
      by (auto simp: s3_bucket_def split: option.splits)
  next
    case (5 s k c res s')
    then show ?case using s3_stat_contract(2) [OF head 5(1) kf [OF 5(3)]] by (simp add: s3_bucket_def)
  next
    case (6 s c p sa res s')
    then show ?case using s3_list_contract(2) [OF lst 6(1) st(1) [OF 6(1)]] by (simp add: s3_bucket_def)
  next
    case (7 s k c res s')
    then show ?case
      using s3_delete_contract(2) [OF head del 7(1) kf [OF 7(3)]] by (simp add: s3_bucket_def)
  qed
qed

end
