(* ===== verification/S3Correct.thy ===== *)
theory S3Correct
  imports S3Contract
begin

text \<open>
  The S3 backend as properties, and a small in-memory object service that meets the hypotheses
  about S3: it shows that they can hold, in both variants of the answer to a conditional write
  of a missing object, and runs the concrete examples.
\<close>

section \<open>An in-memory service\<close>

text \<open>
  The state is a list of keys with contents; a tag is computed from the content and travels
  quoted. \<open>miss\<close> is the status with which an If-Match write of a missing object fails.
\<close>

type_synonym mem = "(string \<times> bytes) list"

definition mem_tag :: "bytes \<Rightarrow> string" where
  "mem_tag v = ''e'' @ hexEncode v @ ''e''"

definition quoted :: "string \<Rightarrow> string" where
  "quoted t = quote_char # t @ [quote_char]"

definition mem_os :: "mem \<Rightarrow> objects" where
  "mem_os s = tagged mem_tag (map_of s)"

definition mem_put :: "nat \<Rightarrow> ctx \<Rightarrow> putObjectInput \<Rightarrow> headers \<Rightarrow> mem \<Rightarrow> (err + string option) \<times> reader \<times> mem" where
  "mem_put miss c pi h s =
     (case ctxErr c of Some e \<Rightarrow> (Inl (ECtx e), piBody pi, s)
      | None \<Rightarrow>
     (case readAll (piBody pi) of
        (v, Some e) \<Rightarrow> (Inl (EMsg ''body''), [], s)
      | (v, None) \<Rightarrow>
          if \<not> (case piContentLength pi of None \<Rightarrow> True | Some n \<Rightarrow> n = int (length v)) then
            (Inl (EMsg ''length''), [], s)
          else if put_cond (mem_os s) pi then
            (Inr (Some (quoted (mem_tag v))), [], AList.update (piKey pi) v s)
          else if piIfMatch pi \<noteq> None \<and> map_of s (piKey pi) = None then
            (Inl (EResponse miss (EMsg ''missing'')), [], s)
          else (Inl (EResponse 412 (EMsg ''condition'')), [], s)))"

definition mem_get :: "ctx \<Rightarrow> getObjectInput \<Rightarrow> headers \<Rightarrow> mem \<Rightarrow> (err + body \<times> string option) \<times> mem" where
  "mem_get c gi h s =
     (case ctxErr c of Some e \<Rightarrow> (Inl (ECtx e), s)
      | None \<Rightarrow>
     (case map_of s (giKey gi) of
        None \<Rightarrow> (Inl (EResponse 404 ENoSuchKey), s)
      | Some v \<Rightarrow>
          (case get_range_of gi v of
             None \<Rightarrow> (Inl (EResponse 416 (EMsg ''range'')), s)
           | Some w \<Rightarrow> (Inr (NetB [(w, None)], Some (quoted (mem_tag v))), s))))"

definition mem_head :: "ctx \<Rightarrow> keyInput \<Rightarrow> mem \<Rightarrow> (err + headOutput) \<times> mem" where
  "mem_head c ki s =
     (case ctxErr c of Some e \<Rightarrow> (Inl (ECtx e), s)
      | None \<Rightarrow>
     (case map_of s (kiKey ki) of
        None \<Rightarrow> (Inl (EResponse 404 ENotFoundAPI), s)
      | Some v \<Rightarrow> (Inr \<lparr>hoContentLength = Some (int (length v)), hoLastModified = None,
                        hoETag = Some (quoted (mem_tag v))\<rparr>, s)))"

definition mem_list :: "ctx \<Rightarrow> listObjectsV2Input \<Rightarrow> mem \<Rightarrow> (err + s3Object list) \<times> mem" where
  "mem_list c li s =
     (case ctxErr c of Some e \<Rightarrow> (Inl (ECtx e), s)
      | None \<Rightarrow>
     (Inr (map (\<lambda>k. let v = the (map_of s k)
                    in \<lparr>obKey = Some k, obSize = Some (int (length v)), obLastModified = None,
                        obETag = Some (quoted (mem_tag v))\<rparr>)
             (take 1000 (list_keys (mem_os s) (liPrefix li)
                (case liStartAfter li of None \<Rightarrow> '''' | Some x \<Rightarrow> x)))), s))"

definition mem_delete :: "ctx \<Rightarrow> keyInput \<Rightarrow> mem \<Rightarrow> (err + unit) \<times> mem" where
  "mem_delete c ki s =
     (case ctxErr c of Some e \<Rightarrow> (Inl (ECtx e), s)
      | None \<Rightarrow> (Inr (), AList.delete (kiKey ki) s))"

definition mem_client :: "nat \<Rightarrow> mem s3client" where
  "mem_client miss = \<lparr>putObject = mem_put miss, upload = mem_put miss, getObject = mem_get,
     listObjectsV2 = mem_list, headObject = mem_head, deleteObject = mem_delete\<rparr>"

lemma quote_char_e [simp]: "CHR ''e'' \<noteq> quote_char"
  by code_simp

lemma strippedETag_quoted [simp]: "strippedETag (Some (quoted (mem_tag v))) = mem_tag v"
  by (simp add: strippedETag_def quoted_def mem_tag_def)

lemma status_is [simp]:
  "isNotFound (EResponse st (EMsg m)) \<longleftrightarrow> st = 404"
  "isPreconditionFailed (EResponse st (EMsg m)) \<longleftrightarrow> st = 412"
  "isNotFound (EMsg m) = False" "isNotFound (ECtx x) = False"
  "isPreconditionFailed (EMsg m) = False" "isPreconditionFailed (ECtx x) = False"
  "isNotFound (EResponse st ENoSuchKey)" "isNotFound (EResponse st ENotFoundAPI)"
  by (auto simp: isNotFound_def isPreconditionFailed_def firstResponse_def)

lemma mem_os_update: "mem_os (AList.update k v s) = (mem_os s)(k \<mapsto> (v, mem_tag v))"
  by (simp add: mem_os_def update_conv' tagged_upd)

lemma mem_os_delete: "mem_os (AList.delete k s) = (mem_os s)(k := None)"
  by (simp add: mem_os_def delete_conv' tagged_del)

lemma mem_put_serves:
  assumes "miss = 404 \<or> miss = 412"
  shows "put_serves (mem_put miss) bkt (\<lambda>s. True) UNIV mem_os (\<lambda>s. True)"
  unfolding put_serves_def
proof (intro allI impI, goal_cases)
  case (1 c pi h s res r s')
  show ?case
  proof (cases "ctxErr c")
    case (Some e)
    then show ?thesis using 1 by (auto simp: mem_put_def put_answer_def)
  next
    case None
    obtain v e where rd: "readAll (piBody pi) = (v, e)" by fastforce
    show ?thesis
      using 1 None rd assms
      by (cases e) (auto simp: mem_put_def put_answer_def mem_os_update split: if_splits option.splits;
          auto simp: mem_os_def)+
  qed
qed

lemma mem_answers_412:
  "answers_412 (mem_put 412) bkt (\<lambda>s. True) UNIV mem_os"
  by (auto simp: answers_412_def mem_put_def split: option.splits prod.splits if_splits)

lemma mem_get_serves: "get_serves mem_get bkt (\<lambda>s. True) UNIV mem_os (\<lambda>s. True)"
  by (auto simp: get_serves_def mem_get_def mem_os_def delivers_def split: option.splits)

lemma mem_head_serves: "head_serves mem_head bkt (\<lambda>s. True) UNIV mem_os (\<lambda>s. True)"
  by (auto simp: head_serves_def mem_head_def mem_os_def split: option.splits)

lemma mem_delete_serves: "delete_serves mem_delete bkt (\<lambda>s. True) UNIV mem_os (\<lambda>s. True)"
  by (auto simp: delete_serves_def mem_delete_def mem_os_delete split: option.splits)

lemma mem_list_serves: "list_serves mem_list bkt (\<lambda>s. True) mem_os 1000 (\<lambda>s. True)"
proof -
  have "\<exists>v. map_of s k = Some v" if "k \<in> set (take 1000 (list_keys (map_of s) p sa))" for k p sa
    and s :: mem
  proof -
    have "finite {k \<in> dom (mem_os s). selects p sa k}"
      by (simp add: mem_os_def finite_dom_map_of)
    then show ?thesis using in_set_takeD [OF that] by (auto simp: list_keys_def mem_os_def tagged_app)
  qed
  then show ?thesis
    by (auto simp: list_serves_def mem_list_def list_answer_def Let_def mem_os_def split: option.splits)
      (metis option.sel)+
qed

lemma mem_service:
  assumes "miss = 404 \<or> miss = 412"
  shows "s3_service (mem_client miss) bkt (\<lambda>s. True) UNIV mem_os 1000 (\<lambda>s. True)"
proof -
  have "finite (dom (mem_os s))" for s by (simp add: mem_os_def finite_dom_map_of)
  then show ?thesis
    using mem_put_serves [OF assms] mem_get_serves mem_head_serves mem_list_serves mem_delete_serves
    by (simp add: s3_service_def mem_client_def) (simp add: mem_os_def mem_tag_def)
qed

section \<open>The contract\<close>

text \<open>
  C21. The S3 backend keeps the bucket contract over the objects below its prefix, given the
  documented answers of the service: every answer it derives from the SDK's answers and errors
  means for those objects what the interface promises, with the range reads that a Range header
  can express. If the service also answers a failed condition on a missing object with 412, the
  backend is live: every call succeeds or fails for its documented reason.
\<close>

theorem s3_keeps_contract:
  assumes "s3_service C (s3Bucket a) sinv Kf os page quiet"
  shows "bucket_contract (s3_bucket C a) sinv (view_keys (s3Prefix a) Kf)
      (\<lambda>s. view_store (s3Prefix a) (os s)) copy_all page s3_rng
    \<and> (answers_412 (putObject C) (s3Bucket a) sinv Kf os \<and> answers_412 (upload C) (s3Bucket a) sinv Kf os
       \<longrightarrow> live_bucket (s3_bucket C a) sinv (view_keys (s3Prefix a) Kf)
            (\<lambda>s. view_store (s3Prefix a) (os s)) copy_all page s3_rng quiet s3_rlive)"
  using s3_bucket_safe [OF assms] s3_bucket_live [OF assms] by blast

theorem s3_keeps_contract_witness:
  "live_bucket (s3_bucket (mem_client 412) \<lparr>s3Bucket = ''b'', s3Prefix = ''p/''\<rparr>) (\<lambda>s. True)
     (view_keys ''p/'' UNIV) (\<lambda>s. view_store ''p/'' (mem_os s)) copy_all 1000 s3_rng (\<lambda>s. True) s3_rlive"
  using s3_keeps_contract [of "mem_client 412" "\<lparr>s3Bucket = ''b'', s3Prefix = ''p/''\<rparr>", OF mem_service]
    mem_answers_412 by (simp add: mem_client_def)

interpretation s3mem: live_bucket "s3_bucket (mem_client 412) a" "\<lambda>s. True" "view_keys (s3Prefix a) UNIV"
    "\<lambda>s. view_store (s3Prefix a) (mem_os s)" copy_all 1000 s3_rng "\<lambda>s. True" s3_rlive
  for a
  by (rule s3_bucket_live [OF mem_service]) (simp_all add: mem_client_def mem_answers_412)

text \<open>
  What a conditional write sends: Put asks the service for the prefixed key with the
  caller's reader and length, If-None-Match exactly for the if-absent condition, If-Match
  exactly for a tag, the cache policy exactly when one is in scope, and the global-leader header
  exactly for a conditional write; a failed condition comes back as the package's precondition
  error and any other error never does.
\<close>

theorem s3_put_request:
  "\<exists>pi. piBucket pi = s3Bucket a \<and> piKey pi = s3Prefix a @ k \<and> piBody pi = r
     \<and> piContentLength pi = Some n
     \<and> piIfNoneMatch pi = (if t = ifAbsentTag then Some ''*'' else None)
     \<and> piIfMatch pi = (if t = ifAbsentTag then None else t)
     \<and> piCacheControl pi = (if cacheControlFromContext c = '''' then None
                            else Some (cacheControlFromContext c))
     \<and> s3_put C a c k r n t s =
        (case putObject C c pi (if t = None then [] else [tigrisConsistent]) s of
           (Inr etag, r', s') \<Rightarrow> (Inr (strippedETag etag), r', s')
         | (Inl e, r', s') \<Rightarrow>
             (Inl (if isPreconditionFailed e then EWrap2 ErrPreconditionFailed e
                   else EWrap ''objectstore/s3: Put'' e), r', s'))"
proof -
  have "put_input a c k r (Some n) t = put_input a c k r (Some n) t \<and>
      s3_put C a c k r n t s =
        (case putObject C c (put_input a c k r (Some n) t) (if t = None then [] else [tigrisConsistent]) s of
           (Inr etag, r', s') \<Rightarrow> (Inr (strippedETag etag), r', s')
         | (Inl e, r', s') \<Rightarrow>
             (Inl (if isPreconditionFailed e then EWrap2 ErrPreconditionFailed e
                   else EWrap ''objectstore/s3: Put'' e), r', s'))"
    by (simp add: s3_put_eq conditionalOpts_def s3_put_err_def split: sum.split prod.split)
  moreover have "piIfNoneMatch (put_input a c k r (Some n) t) = (if t = ifAbsentTag then Some ''*'' else None)"
    "piIfMatch (put_input a c k r (Some n) t) = (if t = ifAbsentTag then None else t)"
    "piCacheControl (put_input a c k r (Some n) t) = (if cacheControlFromContext c = '''' then None
       else Some (cacheControlFromContext c))"
    by (auto simp: put_input_def s3_cacheControl_def applyIfMatch_def Let_def ifAbsentTag_def
        split: option.split)
  ultimately show ?thesis
    by (intro exI [of _ "put_input a c k r (Some n) t"]) (simp add: keyOf_def)
qed

section \<open>Ranges\<close>



text \<open>
  Where the Range header departs from the interface: when offset plus length passes the
  64-bit limit the last position wraps to a negative number, the header is no range and a
  service that ignores it sends the whole object; for an offset from the end the length is
  dropped, so more bytes come than were asked for; and a range that starts at the end of the
  object is an error (416) where the filesystem backend answers with an empty body.
\<close>

theorem formatRange_divergences:
  "formatRange 2 9223372036854775807 = ''bytes=2--9223372036854775808''
   \<and> http_range (formatRange 2 9223372036854775807) [1, 2, 3, 4] = Some [1, 2, 3, 4]
   \<and> range_of [1, 2, 3, 4 :: byte] 2 9223372036854775807 = [3, 4]
   \<and> http_range (formatRange (- 3) 1) [1, 2, 3, 4] = Some [2, 3, 4]
   \<and> range_of [1, 2, 3, 4 :: byte] (- 3) 1 = [2]
   \<and> http_range (formatRange 4 0) [1, 2, 3, 4] = None
   \<and> range_of [1, 2, 3, 4 :: byte] 4 0 = []"
proof -
  have n: "showNat 9223372036854775808 = ''9223372036854775808''" "showNat 2 = ''2''"
    by (simp_all add: showNat_step digit_chars)
  have w: "wrap64 (wrap64 9223372036854775809 - 1) = - 9223372036854775808"
    by (simp add: wrap64_def)
  have h: "formatRange 2 9223372036854775807 = ''bytes=2--9223372036854775808''"
    using n w by (simp add: formatRange_def showInt_def)
  have p: "parseRange ''bytes=2--9223372036854775808'' = None"
    by (simp add: parseRange_def)
  have s: "http_range (formatRange (- 3) 1) [1, 2, 3, 4] = Some [2, 3, 4]"
    using parseRange_suffix [of 3] by (simp add: formatRange_def showInt_def http_range_def)
  have e: "http_range (formatRange 4 0) [1, 2, 3, 4] = None"
    by (simp add: formatRange_denotes' s3_rng_def s3_rlive_def)
  show ?thesis using h p s e by (simp add: http_range_def range_of_def range_start_def)
qed

section \<open>Conditions on missing objects\<close>


end
