(* ===== verification/Heal.thy ===== *)
theory Heal
  imports Prefixed Float64
begin

text \<open>
  heal.go: self-healing reads. A healing body is a record of the fields of the Go struct; a
  killed connection shows as an error of the current body's Read. The times at which the code
  looks at its context (before healing, and at the end of the pause) consume a script of
  cancellation states, so the context may end at any of them. The watchdog is a state machine
  of its own.
\<close>

section \<open>Options\<close>

record healOpts =
  hoFloorBps :: int
  hoWindow :: int
  hoAttempts :: int
  hoBackoff :: int

definition defaultFloorBps :: int where
  "defaultFloorBps = 102400"

definition second :: int where
  "second = 1000000000"

definition defaultWindow :: int where
  "defaultWindow = 10 * second"

definition healDefaults :: "healOpts \<Rightarrow> healOpts" where
  "healDefaults h =
     (let h1 = (if hoFloorBps h = 0 then h\<lparr>hoFloorBps := defaultFloorBps\<rparr> else h);
          h2 = (if hoWindow h1 = 0 then h1\<lparr>hoWindow := defaultWindow\<rparr> else h1);
          h3 = (if hoAttempts h2 = 0 then h2\<lparr>hoAttempts := 6\<rparr> else h2)
      in if hoBackoff h3 = 0 then h3\<lparr>hoBackoff := 100000000\<rparr> else h3)"

section \<open>The watchdog\<close>

text \<open>
  \<open>minRate floor interval\<close> is the code's \<open>int64(float64(floor) * interval.Seconds())\<close>,
  computed in float64; the conversion truncates.
\<close>

record watchdog =
  wdFloor :: int
  wdInterval :: int
  wdWindows :: int
  wdBytes :: int
  wdBelow :: int
  wdLast :: int
  wdStopped :: bool
  wdKilled :: bool
  wdTimer :: bool

definition newWatchdog :: "int \<Rightarrow> int \<Rightarrow> watchdog" where
  "newWatchdog floor window = \<lparr>wdFloor = floor, wdInterval = goQuot window 4, wdWindows = 4,
     wdBytes = 0, wdBelow = 0, wdLast = 0, wdStopped = False, wdKilled = False, wdTimer = True\<rparr>"

definition minRate :: "int \<Rightarrow> int \<Rightarrow> int" where
  "minRate floor interval = f64_trunc (f64_mul (f64_of_int floor) (seconds interval))"

definition wd_progress :: "int \<Rightarrow> watchdog \<Rightarrow> watchdog" where
  "wd_progress n w = w\<lparr>wdBytes := wrap64 (wdBytes w + n)\<rparr>"

definition wd_stop :: "watchdog \<Rightarrow> watchdog" where
  "wd_stop w = w\<lparr>wdStopped := True, wdTimer := False\<rparr>"

text \<open>The timer function: it closes the target, or re-arms the timer.\<close>

definition wd_check :: "watchdog \<Rightarrow> watchdog" where
  "wd_check w =
     (if wdStopped w then w\<lparr>wdTimer := False\<rparr>
      else
        let b = wdBytes w;
            minimum = max 1 (minRate (wdFloor w) (wdInterval w));
            below = (if wrap64 (b - wdLast w) < minimum then wdBelow w + 1 else 0);
            w1 = w\<lparr>wdBelow := below, wdLast := b\<rparr>
        in if below \<ge> wdWindows w then w1\<lparr>wdKilled := True, wdTimer := False\<rparr>
           else w1\<lparr>wdTimer := True\<rparr>)"

section \<open>Healing bodies\<close>

record healingBody =
  hbCtx :: ctx
  hbTime :: "ctxerr option list"
  hbKey :: string
  hbOff :: int
  hbLen :: int
  hbEtag :: string
  hbConsumed :: int
  hbAttempts :: int
  hbCur :: body
  hbDog :: watchdog
  hbClosed :: bool

text \<open>The context as of now, and the next moment the code looks at it.\<close>

definition hb_ctx :: "healingBody \<Rightarrow> ctx" where
  "hb_ctx r = (case hbTime r of [] \<Rightarrow> hbCtx r | e # es \<Rightarrow> (hbCtx r)\<lparr>ctxErr := e\<rparr>)"

definition hb_tick :: "healingBody \<Rightarrow> healingBody" where
  "hb_tick r = r\<lparr>hbTime := tl (hbTime r)\<rparr>"

definition armWatchdog :: "healOpts \<Rightarrow> healingBody \<Rightarrow> healingBody" where
  "armWatchdog opts r =
     (let floor = (if hbAttempts r \<ge> hoAttempts opts then 0 else hoFloorBps opts)
      in r\<lparr>hbDog := newWatchdog floor (hoWindow opts)\<rparr>)"

definition newHealingBody :: "healOpts \<Rightarrow> ctx \<Rightarrow> ctxerr option list \<Rightarrow> string \<Rightarrow> int \<Rightarrow> int \<Rightarrow> string
    \<Rightarrow> body \<Rightarrow> healingBody" where
  "newHealingBody opts c ts key off len etag b =
     armWatchdog opts \<lparr>hbCtx = c, hbTime = ts, hbKey = key, hbOff = off, hbLen = len,
       hbEtag = etag, hbConsumed = 0, hbAttempts = 1, hbCur = b, hbDog = newWatchdog 0 0,
       hbClosed = False\<rparr>"

definition heal_get :: "('s, body) bucket \<Rightarrow> healOpts \<Rightarrow> ctx \<Rightarrow> ctxerr option list \<Rightarrow> string \<Rightarrow> 's
    \<Rightarrow> (err + healingBody \<times> string) \<times> 's" where
  "heal_get B opts c ts key s =
     (case bGet B c key s of
        (Inl e, s1) \<Rightarrow> (Inl e, s1)
      | (Inr (b, etag), s1) \<Rightarrow> (Inr (newHealingBody opts c ts key 0 0 etag b, etag), s1))"

definition heal_getRange :: "('s, body) bucket \<Rightarrow> healOpts \<Rightarrow> ctx \<Rightarrow> ctxerr option list \<Rightarrow> string
    \<Rightarrow> int \<Rightarrow> int \<Rightarrow> 's \<Rightarrow> (err + healingBody) \<times> 's" where
  "heal_getRange B opts c ts key off len s =
     (case bGetRange B c key off len s of
        (Inl e, s1) \<Rightarrow> (Inl e, s1)
      | (Inr b, s1) \<Rightarrow> (Inr (newHealingBody opts c ts key off len '''' b), s1))"

text \<open>The other methods are those of the embedded bucket.\<close>

definition healingBucket where
  "healingBucket B opts ts = \<lparr>bPut = bPut B, bPutStream = bPutStream B,
     bGet = (\<lambda>c. heal_get B opts c ts), bGetRange = (\<lambda>c. heal_getRange B opts c ts),
     bStat = bStat B, bList = bList B, bDelete = bDelete B\<rparr>"

definition truncated :: "('s, body) bucket \<Rightarrow> healingBody \<Rightarrow> 's \<Rightarrow> bool \<times> 's" where
  "truncated B r s =
     (if hbOff r < 0 \<or> hbLen r = 0 \<or> hbConsumed r \<ge> hbLen r then (False, s)
      else (case bStat B (hb_ctx r) (hbKey r) s of
              (Inr info, s1) \<Rightarrow> (\<not> wrap64 (hbOff r + hbConsumed r) \<ge> oSize info, s1)
            | (Inl e, s1) \<Rightarrow> (True, s1)))"

definition remainingDone :: "healingBody \<Rightarrow> bool" where
  "remainingDone r =
     (if hbLen r > 0 then hbConsumed r \<ge> hbLen r
      else if hbOff r < 0 then wrap64 (hbOff r + hbConsumed r) \<ge> 0
      else False)"

text \<open>\<open>sleepHeal\<close>: the pause ends with the context's error or without one.\<close>

definition sleepHeal :: "healingBody \<Rightarrow> ctxerr option \<times> healingBody" where
  "sleepHeal r = (ctxErr (hb_ctx r), hb_tick r)"

definition heal :: "('s, body) bucket \<Rightarrow> healOpts \<Rightarrow> err \<Rightarrow> healingBody \<Rightarrow> 's
    \<Rightarrow> (err + unit) \<times> healingBody \<times> 's" where
  "heal B opts cause r s =
     (let r1 = r\<lparr>hbDog := wd_stop (hbDog r), hbCur := body_close (hbCur r)\<rparr> in
      if hbAttempts r1 \<ge> hoAttempts opts then
        (Inl (EWrap ''objectstore: read: connections exhausted'' cause), r1, s)
      else
        (case sleepHeal r1 of
           (Some e, r2) \<Rightarrow> (Inl (ECtx e), r2, s)
         | (None, r2) \<Rightarrow>
             (case bStat B (hb_ctx r2) (hbKey r2) s of
                (Inl e, s1) \<Rightarrow> (Inl (EWrap ''objectstore: heal: stat'' e), r2, s1)
              | (Inr info, s1) \<Rightarrow>
                  if hbEtag r2 \<noteq> '''' \<and> oETag info \<noteq> hbEtag r2 then
                    (Inl (EMsg ''objectstore: heal: object changed mid-read''), r2, s1)
                  else
                    let r3 = (if hbEtag r2 = '''' then r2\<lparr>hbEtag := oETag info\<rparr> else r2);
                        newOff = wrap64 (hbOff r3 + hbConsumed r3);
                        newLen = (if hbLen r3 > 0 then wrap64 (hbLen r3 - hbConsumed r3) else 0)
                    in (case bGetRange B (hb_ctx r3) (hbKey r3) newOff newLen s1 of
                          (Inl e, s2) \<Rightarrow> (Inl (EWrap ''objectstore: heal'' e), r3, s2)
                        | (Inr b, s2) \<Rightarrow>
                            (Inr (), armWatchdog opts
                               (r3\<lparr>hbAttempts := hbAttempts r3 + 1, hbCur := b\<rparr>), s2)))))"

lemma heal_attempts:
  assumes "heal B opts cause r s = (Inr u, r', s')"
  shows "hbAttempts r < hoAttempts opts \<and> hbAttempts r' = hbAttempts r + 1"
  using assms
  by (auto simp: heal_def Let_def sleepHeal_def armWatchdog_def hb_tick_def not_le
      split: if_splits option.splits sum.splits prod.splits)

text \<open>\<open>(*healingBody).Read\<close>; every turn of the loop uses up one of the allowed connections.\<close>

function heal_read :: "('s, body) bucket \<Rightarrow> healOpts \<Rightarrow> nat \<Rightarrow> healingBody \<Rightarrow> 's
    \<Rightarrow> (bytes \<times> err option) \<times> healingBody \<times> 's" where
  "heal_read B opts m r s =
     (case body_read m (hbCur r) of (bs, e, cur) \<Rightarrow>
      let r1 = (if bs \<noteq> [] then r\<lparr>hbCur := cur,
                  hbConsumed := wrap64 (hbConsumed r + int (length bs)),
                  hbDog := wd_progress (int (length bs)) (hbDog r)\<rparr>
                else r\<lparr>hbCur := cur\<rparr>)
      in case e of
           None \<Rightarrow> ((bs, None), r1, s)
         | Some x \<Rightarrow>
             (case (if errIs x EEOF then truncated B r1 s else (True, s)) of (tr, s1) \<Rightarrow>
              if \<not> tr then ((bs, Some EEOF), r1\<lparr>hbDog := wd_stop (hbDog r1)\<rparr>, s1)
              else
                let c = ctxErr (hb_ctx r1); r2 = hb_tick r1 in
                case c of
                  Some ce \<Rightarrow> ((bs, Some (ECtx ce)), r2, s1)
                | None \<Rightarrow>
                    if remainingDone r2 then ((bs, Some EEOF), r2\<lparr>hbDog := wd_stop (hbDog r2)\<rparr>, s1)
                    else
                      (case heal B opts x r2 s1 of
                         (Inl he, r3, s2) \<Rightarrow> ((bs, Some he), r3, s2)
                       | (Inr u, r3, s2) \<Rightarrow>
                           if bs \<noteq> [] then ((bs, None), r3, s2)
                           else heal_read B opts m r3 s2)))"
  by pat_completeness auto
termination
proof (relation "measure (\<lambda>(B, opts, m, r, s). nat (hoAttempts opts - hbAttempts r))", goal_cases)
  case 1
  show ?case by simp
next
  case 2
  then show ?case
    by (auto simp: hb_tick_def Let_def split: if_splits dest!: heal_attempts [OF sym])
qed

declare heal_read.simps [simp del]

definition heal_close :: "healingBody \<Rightarrow> healingBody" where
  "heal_close r =
     (if hbClosed r then r
      else r\<lparr>hbClosed := True, hbDog := wd_stop (hbDog r), hbCur := body_close (hbCur r)\<rparr>)"

text \<open>The rate limit of the warning: whether to log, and the time of the last log.\<close>

definition warnHeal :: "int \<Rightarrow> int \<Rightarrow> bool \<times> int" where
  "warnHeal now prev = (if wrap64 (now - prev) < 5 * second then (False, prev) else (True, now))"

end
