(* ===== verification/HealProps.thy ===== *)
theory HealProps
  imports Heal
begin

text \<open>
  What a healing body guarantees, over any backend that keeps the bucket contract: whatever
  connections break and wherever they break, the caller sees the requested bytes, in order and
  without repetition, and EOF only after the last of them; and the watchdog kills exactly the
  connections that stay below the floor.
\<close>

section \<open>The rest of a range\<close>

text \<open>
  The ranges for which the code's resumption is right: those from the front, and those from the
  end that lie within the object and carry no length.
\<close>

definition heal_range :: "nat \<Rightarrow> int \<Rightarrow> int \<Rightarrow> bool" where
  "heal_range sz off len \<longleftrightarrow>
     is_i64 off \<and> is_i64 len \<and> int sz < 2 ^ 63 \<and>
     (if off < 0 then - off \<le> int sz \<and> len \<le> 0 else 0 < len \<longrightarrow> off + len \<le> 2 ^ 63)"

definition resume_len :: "int \<Rightarrow> int \<Rightarrow> int" where
  "resume_len len c = (if len > 0 then len - c else 0)"

lemma range_of_length:
  "length (range_of v off len)
     = (let n = length v - range_start (length v) off in if len \<le> 0 then n else min (nat len) n)"
  by (simp add: range_of_def Let_def min.commute)

lemma range_of_rest:
  assumes "heal_range (length v) off len" and "c \<le> length (range_of v off len)"
    and "0 < len \<longrightarrow> int c < len" and "off < 0 \<longrightarrow> off + int c < 0"
  shows "range_of v (off + int c) (resume_len len (int c)) = drop c (range_of v off len)"
proof -
  have start: "drop (range_start (length v) (off + int c)) v
      = drop c (drop (range_start (length v) off) v)"
  proof (cases "off < 0")
    case True
    then have "range_start (length v) (off + int c) = range_start (length v) off + c"
      using assms(1,4) by (simp add: range_start_def heal_range_def; arith)
    then show ?thesis by (simp add: add.commute)
  next
    case False
    have "c \<le> length v - min (nat off) (length v)"
      using assms(2) False by (auto simp: range_of_length range_start_def Let_def split: if_splits)
    then have "min (nat (off + int c)) (length v) = min (nat off) (length v) + c"
      using False by (auto simp: min_def nat_add_distrib)
    then show ?thesis using False by (simp add: range_start_def add.commute)
  qed
  show ?thesis
  proof (cases "0 < len")
    case True
    then have "0 < len - int c" "nat (len - int c) = nat len - c" using assms(3) by auto
    then show ?thesis using True start
      by (simp add: range_of_def resume_len_def Let_def drop_take)
  next
    case False
    then show ?thesis using start by (simp add: range_of_def resume_len_def Let_def)
  qed
qed

lemma resume_i64:
  assumes "heal_range (length v) off len" and "c \<le> length (range_of v off len)"
  shows "wrap64 (off + int c) = off + int c" and "0 < len \<Longrightarrow> wrap64 (len - int c) = len - int c"
    and "is_i64 (off + int c)" and "is_i64 (resume_len len (int c))" and "is_i64 (int c)"
proof -
  have c: "int c \<le> int (length v)"
    using assms(2) by (auto simp: range_of_length Let_def split: if_splits)
  have "off + int c < 2 ^ 63 \<and> - (2 ^ 63) \<le> off + int c"
  proof (cases "off < 0 \<or> c = 0")
    case True
    then show ?thesis using c assms(1) by (auto simp: heal_range_def is_i64_def)
  next
    case False
    then have "c \<le> length v - nat off"
      using assms(2) by (auto simp: range_of_length range_start_def Let_def split: if_splits)
    then have "off + int c \<le> int (length v)" using False by linarith
    then show ?thesis using assms(1) False by (auto simp: heal_range_def)
  qed
  then show i: "is_i64 (off + int c)" by (simp add: is_i64_def)
  then show "wrap64 (off + int c) = off + int c" by simp
  have "is_i64 (len - int c)" if "0 < len"
    using assms that c by (auto simp: heal_range_def is_i64_def)
  then show "0 < len \<Longrightarrow> wrap64 (len - int c) = len - int c"
    and "is_i64 (resume_len len (int c))" by (auto simp: resume_len_def is_i64_def)
  show "is_i64 (int c)" using c assms(1) by (auto simp: heal_range_def is_i64_def)
qed

section \<open>The position of a body\<close>

definition hb_target :: "bytes \<Rightarrow> healingBody \<Rightarrow> bytes" where
  "hb_target v r = range_of v (hbOff r) (hbLen r)"

definition plain_end :: "body \<Rightarrow> bool" where
  "plain_end b \<longleftrightarrow> body_ok b \<and> (\<forall>y. snd (copy_all b) = Some y \<longrightarrow> \<not> errIs y EEOF)"

text \<open>The body stands after \<open>c\<close> bytes of the target, and the current connection delivers the rest.\<close>

definition hb_at :: "bytes \<Rightarrow> string \<Rightarrow> string \<Rightarrow> nat \<Rightarrow> healingBody \<Rightarrow> bool" where
  "hb_at v e k c r \<longleftrightarrow>
     hbKey r = k \<and> hbEtag r \<in> {'''', e} \<and> heal_range (length v) (hbOff r) (hbLen r)
     \<and> hbConsumed r = int c \<and> c \<le> length (hb_target v r) \<and> plain_end (hbCur r)
     \<and> delivers (copy_all (hbCur r)) (drop c (hb_target v r))"

lemma plain_end_read:
  assumes "plain_end b" and "body_read m b = (bs, None, b')"
  shows "plain_end b'"
  using body_read_step [of b m bs None b'] assms by (auto simp: plain_end_def)

text \<open>One Read of the current connection takes bytes of the target.\<close>

lemma delivers_read:
  assumes "plain_end b" and "delivers (copy_all b) rest" and "body_read m b = (bs, x, b')"
  shows "prefix bs rest"
    and "x = None \<Longrightarrow> delivers (copy_all b') (drop (length bs) rest)"
    and "x = Some y \<Longrightarrow> errIs y EEOF \<Longrightarrow> bs = rest"
proof -
  note step = body_read_step [of b m bs x b']
  have ok: "body_ok b" using assms(1) by (simp add: plain_end_def)
  show "prefix bs rest"
    using step [OF ok assms(3)] assms(2) by (cases x) (auto simp: delivers_def prefix_def)
  show "delivers (copy_all b') (drop (length bs) rest)" if "x = None"
    using step [OF ok assms(3)] assms(2) that by (auto simp: delivers_def prefix_def)
  show "bs = rest" if "x = Some y" "errIs y EEOF"
    using step [OF ok assms(3)] assms(1,2) that
    by (auto simp: delivers_def plain_end_def finish_def split: option.splits)
qed

lemma hb_target_frame [simp]:
  "hb_target v (r\<lparr>hbCur := b\<rparr>) = hb_target v r"
  "hb_target v (r\<lparr>hbConsumed := n\<rparr>) = hb_target v r"
  "hb_target v (r\<lparr>hbDog := d\<rparr>) = hb_target v r"
  "hb_target v (r\<lparr>hbTime := t\<rparr>) = hb_target v r"
  "hb_target v (r\<lparr>hbEtag := x\<rparr>) = hb_target v r"
  "hb_target v (r\<lparr>hbAttempts := a\<rparr>) = hb_target v r"
  by (simp_all add: hb_target_def)

lemma hb_ctx_key: "hbKey (hb_tick r) = hbKey r" "hb_target v (hb_tick r) = hb_target v r"
  by (simp_all add: hb_tick_def)

text \<open>What the bucket must provide for healing.\<close>

locale healing = ranged_bucket B inv K objs page rng
  for B :: "('s, body) bucket" and inv K objs page rng +
  assumes get_plain: "inv s \<Longrightarrow> k \<in> K \<Longrightarrow> bGet B c k s = (Inr (b, e), s') \<Longrightarrow> plain_end b"
    and getRange_plain: "inv s \<Longrightarrow> k \<in> K \<Longrightarrow> is_i64 off \<Longrightarrow> is_i64 len \<Longrightarrow>
      bGetRange B c k off len s = (Inr b, s') \<Longrightarrow> plain_end b"
begin

text \<open>A re-issued request resumes at the position.\<close>

lemma heal_resumes:
  assumes "inv s" and "k \<in> K" and obj: "objs s k = Some (v, e)"
    and r: "hbKey r = k" "hbEtag r \<in> {'''', e}" "heal_range (length v) (hbOff r) (hbLen r)"
      "hbConsumed r = int c" "c \<le> length (hb_target v r)" "\<not> remainingDone r"
    and h: "heal B opts cause r s = (res, r', s')"
  shows "inv s' \<and> objs s' = objs s" and "res = Inr u \<Longrightarrow> hb_at v e k c r'"
    and "hbOff r' = hbOff r \<and> hbLen r' = hbLen r"
proof -
  define r2 where "r2 = snd (sleepHeal (r\<lparr>hbDog := wd_stop (hbDog r), hbCur := body_close (hbCur r)\<rparr>))"
  have r2: "hbKey r2 = k" "hbEtag r2 = hbEtag r" "hbOff r2 = hbOff r" "hbLen r2 = hbLen r"
      "hbConsumed r2 = int c" "hb_target v r2 = hb_target v r"
    using r by (simp_all add: r2_def sleepHeal_def hb_tick_def)
  obtain ri s1 where st: "bStat B (hb_ctx r2) k s = (ri, s1)" by fastforce
  note so = stat_ok [OF assms(1,2) st]
  note i64 = resume_i64 [OF r(3) r(5) [unfolded hb_target_def]]
  have inv1: "inv s1" and o1: "objs s1 = objs s" using so by simp_all
  define r3 where "r3 = (if hbEtag r2 = '''' then r2\<lparr>hbEtag := oETag (projr ri)\<rparr> else r2)"
  have r3: "hbKey r3 = k" "hbOff r3 = hbOff r" "hbLen r3 = hbLen r" "hbConsumed r3 = int c"
      "hb_target v r3 = hb_target v r"
    using r2 by (simp_all add: r3_def)
  have len: "(if hbLen r > 0 then wrap64 (hbLen r - int c) else 0) = resume_len (hbLen r) (int c)"
    using i64(2) by (simp add: resume_len_def)
  obtain rg s2 where g: "bGetRange B (hb_ctx r3) k (hbOff r + int c) (resume_len (hbLen r) (int c)) s1
      = (rg, s2)" by fastforce
  note go = getRange_ok [OF inv1 assms(2) i64(3,4) g]
  have not_done: "0 < hbLen r \<longrightarrow> int c < hbLen r" "hbOff r < 0 \<longrightarrow> hbOff r + int c < 0"
  proof -
    show "0 < hbLen r \<longrightarrow> int c < hbLen r" using r(4,6) by (auto simp: remainingDone_def)
    have "hbOff r < 0 \<Longrightarrow> hbLen r \<le> 0" using r(3) by (simp add: heal_range_def)
    then show "hbOff r < 0 \<longrightarrow> hbOff r + int c < 0"
      using r(4,6) i64(1) by (auto simp: remainingDone_def)
  qed
  have rngc: "rng (length v) (hbOff r + int c) (resume_len (hbLen r) (int c))"
    using r(3) not_done by (intro rng_open) (auto simp: heal_range_def resume_len_def split: if_splits)
  have ef: "hbAttempts r \<ge> hoAttempts opts \<Longrightarrow> s' = s \<and> (\<exists>x. res = Inl x)
      \<and> hbOff r' = hbOff r \<and> hbLen r' = hbLen r"
    "hbAttempts r < hoAttempts opts \<Longrightarrow> (case sleepHeal (r\<lparr>hbDog := wd_stop (hbDog r),
         hbCur := body_close (hbCur r)\<rparr>) of
       (Some x, r2) \<Rightarrow> s' = s \<and> (\<exists>x. res = Inl x) \<and> hbOff r' = hbOff r \<and> hbLen r' = hbLen r
     | (None, _) \<Rightarrow> (case ri of
         Inl x \<Rightarrow> s' = s1 \<and> (\<exists>x. res = Inl x) \<and> r' = r2
       | Inr info \<Rightarrow>
           if hbEtag r2 \<noteq> '''' \<and> oETag info \<noteq> hbEtag r2
           then s' = s1 \<and> (\<exists>x. res = Inl x) \<and> r' = r2
           else (case rg of
               Inl x \<Rightarrow> s' = s2 \<and> (\<exists>x. res = Inl x) \<and> r' = r3
             | Inr b \<Rightarrow> s' = s2 \<and> r' = armWatchdog opts
                 (r3\<lparr>hbAttempts := hbAttempts r3 + 1, hbCur := b\<rparr>))))"
    using h st g r2 r3 i64(1) len r2_def
    by (auto simp: heal_def Let_def r3_def sleepHeal_def hb_tick_def
        split: if_splits option.splits sum.splits)
  show "inv s' \<and> objs s' = objs s"
    using ef so go o1 inv1 assms(1)
    by (cases "hbAttempts r \<ge> hoAttempts opts")
      (auto split: option.splits sum.splits if_splits prod.splits simp: not_le)
  show "hbOff r' = hbOff r \<and> hbLen r' = hbLen r"
    using ef r2 r3
    by (cases "hbAttempts r \<ge> hoAttempts opts")
      (auto split: option.splits sum.splits if_splits prod.splits simp: not_le armWatchdog_def)
  assume ok: "res = Inr u"
  obtain info b where "ri = Inr info" "rg = Inr b" and
    r': "r' = armWatchdog opts (r3\<lparr>hbAttempts := hbAttempts r3 + 1, hbCur := b\<rparr>)" and
    et: "\<not> (hbEtag r2 \<noteq> '''' \<and> oETag info \<noteq> hbEtag r2)"
    using ef ok
    by (cases "hbAttempts r \<ge> hoAttempts opts")
      (auto split: option.splits sum.splits if_splits prod.splits simp: not_le)
  have "oETag info = e"
    using so obj \<open>ri = Inr info\<close> by (auto simp: ostat_spec_def oinfo_ok_def)
  then have "hbEtag r3 \<in> {'''', e}" using r(2) r2(2) et \<open>ri = Inr info\<close> by (auto simp: r3_def)
  moreover have "plain_end b"
    using getRange_plain [OF inv1 assms(2) i64(3,4)] g \<open>rg = Inr b\<close> by blast
  moreover have "delivers (copy_all b) (drop c (hb_target v r))"
    using go \<open>rg = Inr b\<close> obj o1 rngc range_of_rest [OF r(3) r(5) [unfolded hb_target_def] not_done]
    by (auto simp: ogetRange_spec_def hb_target_def)
  ultimately show "hb_at v e k c r'"
    using r(3,5) r3 by (simp add: r' hb_at_def armWatchdog_def)
qed

end

section \<open>Reading\<close>

lemma hb_read_frame [simp]:
  "hbKey (hb_tick r) = hbKey r" "hbEtag (hb_tick r) = hbEtag r" "hbOff (hb_tick r) = hbOff r"
  "hbLen (hb_tick r) = hbLen r" "hbConsumed (hb_tick r) = hbConsumed r"
  "hbCur (hb_tick r) = hbCur r" "hbAttempts (hb_tick r) = hbAttempts r"
  by (simp_all add: hb_tick_def)

lemma remainingDone_tick [simp]: "remainingDone (hb_tick r) = remainingDone r"
  by (simp add: remainingDone_def)

text \<open>The state after the inner Read of one turn of the loop.\<close>

definition hb_after :: "healingBody \<Rightarrow> bytes \<Rightarrow> body \<Rightarrow> healingBody" where
  "hb_after r bs cur =
     (if bs \<noteq> [] then r\<lparr>hbCur := cur,
        hbConsumed := wrap64 (hbConsumed r + int (length bs)),
        hbDog := wd_progress (int (length bs)) (hbDog r)\<rparr>
      else r\<lparr>hbCur := cur\<rparr>)"

lemma hb_after_sel [simp]:
  "hbKey (hb_after r bs cur) = hbKey r" "hbEtag (hb_after r bs cur) = hbEtag r"
  "hbOff (hb_after r bs cur) = hbOff r" "hbLen (hb_after r bs cur) = hbLen r"
  "hbCur (hb_after r bs cur) = cur" "hbAttempts (hb_after r bs cur) = hbAttempts r"
  "hb_target v (hb_after r bs cur) = hb_target v r" "hb_ctx (hb_after r bs cur) = hb_ctx r"
  "hbTime (hb_after r bs cur) = hbTime r" "hbCtx (hb_after r bs cur) = hbCtx r"
  by (simp_all add: hb_after_def hb_target_def hb_ctx_def split: list.split)

lemma heal_read_unfold:
  assumes "body_read m (hbCur r) = (bs, x, cur)"
  shows "heal_read B opts m r s =
    (let r1 = hb_after r bs cur in
     case x of
       None \<Rightarrow> ((bs, None), r1, s)
     | Some x \<Rightarrow>
         (case (if errIs x EEOF then truncated B r1 s else (True, s)) of (tr, s1) \<Rightarrow>
          if \<not> tr then ((bs, Some EEOF), r1\<lparr>hbDog := wd_stop (hbDog r1)\<rparr>, s1)
          else
            (case ctxErr (hb_ctx r1) of
               Some ce \<Rightarrow> ((bs, Some (ECtx ce)), hb_tick r1, s1)
             | None \<Rightarrow>
                 if remainingDone r1
                 then ((bs, Some EEOF), (hb_tick r1)\<lparr>hbDog := wd_stop (hbDog (hb_tick r1))\<rparr>, s1)
                 else (case heal B opts x (hb_tick r1) s1 of
                         (Inl he, r3, s2) \<Rightarrow> ((bs, Some he), r3, s2)
                       | (Inr u, r3, s2) \<Rightarrow>
                           if bs \<noteq> [] then ((bs, None), r3, s2) else heal_read B opts m r3 s2))))"
  by (subst heal_read.simps)
    (simp add: assms hb_after_def Let_def split: option.split prod.split sum.split)

lemma hb_at_after:
  assumes "hb_at v e k c r" and "body_read m (hbCur r) = (bs, x, cur)"
  shows "prefix bs (drop c (hb_target v r))"
    and "hbConsumed (hb_after r bs cur) = int (c + length bs)"
    and "c + length bs \<le> length (hb_target v r)"
    and "x = None \<Longrightarrow> hb_at v e k (c + length bs) (hb_after r bs cur)"
    and "x = Some y \<Longrightarrow> errIs y EEOF \<Longrightarrow> bs = drop c (hb_target v r)"
proof -
  have at: "plain_end (hbCur r)" "delivers (copy_all (hbCur r)) (drop c (hb_target v r))"
    "c \<le> length (hb_target v r)" "hbConsumed r = int c"
    "heal_range (length v) (hbOff r) (hbLen r)"
    using assms(1) by (simp_all add: hb_at_def)
  note rd = delivers_read [OF at(1,2) assms(2)]
  show p: "prefix bs (drop c (hb_target v r))" by (rule rd(1))
  then have "length bs \<le> length (hb_target v r) - c" by (auto dest: prefix_length_le)
  then show le: "c + length bs \<le> length (hb_target v r)" using at(3) by simp
  have "is_i64 (int (c + length bs))"
    by (rule resume_i64(5) [OF at(5)]) (use le in \<open>simp add: hb_target_def\<close>)
  then show cons: "hbConsumed (hb_after r bs cur) = int (c + length bs)"
    using at(4) by (simp add: hb_after_def)
  show "hb_at v e k (c + length bs) (hb_after r bs cur)" if "x = None"
    using assms(1) rd(2) [OF that] le cons plain_end_read [OF at(1)] assms(2) that
    by (simp add: hb_at_def add.commute)
  show "bs = drop c (hb_target v r)" if "x = Some y" "errIs y EEOF"
    by (rule rd(3) [OF that])
qed

text \<open>The whole of a sequence of Read calls, stopped by an error.\<close>

fun heal_drain :: "('s, body) bucket \<Rightarrow> healOpts \<Rightarrow> nat list \<Rightarrow> healingBody \<Rightarrow> 's
    \<Rightarrow> (bytes \<times> err option) \<times> healingBody \<times> 's" where
  "heal_drain B opts [] r s = (([], None), r, s)"
| "heal_drain B opts (m # ms) r s =
     (case heal_read B opts m r s of
        ((bs, Some e), r1, s1) \<Rightarrow> ((bs, Some e), r1, s1)
      | ((bs, None), r1, s1) \<Rightarrow>
          (case heal_drain B opts ms r1 s1 of ((bs', e), r2, s2) \<Rightarrow> ((bs @ bs', e), r2, s2)))"

definition heal_ok :: "bytes \<Rightarrow> string \<Rightarrow> string \<Rightarrow> nat \<Rightarrow> healingBody \<Rightarrow> bytes \<Rightarrow> err option
    \<Rightarrow> healingBody \<Rightarrow> bool" where
  "heal_ok v e k c r bs x r' \<longleftrightarrow>
     prefix bs (drop c (hb_target v r)) \<and> hb_target v r' = hb_target v r
     \<and> (x = None \<longrightarrow> hb_at v e k (c + length bs) r')
     \<and> (x = Some EEOF \<longrightarrow> bs = drop c (hb_target v r))"

context healing
begin

lemma truncated_out:
  assumes "inv s" and "hbKey r = k" and "k \<in> K" and "objs s k = Some (v, e)"
    and "heal_range (length v) (hbOff r) (hbLen r)" and "hbConsumed r = int c"
    and "c \<le> length (hb_target v r)" and "truncated B r s = (tr, s')"
  shows "inv s' \<and> objs s' = objs s"
proof -
  obtain ri s1 where st: "bStat B (hb_ctx r) (hbKey r) s = (ri, s1)" by fastforce
  show ?thesis
    using assms(8) st stat_ok [OF assms(1) _ st] assms(1,2,3)
    by (auto simp: truncated_def split: if_splits sum.splits)
qed

lemma remainingDone_complete:
  assumes "heal_range (length v) (hbOff r) (hbLen r)" and "hbConsumed r = int c"
    and "c \<le> length (hb_target v r)" and "remainingDone r"
  shows "c = length (hb_target v r)"
proof (cases "0 < hbLen r")
  case True
  then have "hbLen r \<le> int c" using assms(2,4) by (simp add: remainingDone_def)
  then show ?thesis using assms(3) True
    by (auto simp: hb_target_def range_of_length Let_def)
next
  case False
  then have neg: "hbOff r < 0" using assms(4) by (simp add: remainingDone_def split: if_splits)
  have "wrap64 (hbOff r + int c) = hbOff r + int c"
    by (rule resume_i64(1) [OF assms(1)]) (use assms(3) in \<open>simp add: hb_target_def\<close>)
  then have "- hbOff r \<le> int c" using assms(2,4) False neg by (simp add: remainingDone_def)
  then show ?thesis
    using assms(1,3) False neg
    by (auto simp: hb_target_def range_of_length Let_def range_start_def heal_range_def)
qed

lemma heal_read_ok:
  "inv s \<Longrightarrow> k \<in> K \<Longrightarrow> objs s k = Some (v, e) \<Longrightarrow> hb_at v e k c r \<Longrightarrow>
   heal_read B opts m r s = ((bs, x), r', s') \<Longrightarrow>
   inv s' \<and> objs s' = objs s \<and> heal_ok v e k c r bs x r'"
proof (induction "nat (hoAttempts opts - hbAttempts r)" arbitrary: r s c rule: less_induct)
  case less
  obtain bs1 x1 cur where rd: "body_read m (hbCur r) = (bs1, x1, cur)" by (metis surj_pair)
  note af = hb_at_after [OF less.prems(4) rd]
  let ?r1 = "hb_after r bs1 cur"
  have at: "hbKey r = k" "hbEtag r \<in> {'''', e}" "heal_range (length v) (hbOff r) (hbLen r)"
    using less.prems(4) by (simp_all add: hb_at_def)
  note unf = less.prems(5) [unfolded heal_read_unfold [OF rd] Let_def]
  show ?case
  proof (cases x1)
    case None
    then show ?thesis using unf af(1,4) less.prems(1) by (auto simp: heal_ok_def)
  next
    case (Some y)
    obtain tr s1 where tr: "(if errIs y EEOF then truncated B ?r1 s else (True, s)) = (tr, s1)"
      by fastforce
    have i1: "inv s1 \<and> objs s1 = objs s"
    proof (cases "errIs y EEOF")
      case True
      then have "truncated B ?r1 s = (tr, s1)" using tr by simp
      then show ?thesis
        using truncated_out [OF less.prems(1) _ less.prems(2,3), of ?r1 "c + length bs1" tr s1] at af(2,3)
        by simp
    qed (use tr less.prems(1) in simp)
    show ?thesis
    proof (cases tr)
      case False
      then have "errIs y EEOF" using tr by (auto split: if_splits)
      then show ?thesis
        using unf Some tr False i1 af(1) af(5) [OF Some] by (auto simp: heal_ok_def)
    next
      case True
      show ?thesis
      proof (cases "ctxErr (hb_ctx ?r1)")
        case (Some ce)
        then show ?thesis
          using unf \<open>x1 = Some y\<close> tr True i1 af(1) by (auto simp: heal_ok_def hb_ctx_key)
      next
        case live: None
        show ?thesis
        proof (cases "remainingDone ?r1")
          case fin: True
          have "c + length bs1 = length (hb_target v r)"
            using remainingDone_complete [of v ?r1] fin at(3) af(2,3) by simp
          then have "bs1 = drop c (hb_target v r)"
            using af(1) by (metis add_diff_cancel_left' append_eq_conv_conj length_drop prefix_def
                take_all order_refl)
          then show ?thesis
            using unf Some tr True live fin i1 by (auto simp: heal_ok_def hb_ctx_key)
        next
          case notdone: False
          obtain h r3 s2 where hl: "heal B opts y (hb_tick ?r1) s1 = (h, r3, s2)"
            by (metis surj_pair)
          have obj1: "objs s1 k = Some (v, e)" using i1 less.prems(3) by simp
          note rs = heal_resumes [OF _ less.prems(2) obj1 _ _ _ _ _ _ hl, of "c + length bs1"]
          have rs1: "inv s2 \<and> objs s2 = objs s1"
            and rs2: "h = Inr u \<Longrightarrow> hb_at v e k (c + length bs1) r3"
            and rs3: "hbOff r3 = hbOff r \<and> hbLen r3 = hbLen r" for u
            using rs i1 at af(2,3) notdone by (simp_all add: hb_ctx_key)
          have tgt: "hb_target v r3 = hb_target v r" using rs3 by (simp add: hb_target_def)
          show ?thesis
          proof (cases h)
            case (Inl he)
            have "he \<noteq> EEOF"
              using hl Inl by (auto simp: heal_def Let_def sleepHeal_def
                  split: if_splits option.splits sum.splits prod.splits)
            then show ?thesis
              using unf Some tr True live notdone hl Inl rs1 i1 af(1) tgt
              by (auto simp: heal_ok_def)
          next
            case (Inr u)
            note at3 = rs2 [OF Inr]
            show ?thesis
            proof (cases "bs1 = []")
              case False
              then show ?thesis
                using unf Some tr True live notdone hl Inr rs1 i1 af(1) at3 tgt
                by (auto simp: heal_ok_def)
            next
              case bs: True
              have "nat (hoAttempts opts - hbAttempts r3) < nat (hoAttempts opts - hbAttempts r)"
                using heal_attempts [of B opts y "hb_tick ?r1" s1 u r3 s2] hl Inr by auto
              moreover have "heal_read B opts m r3 s2 = ((bs, x), r', s')"
                using unf Some tr True live notdone hl Inr bs by simp
              ultimately have "inv s' \<and> objs s' = objs s2 \<and> heal_ok v e k c r3 bs x r'"
                using less.hyps [of r3 s2 c] rs1 i1 less.prems(2,3) at3 bs by simp
              then show ?thesis using rs1 i1 tgt by (simp add: heal_ok_def)
            qed
          qed
        qed
      qed
    qed
  qed
qed

lemma heal_drain_ok:
  "inv s \<Longrightarrow> k \<in> K \<Longrightarrow> objs s k = Some (v, e) \<Longrightarrow> hb_at v e k c r \<Longrightarrow>
   heal_drain B opts ms r s = ((bs, x), r', s') \<Longrightarrow>
   inv s' \<and> objs s' = objs s \<and> heal_ok v e k c r bs x r'"
proof (induction ms arbitrary: r s c bs x r' s')
  case Nil
  then show ?case by (auto simp: heal_ok_def)
next
  case (Cons m ms)
  obtain bs1 x1 r1 s1 where rd: "heal_read B opts m r s = ((bs1, x1), r1, s1)" by (metis surj_pair)
  note one = heal_read_ok [OF Cons.prems(1-4) rd]
  show ?case
  proof (cases x1)
    case (Some y)
    then show ?thesis using Cons.prems(5) rd one by auto
  next
    case None
    obtain bs2 x2 r2 s2 where dr: "heal_drain B opts ms r1 s1 = ((bs2, x2), r2, s2)"
      by (metis surj_pair)
    have at1: "hb_at v e k (c + length bs1) r1" and tgt: "hb_target v r1 = hb_target v r"
      and pre: "prefix bs1 (drop c (hb_target v r))"
      using one None by (simp_all add: heal_ok_def)
    have "inv s2 \<and> objs s2 = objs s1 \<and> heal_ok v e k (c + length bs1) r1 bs2 x2 r2"
      by (rule Cons.IH [OF _ Cons.prems(2) _ at1 dr]) (use one Cons.prems(3) in auto)
    then have two: "inv s2" "objs s2 = objs s" "heal_ok v e k (c + length bs1) r1 bs2 x2 r2"
      using one by simp_all
    obtain zs where zs: "drop c (hb_target v r) = bs1 @ zs" using pre by (auto simp: prefix_def)
    then have "drop (c + length bs1) (hb_target v r) = zs"
      by (metis add.commute append_eq_conv_conj drop_drop)
    then have "heal_ok v e k c r (bs1 @ bs2) x2 r2"
      using two(3) zs tgt by (auto simp: heal_ok_def add.assoc)
    then show ?thesis using Cons.prems(5) rd dr None two by auto
  qed
qed

end

section \<open>Opening, and the whole read\<close>

lemma newHealingBody_sel [simp]:
  "hbCtx (newHealingBody opts c ts k off len e b) = c"
  "hbTime (newHealingBody opts c ts k off len e b) = ts"
  "hbKey (newHealingBody opts c ts k off len e b) = k"
  "hbOff (newHealingBody opts c ts k off len e b) = off"
  "hbLen (newHealingBody opts c ts k off len e b) = len"
  "hbEtag (newHealingBody opts c ts k off len e b) = e"
  "hbConsumed (newHealingBody opts c ts k off len e b) = 0"
  "hbAttempts (newHealingBody opts c ts k off len e b) = 1"
  "hbCur (newHealingBody opts c ts k off len e b) = b"
  by (simp_all add: newHealingBody_def armWatchdog_def)

context healing
begin

lemma heal_get_at:
  assumes "inv s" and "k \<in> K" and "heal_get B opts c ts k s = (Inr (r, e), s')"
    and "\<forall>v e. objs s k = Some (v, e) \<longrightarrow> int (length v) < 2 ^ 63"
  shows "\<exists>v. inv s' \<and> objs s' = objs s \<and> objs s k = Some (v, e) \<and> hb_at v e k 0 r \<and> hb_target v r = v"
proof -
  obtain b where g: "bGet B c k s = (Inr (b, e), s')" and r: "r = newHealingBody opts c ts k 0 0 e b"
    using assms(3) by (auto simp: heal_get_def split: sum.splits prod.splits)
  note go = get_ok [OF assms(1,2) g]
  then obtain v where v: "objs s k = Some (v, e)" "delivers (copy_all b) v"
    by (auto simp: oget_spec_def)
  have "heal_range (length v) 0 0" using assms(4) v(1) by (auto simp: heal_range_def is_i64_def)
  then show ?thesis
    using go v get_plain [OF assms(1,2) g] by (auto simp: r hb_at_def hb_target_def)
qed

lemma heal_getRange_at:
  assumes "inv s" and "k \<in> K" and "heal_getRange B opts c ts k off len s = (Inr r, s')"
    and obj: "objs s k = Some (v, e)" and rg: "heal_range (length v) off len"
  shows "inv s' \<and> objs s' = objs s \<and> hb_at v e k 0 r \<and> hb_target v r = range_of v off len"
proof -
  obtain b where g: "bGetRange B c k off len s = (Inr b, s')"
    and r: "r = newHealingBody opts c ts k off len '''' b"
    using assms(3) by (cases "bGetRange B c k off len s"; cases "fst (bGetRange B c k off len s)")
      (auto simp: heal_getRange_def)
  have i64: "is_i64 off" "is_i64 len" "rng (length v) off len"
    using rg by (auto simp: heal_range_def intro!: rng_open split: if_splits)
  note go = getRange_ok [OF assms(1,2) i64(1,2) g]
  then have "delivers (copy_all b) (range_of v off len)"
    using obj i64(3) by (auto simp: ogetRange_spec_def)
  then show ?thesis
    using go rg getRange_plain [OF assms(1,2) i64(1,2) g]
    by (auto simp: r hb_at_def hb_target_def)
qed

end

section \<open>Liveness\<close>

lemma heal_unfold:
  assumes "hbAttempts r < hoAttempts opts"
    and "sleepHeal (r\<lparr>hbDog := wd_stop (hbDog r), hbCur := body_close (hbCur r)\<rparr>) = (None, r2)"
  shows "heal B opts cause r s =
    (case bStat B (hb_ctx r2) (hbKey r2) s of
       (Inl e, s1) \<Rightarrow> (Inl (EWrap ''objectstore: heal: stat'' e), r2, s1)
     | (Inr info, s1) \<Rightarrow>
         if hbEtag r2 \<noteq> '''' \<and> oETag info \<noteq> hbEtag r2 then
           (Inl (EMsg ''objectstore: heal: object changed mid-read''), r2, s1)
         else
           let r3 = (if hbEtag r2 = '''' then r2\<lparr>hbEtag := oETag info\<rparr> else r2);
               newOff = wrap64 (hbOff r3 + hbConsumed r3);
               newLen = (if hbLen r3 > 0 then wrap64 (hbLen r3 - hbConsumed r3) else 0)
           in (case bGetRange B (hb_ctx r3) (hbKey r3) newOff newLen s1 of
                 (Inl e, s2) \<Rightarrow> (Inl (EWrap ''objectstore: heal'' e), r3, s2)
               | (Inr b, s2) \<Rightarrow>
                   (Inr (), armWatchdog opts
                      (r3\<lparr>hbAttempts := hbAttempts r3 + 1, hbCur := b\<rparr>), s2)))"
  using assms by (simp add: heal_def Let_def)

locale live_healing = healing B inv K objs page rng
    + live_bucket B inv K objs copy_all page rng quiet rlive
  for B :: "('s, body) bucket" and inv K objs page rng quiet rlive +
  assumes rlive_all: "int sz < 2 ^ 63 \<Longrightarrow> is_i64 off \<Longrightarrow> is_i64 len \<Longrightarrow> rlive sz off len"

definition hb_live :: "healingBody \<Rightarrow> bool" where
  "hb_live r \<longleftrightarrow> hbTime r = [] \<and> ctxErr (hbCtx r) = None"

definition hb_sound :: "healOpts \<Rightarrow> healingBody \<Rightarrow> bool" where
  "hb_sound opts r \<longleftrightarrow> hb_live r \<and>
     (snd (copy_all (hbCur r)) = None \<or> hbAttempts r < hoAttempts opts)"

lemma hb_live_ctx: "hb_live r \<Longrightarrow> ctxErr (hb_ctx r) = None"
  by (simp add: hb_live_def hb_ctx_def)

lemma hb_live_frame [simp]: "hb_live (hb_tick r) = hb_live r" if "hb_live r"
  using that by (simp add: hb_live_def hb_tick_def)

lemma hb_live_after [simp]: "hb_live (hb_after r bs cur) = hb_live r"
  by (simp add: hb_live_def)

context live_healing
begin

lemma heal_live:
  assumes "inv s" and "quiet s" and "k \<in> K" and obj: "objs s k = Some (v, e)"
    and r: "hbKey r = k" "hbEtag r \<in> {'''', e}" "heal_range (length v) (hbOff r) (hbLen r)"
      "hbConsumed r = int c" "c \<le> length (hb_target v r)"
    and live: "hb_live r" "hbAttempts r < hoAttempts opts"
  shows "\<exists>r' s'. heal B opts cause r s = (Inr (), r', s') \<and> quiet s' \<and> hb_live r'
    \<and> snd (copy_all (hbCur r')) = None"
proof -
  define r2 where "r2 = hb_tick (r\<lparr>hbDog := wd_stop (hbDog r), hbCur := body_close (hbCur r)\<rparr>)"
  have sl: "sleepHeal (r\<lparr>hbDog := wd_stop (hbDog r), hbCur := body_close (hbCur r)\<rparr>) = (None, r2)"
    using live(1) by (simp add: sleepHeal_def r2_def hb_live_def hb_ctx_def)
  have r2: "hbKey r2 = k" "hbEtag r2 = hbEtag r" "hbOff r2 = hbOff r" "hbLen r2 = hbLen r"
      "hbConsumed r2 = int c" "hb_live r2"
    using r live(1) by (simp_all add: r2_def hb_live_def hb_tick_def)
  obtain ri s1 where st: "bStat B (hb_ctx r2) k s = (ri, s1)" by fastforce
  note so = stat_ok [OF assms(1,3) st]
    and sv = stat_live [OF assms(1-3) hb_live_ctx [OF r2(6)] st]
  obtain info where info: "ri = Inr info" "oETag info = e"
    using so sv obj by (auto simp: ostat_spec_def oinfo_ok_def)
  define r3 where "r3 = (if hbEtag r2 = '''' then r2\<lparr>hbEtag := oETag info\<rparr> else r2)"
  have r3: "hb_live r3" "hbKey r3 = k" "hbOff r3 = hbOff r" "hbLen r3 = hbLen r"
      "hbConsumed r3 = int c"
    using r2 by (simp_all add: r3_def hb_live_def)
  note i64 = resume_i64 [OF r(3) r(5) [unfolded hb_target_def]]
  obtain rg s2 where g: "bGetRange B (hb_ctx r3) k (hbOff r + int c) (resume_len (hbLen r) (int c)) s1
      = (rg, s2)" by fastforce
  have sz: "int (length v) < 2 ^ 63" using r(3) by (simp add: heal_range_def)
  have "quiet s2 \<and> (\<exists>b. rg = Inr b \<and> snd (copy_all b) = None)"
    using getRange_live [OF _ _ assms(3) hb_live_ctx [OF r3(1)] g] so sv obj
      rlive_all [OF sz i64(3,4)] by auto
  then obtain b where b: "quiet s2" "rg = Inr b" "snd (copy_all b) = None" by blast
  have len: "(if hbLen r > 0 then wrap64 (hbLen r - int c) else 0) = resume_len (hbLen r) (int c)"
    using i64(2) by (simp add: resume_len_def)
  have et: "(hbEtag r2 \<noteq> '''' \<and> oETag info \<noteq> hbEtag r2) = False"
    using r(2) r2(2) info(2) by auto
  have "heal B opts cause r s
      = (Inr (), armWatchdog opts (r3\<lparr>hbAttempts := hbAttempts r3 + 1, hbCur := b\<rparr>), s2)"
    by (simp only: heal_unfold [OF live(2) sl] r2(1) st info(1) sum.case prod.case et if_False Let_def
        r3_def [symmetric] r3 i64(1) len g b(2))
  then show ?thesis using b r3(1) by (simp add: armWatchdog_def hb_live_def)
qed

text \<open>A clean connection is never healed: its end is the end of the range.\<close>

lemma clean_not_truncated:
  assumes "inv s" and "quiet s" and "k \<in> K" and obj: "objs s k = Some (v, e)"
    and r: "hbKey r = k" "heal_range (length v) (hbOff r) (hbLen r)"
      "hbConsumed r = int (length (hb_target v r))"
    and "hb_live r" and t: "truncated B r s = (tr, s')"
  shows "\<not> tr \<and> quiet s'"
proof (cases "hbOff r < 0 \<or> hbLen r = 0 \<or> hbConsumed r \<ge> hbLen r")
  case True
  then show ?thesis using t assms(2) by (auto simp: truncated_def)
next
  case False
  obtain ri s1 where st: "bStat B (hb_ctx r) k s = (ri, s1)" by fastforce
  note so = stat_ok [OF assms(1,3) st]
    and sv = stat_live [OF assms(1-3) hb_live_ctx [OF assms(8)] st]
  obtain info where info: "ri = Inr info" "oSize info = int (length v)"
    using so sv obj by (auto simp: ostat_spec_def oinfo_ok_def)
  have w: "wrap64 (hbOff r + int (length (hb_target v r))) = hbOff r + int (length (hb_target v r))"
    using resume_i64(1) [OF r(2), of "length (hb_target v r)"] by (simp add: hb_target_def)
  have len: "\<not> hbLen r \<le> 0" "int (length (hb_target v r)) < hbLen r" using False r(3) by auto
  then have "length (hb_target v r) = length v - range_start (length v) (hbOff r)"
    by (auto simp: hb_target_def range_of_length Let_def min_def split: if_splits)
  then have "hbOff r + int (length (hb_target v r)) \<ge> int (length v)"
    using False by (auto simp: range_start_def)
  then show ?thesis
    using t st False info sv r(1,3) w by (auto simp: truncated_def split: if_splits)
qed

lemma heal_read_live:
  "inv s \<Longrightarrow> quiet s \<Longrightarrow> k \<in> K \<Longrightarrow> objs s k = Some (v, e) \<Longrightarrow> hb_at v e k c r \<Longrightarrow> hb_sound opts r \<Longrightarrow>
   heal_read B opts m r s = ((bs, x), r', s') \<Longrightarrow>
   quiet s' \<and> x \<in> {None, Some EEOF} \<and> (x = None \<longrightarrow> hb_sound opts r')"
proof (induction "nat (hoAttempts opts - hbAttempts r)" arbitrary: r s c rule: less_induct)
  case less
  obtain bs1 x1 cur where rd: "body_read m (hbCur r) = (bs1, x1, cur)" by (metis surj_pair)
  note af = hb_at_after [OF less.prems(5) rd]
  let ?r1 = "hb_after r bs1 cur"
  have at: "hbKey r = k" "hbEtag r \<in> {'''', e}" "heal_range (length v) (hbOff r) (hbLen r)"
    "plain_end (hbCur r)"
    using less.prems(5) by (simp_all add: hb_at_def)
  have live: "hb_live r" using less.prems(6) by (simp add: hb_sound_def)
  have bok: "body_ok (hbCur r)" using at(4) by (simp add: plain_end_def)
  note step = body_read_step [OF bok rd]
  note unf = less.prems(7) [unfolded heal_read_unfold [OF rd] Let_def]
  show ?case
  proof (cases x1)
    case None
    then have "hb_sound opts ?r1" using less.prems(6) step by (auto simp: hb_sound_def)
    then show ?thesis using unf None less.prems(2) by auto
  next
    case (Some y)
    have y: "y = finish (snd (copy_all (hbCur r)))" using step Some by blast
    obtain tr s1 where tr: "(if errIs y EEOF then truncated B ?r1 s else (True, s)) = (tr, s1)"
      by fastforce
    show ?thesis
    proof (cases "snd (copy_all (hbCur r)) = None")
      case True
      then have eof: "errIs y EEOF" using y by (simp add: finish_def)
      have "bs1 = drop c (hb_target v r)" by (rule af(5) [OF Some eof])
      then have "c + length bs1 = length (hb_target v r)" using af(3) by simp
      then have "\<not> tr \<and> quiet s1"
        using clean_not_truncated [OF less.prems(1-4), of ?r1] tr eof at af(2) live by auto
      then show ?thesis using unf Some tr by auto
    next
      case broken: False
      then have att: "hbAttempts r < hoAttempts opts" and neof: "\<not> errIs y EEOF"
        using less.prems(6) at(4) y by (auto simp: hb_sound_def plain_end_def finish_def)
      then have s1: "tr" "s1 = s" using tr by auto
      have lc: "ctxErr (hb_ctx ?r1) = None" using hb_live_ctx [OF live] by simp
      show ?thesis
      proof (cases "remainingDone ?r1")
        case True
        then show ?thesis using unf Some tr s1 lc less.prems(2) by auto
      next
        case False
        obtain r3 s2 where hl: "heal B opts y (hb_tick ?r1) s = (Inr (), r3, s2)"
          and q2: "quiet s2" and live3: "hb_live r3" and clean: "snd (copy_all (hbCur r3)) = None"
          using heal_live [OF less.prems(1-4), of "hb_tick ?r1" "c + length bs1" opts y]
            at af(2,3) live att by (auto simp: hb_ctx_key)
        note rs = heal_resumes [OF less.prems(1,3,4) _ _ _ _ _ _ hl, of "c + length bs1"]
        have rs: "inv s2 \<and> objs s2 = objs s" "hb_at v e k (c + length bs1) r3"
          using rs at af(2,3) False by (simp_all add: hb_ctx_key)
        have sound: "hb_sound opts r3" using live3 clean by (simp add: hb_sound_def)
        show ?thesis
        proof (cases "bs1 = []")
          case False
          then show ?thesis using unf Some tr s1 lc \<open>\<not> remainingDone ?r1\<close> hl q2 sound by auto
        next
          case bs: True
          have "nat (hoAttempts opts - hbAttempts r3) < nat (hoAttempts opts - hbAttempts r)"
            using heal_attempts [OF hl] by auto
          moreover have "heal_read B opts m r3 s2 = ((bs, x), r', s')"
            using unf Some tr s1 lc False hl bs by simp
          ultimately show ?thesis
            using less.hyps [of r3 s2 c] rs q2 less.prems(3,4) bs sound by simp
        qed
      qed
    qed
  qed
qed

lemma heal_drain_live:
  "inv s \<Longrightarrow> quiet s \<Longrightarrow> k \<in> K \<Longrightarrow> objs s k = Some (v, e) \<Longrightarrow> hb_at v e k c r \<Longrightarrow> hb_sound opts r \<Longrightarrow>
   heal_drain B opts ms r s = ((bs, x), r', s') \<Longrightarrow> quiet s' \<and> x \<in> {None, Some EEOF}"
proof (induction ms arbitrary: r s c bs x r' s')
  case (Cons m ms)
  obtain bs1 x1 r1 s1 where rd: "heal_read B opts m r s = ((bs1, x1), r1, s1)" by (metis surj_pair)
  note one = heal_read_ok [OF Cons.prems(1,3-5) rd]
    and live = heal_read_live [OF Cons.prems(1-6) rd]
  show ?case
  proof (cases x1)
    case (Some y)
    then show ?thesis using Cons.prems(7) rd live by auto
  next
    case None
    obtain bs2 x2 r2 s2 where dr: "heal_drain B opts ms r1 s1 = ((bs2, x2), r2, s2)"
      by (metis surj_pair)
    have "quiet s2 \<and> x2 \<in> {None, Some EEOF}"
      by (rule Cons.IH [OF _ _ Cons.prems(3) _ _ _ dr, of "c + length bs1"])
        (use one live None Cons.prems(4) in \<open>auto simp: heal_ok_def\<close>)
    then show ?thesis using Cons.prems(7) rd dr None by auto
  qed
qed simp

end

section \<open>On the filesystem\<close>

lemma fs_get_plain:
  assumes "fs_inv root K s" and "k \<in> K" and "fs_get root c k s = (Inr (b, e), s')"
  shows "plain_end b"
proof -
  note kp = fs_inv_keyPath [OF assms(1,2)]
  have none: "ctxErr c = None" using assms(3) by (cases "ctxErr c") (auto simp: fs_get_def)
  obtain r1 s1 where e1: "fileETag (kpath root k) s = (r1, s1)" by fastforce
  have f1: "fnodes s1 = fnodes s" by (rule fileETag_key_out(1) [OF assms(1,2) e1])
  have inv1: "fs_inv root K s1" using fs_inv_same [OF f1] assms(1) by simp
  obtain r2 s2 where o: "os_open (kpath root k) s1 = (r2, s2)" by fastforce
  obtain h where "r2 = Inr h" "b = FileB h"
    using none kp assms(3) e1 o by (auto simp: fs_get_def split: sum.splits if_splits)
  moreover then obtain v where "h = FReg v" using open_key_out(2) [OF inv1 assms(2) o] by blast
  ultimately show ?thesis by (simp add: plain_end_def)
qed

interpretation fsh: live_healing "fs_bucket root" "fs_inv root K" K "fs_objs root K" maxKeys fs_rng
    "fs_quiet root" fs_rng
  for root K
proof (unfold_locales, goal_cases)
  case (3 s k off len c b s')
  then have g: "fs_getRange root c k off len s = (Inr b, s')" by (simp add: fs_bucket_def)
  show ?case
    using fs_getRange_clean [OF 3(1,2) g] fs_getRange_body_ok [OF g] by (simp add: plain_end_def)
qed (auto simp: fs_rng_def fs_bucket_def intro: fs_get_plain)

section \<open>The watchdog\<close>

text \<open>
  One interval of the timer: the bytes that arrive in it, then the check, if the timer is
  armed. A connection is killed exactly when four consecutive intervals stay below the minimum.
\<close>

definition wd_interval :: "int \<Rightarrow> watchdog \<Rightarrow> watchdog" where
  "wd_interval n w = (let w1 = wd_progress n w in if wdTimer w1 then wd_check w1 else w1)"

definition wd_run :: "int list \<Rightarrow> watchdog \<Rightarrow> watchdog" where
  "wd_run ns w = fold wd_interval ns w"

definition wd_min :: "int \<Rightarrow> int \<Rightarrow> int" where
  "wd_min floor window = max 1 (minRate floor (goQuot window 4))"

definition slow_run :: "int \<Rightarrow> int list \<Rightarrow> bool" where
  "slow_run mn ns \<longleftrightarrow> (\<exists>ys. sublist ys ns \<and> length ys = 4 \<and> (\<forall>y \<in> set ys. y < mn))"

definition slow_tail :: "int \<Rightarrow> int list \<Rightarrow> nat" where
  "slow_tail mn ns = length (takeWhile (\<lambda>n. n < mn) (rev ns))"

lemma slow_tail_snoc: "slow_tail mn (ns @ [n]) = (if n < mn then Suc (slow_tail mn ns) else 0)"
  by (simp add: slow_tail_def)

lemma takeWhile_take_all:
  "j \<le> length (takeWhile P xs) \<Longrightarrow> \<forall>x \<in> set (take j xs). P x"
  by (metis in_set_takeD set_takeWhileD takeWhile_eq_take take_take min_absorb1)

lemma all_takeWhile: "\<forall>x \<in> set ys. P x \<Longrightarrow> length ys \<le> length (takeWhile P (ys @ zs))"
  by (simp add: takeWhile_append2)

lemma slow_run_snoc:
  "slow_run mn (ns @ [n]) \<longleftrightarrow> slow_run mn ns \<or> 4 \<le> slow_tail mn (ns @ [n])"
proof
  assume "slow_run mn (ns @ [n])"
  then obtain ys where ys: "sublist ys (ns @ [n])" "length ys = 4" "\<forall>y \<in> set ys. y < mn"
    by (auto simp: slow_run_def)
  from ys(1) obtain as bs where ab: "ns @ [n] = as @ ys @ bs" by (auto simp: sublist_def)
  have "sublist ys ns \<or> (\<exists>zs. ns @ [n] = zs @ ys)"
  proof (cases bs rule: rev_cases)
    case (snoc bs' b)
    then have "ns = as @ ys @ bs'" using ab by (metis append.assoc append1_eq_conv)
    then show ?thesis by (auto simp: sublist_def)
  qed (use ab in auto)
  then consider "sublist ys ns" | zs where "ns @ [n] = zs @ ys" by blast
  then show "slow_run mn ns \<or> 4 \<le> slow_tail mn (ns @ [n])"
  proof cases
    case 1
    then show ?thesis using ys by (auto simp: slow_run_def)
  next
    case (2 zs)
    have "length (rev ys) \<le> length (takeWhile (\<lambda>n. n < mn) (rev ys @ rev zs))"
      by (rule all_takeWhile) (use ys(3) in simp)
    then show ?thesis using ys(2) 2 by (simp add: slow_tail_def flip: rev_append)
  qed
next
  assume "slow_run mn ns \<or> 4 \<le> slow_tail mn (ns @ [n])"
  then show "slow_run mn (ns @ [n])"
  proof
    assume "slow_run mn ns"
    then show ?thesis by (auto simp: slow_run_def sublist_append)
  next
    assume "4 \<le> slow_tail mn (ns @ [n])"
    then have four: "4 \<le> length (takeWhile (\<lambda>n. n < mn) (rev (ns @ [n])))"
      by (simp only: slow_tail_def)
    let ?ys = "rev (take 4 (rev (ns @ [n])))"
    have "length (takeWhile (\<lambda>n. n < mn) (rev (ns @ [n]))) \<le> length (rev (ns @ [n]))"
      by (rule length_takeWhile_le)
    then have "length ?ys = 4" using four by simp
    moreover have "\<forall>y \<in> set ?ys. y < mn" using takeWhile_take_all [OF four] by simp
    moreover have "sublist ?ys (ns @ [n])"
      by (metis rev_rev_ident sublist_rev sublist_take)
    ultimately show ?thesis unfolding slow_run_def by blast
  qed
qed

lemma wd_run_snoc: "wd_run (ns @ [n]) w = wd_interval n (wd_run ns w)"
  by (simp add: wd_run_def)

text \<open>The invariant of the timer over the intervals so far.\<close>

lemma wd_run_inv:
  assumes "\<forall>n \<in> set ns. 0 \<le> n" and "sum_list ns < 2 ^ 63"
  shows "let w = wd_run ns (newWatchdog floor window); mn = wd_min floor window in
    wdKilled w = slow_run mn ns \<and> wdStopped w = False \<and> wdBytes w = sum_list ns \<and>
    wdFloor w = floor \<and> wdInterval w = goQuot window 4 \<and> wdWindows w = 4 \<and>
    (\<not> slow_run mn ns \<longrightarrow> wdTimer w \<and> wdBelow w = int (slow_tail mn ns) \<and> wdLast w = sum_list ns) \<and>
    (slow_run mn ns \<longrightarrow> \<not> wdTimer w)"
  using assms
proof (induction ns rule: rev_induct)
  case Nil
  then show ?case
    by (auto simp: wd_run_def newWatchdog_def slow_run_def slow_tail_def Let_def)
next
  case (snoc n ns)
  let ?w = "wd_run ns (newWatchdog floor window)" and ?mn = "wd_min floor window"
  have nn: "0 \<le> n" "\<forall>n \<in> set ns. 0 \<le> n" "0 \<le> sum_list ns" "sum_list ns + n < 2 ^ 63"
    using snoc.prems by (auto intro: sum_list_nonneg)
  then have ih: "wdKilled ?w = slow_run ?mn ns" "wdStopped ?w = False" "wdBytes ?w = sum_list ns"
    "wdFloor ?w = floor" "wdInterval ?w = goQuot window 4" "wdWindows ?w = 4"
    "\<not> slow_run ?mn ns \<Longrightarrow> wdTimer ?w \<and> wdBelow ?w = int (slow_tail ?mn ns) \<and> wdLast ?w = sum_list ns"
    "slow_run ?mn ns \<Longrightarrow> \<not> wdTimer ?w"
    using snoc.IH by (simp_all add: Let_def)
  have i64: "is_i64 (sum_list ns + n)" "is_i64 n" using nn by (auto simp: is_i64_def)
  show ?case
  proof (cases "slow_run ?mn ns")
    case True
    then show ?thesis
      using ih i64 by (simp add: wd_run_snoc wd_interval_def wd_progress_def slow_run_snoc Let_def)
  next
    case False
    have mn: "max 1 (minRate floor (goQuot window 4)) = ?mn" by (simp add: wd_min_def)
    show ?thesis
      using ih False i64
      by (simp add: wd_run_snoc wd_interval_def wd_progress_def wd_check_def slow_run_snoc
          slow_tail_snoc mn Let_def)
  qed
qed

end
