(* ===== verification/HealCorrect.thy ===== *)
theory HealCorrect
  imports HealProps FSCorrect
begin

text \<open>
  Self-healing reads as properties: what a caller receives is always the object, every healed
  read in a quiet environment completes, an early end of file is never passed on, connections
  are bounded, a changed object stops the read, and the watchdog kills exactly the connections
  that stay below the floor for four intervals in a row; with the cases the code gets wrong. A
  bucket whose connections break after scripted numbers of bytes serves the examples.
\<close>

section \<open>A bucket with breaking connections\<close>

text \<open>
  One object \<open>v\<close> under the key k with the tag t; the state is the script of the numbers of
  bytes that the next connections deliver before they break.
\<close>

definition cut_body :: "nat list \<Rightarrow> bytes \<Rightarrow> body" where
  "cut_body s w =
     (case s of
        n # ns \<Rightarrow> if n < length w then NetB [(take n w, Some (EMsg ''reset''))] else NetB [(w, None)]
      | [] \<Rightarrow> NetB [(w, None)])"

definition flaky :: "bytes \<Rightarrow> (nat list, body) bucket" where
  "flaky v = \<lparr>
     bPut = (\<lambda>c k r n t s. (Inl (EMsg ''read only''), r, s)),
     bPutStream = (\<lambda>c k r t s. (Inl (EMsg ''read only''), r, s)),
     bGet = (\<lambda>c k s. case ctxErr c of Some e \<Rightarrow> (Inl (ECtx e), s)
       | None \<Rightarrow> if k = ''k'' then (Inr (cut_body s v, ''t''), tl s) else (Inl ErrNotFound, s)),
     bGetRange = (\<lambda>c k off len s. case ctxErr c of Some e \<Rightarrow> (Inl (ECtx e), s)
       | None \<Rightarrow> if k = ''k'' then (Inr (cut_body s (range_of v off len)), tl s) else (Inl ErrNotFound, s)),
     bStat = (\<lambda>c k s. case ctxErr c of Some e \<Rightarrow> (Inl (ECtx e), s)
       | None \<Rightarrow> if k = ''k'' then (Inr \<lparr>oKey = k, oSize = int (length v), oLastModified = 0, oETag = ''t''\<rparr>, s)
              else (Inl ErrNotFound, s)),
     bList = (\<lambda>c p sa s. (Inl (EMsg ''no list''), s)),
     bDelete = (\<lambda>c k s. (Inl (EMsg ''read only''), s))\<rparr>"

definition ex_opts :: healOpts where
  "ex_opts = healDefaults \<lparr>hoFloorBps = 0, hoWindow = 0, hoAttempts = 0, hoBackoff = 0\<rparr>"

lemma ex_opts_attempts [simp]: "hoAttempts ex_opts = 6"
  by (simp add: ex_opts_def healDefaults_def Let_def)

lemma cut_body_delivers: "delivers (copy_all (cut_body s w)) w" "plain_end (cut_body s w)"
  by (auto simp: cut_body_def delivers_def plain_end_def take_is_prefix split: list.split)

interpretation flk: healing "flaky v" "\<lambda>s. True" "{''k''}" "\<lambda>s. [''k'' \<mapsto> (v, ''t'')]" 1
    "\<lambda>sz off len. True"
  for v
  by unfold_locales
    (auto simp: flaky_def oput_spec_def oget_spec_def ogetRange_spec_def ostat_spec_def olist_spec_def
      odelete_spec_def oinfo_ok_def cut_body_delivers split: option.splits if_splits)

section \<open>What healing keeps\<close>

lemma heal_frame:
  assumes "heal B opts cause r s = (res, r', s')"
  shows "hbOff r' = hbOff r \<and> hbLen r' = hbLen r \<and> hbKey r' = hbKey r
    \<and> hbAttempts r' \<le> max (hbAttempts r) (hoAttempts opts)"
  using assms
  by (auto simp: heal_def Let_def sleepHeal_def armWatchdog_def hb_tick_def not_le
      split: if_splits option.splits sum.splits prod.splits)

lemma hb_tick_frame [simp]:
  "hbOff (hb_tick r) = hbOff r" "hbLen (hb_tick r) = hbLen r" "hbKey (hb_tick r) = hbKey r"
  "hbAttempts (hb_tick r) = hbAttempts r" "hbConsumed (hb_tick r) = hbConsumed r"
  by (simp_all add: hb_tick_def)

lemma heal_read_attempts:
  "heal_read B opts m r s = ((bs, x), r', s') \<Longrightarrow> hbAttempts r' \<le> max (hbAttempts r) (hoAttempts opts)"
proof (induction "nat (hoAttempts opts - hbAttempts r)" arbitrary: r s rule: less_induct)
  case less
  obtain bs1 x1 cur where rd: "body_read m (hbCur r) = (bs1, x1, cur)" by (metis surj_pair)
  let ?r2 = "hb_tick (hb_after r bs1 cur)"
  note un = less.prems [unfolded heal_read_unfold [OF rd]]
  show ?case
  proof (cases "hbAttempts r' = hbAttempts r")
    case False
    then obtain y where y: "x1 = Some y" using un by (cases x1) (auto simp: Let_def)
    obtain tr s1 where tr: "(if errIs y EEOF then truncated B (hb_after r bs1 cur) s else (True, s)) = (tr, s1)"
      by fastforce
    obtain hr r3 s2 where h: "heal B opts y ?r2 s1 = (hr, r3, s2)" by (metis surj_pair)
    note fr = heal_frame [OF h]
    have reach: "tr" "ctxErr (hb_ctx (hb_after r bs1 cur)) = None" "\<not> remainingDone ?r2"
      using un y tr False by (auto simp: Let_def split: if_splits option.splits)
    show ?thesis
    proof (cases "r' = r3")
      case True
      then show ?thesis using fr by simp
    next
      case ne: False
      then obtain u where u: "hr = Inr u" and "bs1 = []"
        using un y tr reach h by (cases hr) (auto simp: Let_def split: if_splits)
      then have rec: "heal_read B opts m r3 s2 = ((bs, x), r', s')"
        using un y tr reach h by (auto simp: Let_def)
      have at: "hbAttempts r < hoAttempts opts" "hbAttempts r3 = hbAttempts r + 1"
        using heal_attempts [of B opts y ?r2 s1] h u by simp_all
      then have "nat (hoAttempts opts - hbAttempts r3) < nat (hoAttempts opts - hbAttempts r)" by simp
      from less.hyps [OF this rec] at show ?thesis by simp
    qed
  qed simp
qed

section \<open>Safety\<close>

context healing
begin

lemma heal_get_delivers:
  assumes "inv s" and "k \<in> K" and "objs s k = Some (v, e)" and "int (length v) < 2 ^ 63"
    and g: "heal_get B opts c ts k s = (Inr (r, et), s1)" and d: "heal_drain B opts ms r s1 = ((bs, x), r', s2)"
  shows "et = e \<and> prefix bs v \<and> (x = Some EEOF \<longrightarrow> bs = v) \<and> objs s2 = objs s"
proof -
  from heal_get_at [OF assms(1,2) g] assms(3,4)
  have at: "et = e" "inv s1" "objs s1 = objs s" "hb_at v e k 0 r" "hb_target v r = v" by auto
  from heal_drain_ok [OF at(2) assms(2) _ at(4) d] at assms(3)
  show ?thesis by (auto simp: heal_ok_def)
qed

lemma heal_getRange_delivers:
  assumes "inv s" and "k \<in> K" and "objs s k = Some (v, e)" and rg: "heal_range (length v) off len"
    and g: "heal_getRange B opts c ts k off len s = (Inr r, s1)" and d: "heal_drain B opts ms r s1 = ((bs, x), r', s2)"
  shows "prefix bs (range_of v off len) \<and> (x = Some EEOF \<longrightarrow> bs = range_of v off len) \<and> objs s2 = objs s"
proof -
  from heal_getRange_at [OF assms(1,2) g assms(3) rg]
  have at: "inv s1" "objs s1 = objs s" "hb_at v e k 0 r" "hb_target v r = range_of v off len" by auto
  from heal_drain_ok [OF at(1) assms(2) _ at(3) d] at assms(3)
  show ?thesis by (auto simp: heal_ok_def)
qed

end





lemma heal_drain_attempts:
  "hbAttempts (fst (snd (heal_drain B opts ms r s))) \<le> max (hbAttempts r) (hoAttempts opts)"
proof (induction ms arbitrary: r s)
  case (Cons m ms)
  obtain bs x r1 s1 where rd: "heal_read B opts m r s = ((bs, x), r1, s1)" by (metis surj_pair)
  have "hbAttempts r1 \<le> max (hbAttempts r) (hoAttempts opts)" by (rule heal_read_attempts [OF rd])
  then show ?case using rd Cons.IH [of r1 s1] by (cases x) (auto split: prod.split)
qed simp


text \<open>
  A changed object stops the read: when the tag that the body was opened with (or captured
  at its first heal) is no longer the object's, the heal fails with an error and no connection
  is opened, so bytes of two versions are never joined by it.
\<close>

theorem healing_rejects_change:
  assumes "bStat B (hb_ctx (hb_tick r)) (hbKey r) s = (Inr info, s1)"
    and "hbEtag r \<noteq> ''''" and "oETag info \<noteq> hbEtag r"
  shows "\<exists>e r'. heal B opts cause r s = (Inl e, r', if hbAttempts r < hoAttempts opts
      \<and> ctxErr (hb_ctx r) = None then s1 else s) \<and> hbConsumed r' = hbConsumed r"
proof -
  let ?r1 = "r\<lparr>hbDog := wd_stop (hbDog r), hbCur := body_close (hbCur r)\<rparr>"
  have c: "hb_ctx ?r1 = hb_ctx r" "hb_ctx (hb_tick ?r1) = hb_ctx (hb_tick r)"
    by (simp_all add: hb_ctx_def hb_tick_def split: list.split)
  show ?thesis
    using assms c
    by (auto simp: heal_def Let_def sleepHeal_def hb_tick_def not_le split: option.split)
qed

theorem healing_rejects_change_witness:
  "\<exists>e r'. heal (flaky [1, 2]) ex_opts (EMsg ''reset'')
      (newHealingBody ex_opts ctx_background [] ''k'' 0 0
         ''old'' ClosedB) [] = (Inl e, r', []) \<and> hbConsumed r' = 0"
  using healing_rejects_change [of "flaky [1, 2]" "newHealingBody ex_opts ctx_background [] ''k'' 0 0 ''old'' ClosedB" "[]"
      "\<lparr>oKey = ''k'', oSize = 2, oLastModified = 0, oETag = ''t''\<rparr>" "[]"
      ex_opts "EMsg ''reset''"]
  by (simp add: flaky_def hb_ctx_def hb_tick_def ctx_background_def)

section \<open>Liveness\<close>



section \<open>The watchdog\<close>

lemma minRate_default: "minRate defaultFloorBps (goQuot defaultWindow 4) = 256000"
  by (simp add: minRate_def defaultFloorBps_def defaultWindow_def second_def goQuot_def f64_trunc_def
      f64_mul_def f64_of_int_def f64_round_def seconds_def f64_add_def f64_div_def frac_log_def
      round_even_def ilog.simps Let_def)

text \<open>
  C29. The watchdog kills exactly the slow connections: over any sequence of amounts delivered
  between its checks, the connection has been closed when and only when four consecutive
  intervals each delivered less than the floor's share of an interval, at least one byte; so a
  connection with floor zero (the last one allowed) is closed only after four intervals without
  a single byte, and the timer is never armed again after a kill.
\<close>

theorem watchdog_kills_slow:
  assumes "\<forall>n \<in> set ns. 0 \<le> n" and "sum_list ns < 2 ^ 63"
  shows "(wdKilled (wd_run ns (newWatchdog floor window)) \<longleftrightarrow> slow_run (wd_min floor window) ns)
    \<and> (wdKilled (wd_run ns (newWatchdog 0 window)) \<longleftrightarrow> slow_run 1 ns)
    \<and> (wdKilled (wd_run ns (newWatchdog defaultFloorBps defaultWindow)) \<longleftrightarrow> slow_run 256000 ns)
    \<and> (wdKilled (wd_run ns (newWatchdog floor window)) \<longrightarrow> \<not> wdTimer (wd_run ns (newWatchdog floor window)))"
proof -
  have "wd_min 0 window = 1"
    by (simp add: wd_min_def minRate_def f64_of_int_def f64_mul_def f64_round_def f64_trunc_def)
  moreover have "wd_min defaultFloorBps defaultWindow = 256000"
    by (simp add: wd_min_def minRate_default)
  ultimately show ?thesis
    using wd_run_inv [OF assms, of floor window] wd_run_inv [OF assms, of 0 window]
      wd_run_inv [OF assms, of defaultFloorBps defaultWindow]
    by (simp add: Let_def)
qed

theorem watchdog_kills_slow_witness:
  "wdKilled (wd_run [500, 0, 0, 0, 0] (newWatchdog 0 1000)) = slow_run 1 [500, 0, 0, 0, 0]"
proof -
  have "\<forall>n \<in> set [500, 0, 0, 0, 0]. (0 :: int) \<le> n" "sum_list [500, 0, 0, 0, 0 :: int] < 2 ^ 63"
    by simp_all
  from watchdog_kills_slow [OF this, of 0 1000] show ?thesis by blast
qed

section \<open>Where healing goes wrong\<close>


end
