(* ===== verification/Fetch.thy ===== *)
theory Fetch
  imports Prefixed
begin

text \<open>
  fetchranged.go: downloading an object in concurrent byte ranges, to a random-access file
  (\<open>FetchRangedAt\<close>) or as an ordered stream (\<open>FetchReader\<close>). The goroutines are step
  relations over an explicit state: any runnable goroutine may take the next step, and the
  caller's context may end at any time.
\<close>

section \<open>Options\<close>

record fetchOpts =
  foThreshold :: int
  foPartSize :: int
  foConcurrency :: int

definition fetchDefaults :: "fetchOpts \<Rightarrow> fetchOpts" where
  "fetchDefaults o' =
     (let o1 = (if foThreshold o' = 0 then o'\<lparr>foThreshold := 16777216\<rparr> else o');
          o2 = (if foPartSize o1 = 0 then o1\<lparr>foPartSize := 16777216\<rparr> else o1)
      in if foConcurrency o2 = 0 then o2\<lparr>foConcurrency := 6\<rparr> else o2)"

section \<open>The destination\<close>

text \<open>
  An \<open>io.WriterAt\<close>: the bytes written so far (holes read as zero), and for each copy into it
  the point at which it fails, if it does.
\<close>

record dest =
  dBytes :: bytes
  dFaults :: "(nat \<times> err) option list"

definition writeAt :: "nat \<Rightarrow> bytes \<Rightarrow> bytes \<Rightarrow> bytes" where
  "writeAt off bs d =
     (if bs = [] then d
      else let base = d @ replicate (off - length d) 0
           in take off base @ bs @ drop (off + length bs) base)"

text \<open>\<open>io.Copy(io.NewOffsetWriter(dst, off), body)\<close>: the bytes written and the error.\<close>

definition copyAt :: "nat \<Rightarrow> body \<Rightarrow> dest \<Rightarrow> (nat \<times> err option) \<times> dest" where
  "copyAt off b d =
     (let (bs, e) = copy_all b;
          d1 = d\<lparr>dFaults := tl (dFaults d)\<rparr>
      in case dFaults d of
           Some (n, we) # fs \<Rightarrow>
             if n < length bs then ((n, Some we), d1\<lparr>dBytes := writeAt off (take n bs) (dBytes d)\<rparr>)
             else ((length bs, e), d1\<lparr>dBytes := writeAt off bs (dBytes d)\<rparr>)
         | _ \<Rightarrow> ((length bs, e), d1\<lparr>dBytes := writeAt off bs (dBytes d)\<rparr>))"

section \<open>Single stream and single parts\<close>

definition fetchSingle :: "('s, body) bucket \<Rightarrow> ctx \<Rightarrow> string \<Rightarrow> dest \<Rightarrow> 's
    \<Rightarrow> err option \<times> dest \<times> 's" where
  "fetchSingle B c key dst s =
     (case bGet B c key s of
        (Inl e, s1) \<Rightarrow> (Some e, dst, s1)
      | (Inr (b, etag), s1) \<Rightarrow>
          (case copyAt 0 b dst of
             ((n, Some e), d) \<Rightarrow> (Some (EWrap ''objectstore: fetch'' e), d, s1)
           | ((n, None), d) \<Rightarrow> (None, d, s1)))"

text \<open>The second half of \<open>fetchOnePart\<close>, after GetRange has answered.\<close>

definition copyPart :: "int \<Rightarrow> int \<Rightarrow> body \<Rightarrow> dest \<Rightarrow> err option \<times> dest" where
  "copyPart off ln b dst =
     (case copyAt (nat off) b dst of
        ((n, Some e), d) \<Rightarrow> (Some (EWrap ''objectstore: fetch part'' e), d)
      | ((n, None), d) \<Rightarrow>
          if int n \<noteq> ln then (Some (EMsg ''objectstore: fetch part: short''), d) else (None, d))"

section \<open>Concurrent parts\<close>

text \<open>
  A running goroutine is before or after its GetRange call. The loop variables of
  \<open>fetchParts\<close>, its error slot, the two ways its context can end, and the bucket.
\<close>

datatype part = PStart int int | PBody int int body

record 's fetchState =
  fpOff :: int
  fpLoop :: bool
  fpParts :: "part list"
  fpErr :: "err option"
  fpCancel :: bool
  fpParent :: "ctxerr option"
  fpDst :: dest
  fpS :: 's

definition fctxErr :: "'s fetchState \<Rightarrow> ctxerr option" where
  "fctxErr f = (case fpParent f of Some e \<Rightarrow> Some e
                | None \<Rightarrow> if fpCancel f then Some Canceled else None)"

definition fp_init :: "ctxerr option \<Rightarrow> dest \<Rightarrow> 's \<Rightarrow> 's fetchState" where
  "fp_init p d s = \<lparr>fpOff = 0, fpLoop = True, fpParts = [], fpErr = None, fpCancel = False,
     fpParent = p, fpDst = d, fpS = s\<rparr>"

definition fp_fail :: "err \<Rightarrow> 's fetchState \<Rightarrow> 's fetchState" where
  "fp_fail e f = f\<lparr>fpErr := (case fpErr f of None \<Rightarrow> Some e | Some e' \<Rightarrow> Some e'), fpCancel := True\<rparr>"

definition dropAt :: "nat \<Rightarrow> 'a list \<Rightarrow> 'a list" where
  "dropAt i xs = take i xs @ drop (Suc i) xs"

text \<open>A goroutine's GetRange call, and its copy; either may end it.\<close>

definition fp_begin :: "('s, body) bucket \<Rightarrow> ctx \<Rightarrow> string \<Rightarrow> nat \<Rightarrow> 's fetchState \<Rightarrow> 's fetchState" where
  "fp_begin B c key i f =
     (case fpParts f ! i of
        PStart off ln \<Rightarrow>
          (case bGetRange B (c\<lparr>ctxErr := fctxErr f\<rparr>) key off ln (fpS f) of
             (Inl e, s1) \<Rightarrow> fp_fail e (f\<lparr>fpParts := dropAt i (fpParts f), fpS := s1\<rparr>)
           | (Inr b, s1) \<Rightarrow> f\<lparr>fpParts := (fpParts f)[i := PBody off ln b], fpS := s1\<rparr>)
      | PBody off ln b \<Rightarrow> f)"

definition fp_finish :: "nat \<Rightarrow> 's fetchState \<Rightarrow> 's fetchState" where
  "fp_finish i f =
     (case fpParts f ! i of
        PStart off ln \<Rightarrow> f
      | PBody off ln b \<Rightarrow>
          (case copyPart off ln b (fpDst f) of
             (Some e, d) \<Rightarrow> fp_fail e (f\<lparr>fpParts := dropAt i (fpParts f), fpDst := d\<rparr>)
           | (None, d) \<Rightarrow> f\<lparr>fpParts := dropAt i (fpParts f), fpDst := d\<rparr>))"

text \<open>One turn of the loop of \<open>fetchParts\<close> starts a goroutine when a slot is free.\<close>

definition fp_spawn :: "int \<Rightarrow> fetchOpts \<Rightarrow> 's fetchState \<Rightarrow> 's fetchState" where
  "fp_spawn sz opts f =
     f\<lparr>fpParts := fpParts f @ [PStart (fpOff f) (min (foPartSize opts) (sz - fpOff f))],
       fpOff := wrap64 (fpOff f + foPartSize opts)\<rparr>"

inductive fp_step :: "('s, body) bucket \<Rightarrow> ctx \<Rightarrow> string \<Rightarrow> int \<Rightarrow> fetchOpts
    \<Rightarrow> 's fetchState \<Rightarrow> 's fetchState \<Rightarrow> bool"
  for B c key sz opts where
  Spawn: "fpLoop f \<Longrightarrow> fpOff f < sz \<Longrightarrow> int (length (fpParts f)) < foConcurrency opts
      \<Longrightarrow> fctxErr f = None \<Longrightarrow> fp_step B c key sz opts f (fp_spawn sz opts f)"
| Break: "fpLoop f \<Longrightarrow> fpOff f < sz \<Longrightarrow> fctxErr f \<noteq> None
      \<Longrightarrow> fp_step B c key sz opts f (f\<lparr>fpLoop := False\<rparr>)"
| Exit: "fpLoop f \<Longrightarrow> \<not> fpOff f < sz \<Longrightarrow> fp_step B c key sz opts f (f\<lparr>fpLoop := False\<rparr>)"
| Begin: "i < length (fpParts f) \<Longrightarrow> fpParts f ! i = PStart off ln
      \<Longrightarrow> fp_step B c key sz opts f (fp_begin B c key i f)"
| Finish: "i < length (fpParts f) \<Longrightarrow> fpParts f ! i = PBody off ln b
      \<Longrightarrow> fp_step B c key sz opts f (fp_finish i f)"
| Parent: "fpParent f = None \<Longrightarrow> fp_step B c key sz opts f (f\<lparr>fpParent := Some ce\<rparr>)"

definition fp_done :: "'s fetchState \<Rightarrow> bool" where
  "fp_done f \<longleftrightarrow> \<not> fpLoop f \<and> fpParts f = []"

definition fetchParts :: "('s, body) bucket \<Rightarrow> ctx \<Rightarrow> string \<Rightarrow> int \<Rightarrow> fetchOpts \<Rightarrow> dest \<Rightarrow> 's
    \<Rightarrow> 's fetchState \<Rightarrow> bool" where
  "fetchParts B c key sz opts dst s f \<longleftrightarrow>
     (fp_step B c key sz opts)\<^sup>*\<^sup>* (fp_init (ctxErr c) dst s) f \<and> fp_done f"

text \<open>
  \<open>FetchRangedAt\<close>: the results it may return, with the destination and the bucket left behind.
\<close>

inductive fetchRangedAt :: "('s, body) bucket \<Rightarrow> ctx \<Rightarrow> string \<Rightarrow> fetchOpts \<Rightarrow> dest \<Rightarrow> 's
    \<Rightarrow> objectInfo option \<times> err option \<Rightarrow> dest \<Rightarrow> 's \<Rightarrow> bool"
  for B c key opts dst s where
  StatErr: "bStat B c key s = (Inl e, s1)
      \<Longrightarrow> fetchRangedAt B c key opts dst s (None, Some e) dst s1"
| Small: "bStat B c key s = (Inr info, s1)
      \<Longrightarrow> oSize info < foThreshold (fetchDefaults opts)
      \<Longrightarrow> fetchSingle B c key dst s1 = (e, d, s2)
      \<Longrightarrow> fetchRangedAt B c key opts dst s (Some info, e) d s2"
| Parts: "bStat B c key s = (Inr info, s1)
      \<Longrightarrow> \<not> oSize info < foThreshold (fetchDefaults opts)
      \<Longrightarrow> fetchParts B c key (oSize info) (fetchDefaults opts) dst s1 f
      \<Longrightarrow> fpErr f = None
      \<Longrightarrow> fetchRangedAt B c key opts dst s (Some info, None) (fpDst f) (fpS f)"
| PartsErr: "bStat B c key s = (Inr info, s1)
      \<Longrightarrow> \<not> oSize info < foThreshold (fetchDefaults opts)
      \<Longrightarrow> fetchParts B c key (oSize info) (fetchDefaults opts) dst s1 f
      \<Longrightarrow> fpErr f = Some e \<Longrightarrow> errIs e ErrNotFound \<or> fpParent f \<noteq> None
      \<Longrightarrow> fetchRangedAt B c key opts dst s (Some info, Some e) (fpDst f) (fpS f)"
| Degrade: "bStat B c key s = (Inr info, s1)
      \<Longrightarrow> \<not> oSize info < foThreshold (fetchDefaults opts)
      \<Longrightarrow> fetchParts B c key (oSize info) (fetchDefaults opts) dst s1 f
      \<Longrightarrow> fpErr f = Some e \<Longrightarrow> \<not> errIs e ErrNotFound \<Longrightarrow> fpParent f = None
      \<Longrightarrow> fetchSingle B c key (fpDst f) (fpS f) = (e', d, s2)
      \<Longrightarrow> fetchRangedAt B c key opts dst s (Some info, e') d s2"

end
