(* ===== verification/FetchProps.thy ===== *)
theory FetchProps
  imports Fetch
begin

text \<open>
  Ranged fetching over a backend that keeps the bucket contract: the parts tile the object,
  no more than the allowed number run at once, every run ends, and a run that ends without an
  error under a live context has written the object's bytes.
\<close>

section \<open>Writing\<close>

lemma writeAt_length: "length (writeAt off bs d) = (if bs = [] then length d else max (length d) (off + length bs))"
  by (auto simp: writeAt_def Let_def)

lemma writeAt_nth:
  assumes "i < length (writeAt off bs d)"
  shows "off \<le> i \<Longrightarrow> i < off + length bs \<Longrightarrow> writeAt off bs d ! i = bs ! (i - off)"
    and "\<not> (off \<le> i \<and> i < off + length bs) \<Longrightarrow> i < length d \<Longrightarrow> writeAt off bs d ! i = d ! i"
proof -
  let ?base = "d @ replicate (off - length d) 0"
  have off: "length (take off ?base) = off" by simp
  have w: "bs \<noteq> [] \<Longrightarrow> writeAt off bs d = take off ?base @ bs @ drop (off + length bs) ?base"
    by (simp add: writeAt_def Let_def)
  show "writeAt off bs d ! i = bs ! (i - off)" if i: "off \<le> i" "i < off + length bs"
  proof -
    have "i - off < length bs" "bs \<noteq> []" using i by auto
    moreover obtain A C where "writeAt off bs d = A @ bs @ C" "length A = off"
      using w [OF \<open>bs \<noteq> []\<close>] off by blast
    ultimately show ?thesis using i by (simp add: nth_append)
  qed
  show "writeAt off bs d ! i = d ! i" if i: "\<not> (off \<le> i \<and> i < off + length bs)" "i < length d"
  proof (cases "bs = []")
    case False
    have b: "?base ! i = d ! i" using i(2) by (simp add: nth_append)
    show ?thesis
    proof (cases "i < off")
      case True
      then have "writeAt off bs d ! i = take off ?base ! i"
        using w [OF False] off by (simp only: nth_append if_True)
      also have "\<dots> = ?base ! i" using True by (rule nth_take)
      finally show ?thesis using b by simp
    next
      case ge: False
      then have "\<not> i - off < length bs" "off + length bs \<le> i" using i(1) by auto
      then have "writeAt off bs d ! i = drop (off + length bs) ?base ! (i - off - length bs)"
        using w [OF False] off ge by (simp only: nth_append if_False)
      also have "\<dots> = ?base ! (off + length bs + (i - off - length bs))"
        using i(2) \<open>off + length bs \<le> i\<close> by (intro nth_drop) simp
      finally show ?thesis using b \<open>off + length bs \<le> i\<close> by simp
    qed
  qed (simp add: writeAt_def)
qed

text \<open>The positions at which a destination holds the object's byte.\<close>

definition holds_at :: "bytes \<Rightarrow> bytes \<Rightarrow> nat \<Rightarrow> bool" where
  "holds_at v d i \<longleftrightarrow> i < length d \<and> i < length v \<and> d ! i = v ! i"

lemma holds_at_write:
  assumes "prefix bs (drop off v)"
  shows "holds_at v d i \<Longrightarrow> holds_at v (writeAt off bs d) i"
    and "off \<le> i \<Longrightarrow> i < off + length bs \<Longrightarrow> holds_at v (writeAt off bs d) i"
proof -
  obtain zs where zs: "drop off v = bs @ zs" using assms by (auto simp: prefix_def)
  have inside: "off \<le> j \<Longrightarrow> j < off + length bs \<Longrightarrow> j < length v \<and> v ! j = bs ! (j - off)" for j
  proof -
    assume j: "off \<le> j" "j < off + length bs"
    have "length bs \<le> length v - off" using arg_cong [OF zs, of length] by simp
    moreover have "drop off v ! (j - off) = v ! j" using j calculation by (intro nth_drop [THEN trans]) auto
    moreover have "j - off < length bs" using j by linarith
    ultimately show ?thesis using j zs by (simp add: nth_append)
  qed
  show "holds_at v (writeAt off bs d) i" if "holds_at v d i"
    using that inside [of i] writeAt_nth [of i off bs d]
    by (cases "off \<le> i \<and> i < off + length bs") (auto simp: holds_at_def writeAt_length)
  show "holds_at v (writeAt off bs d) i" if "off \<le> i" "i < off + length bs"
    using that inside [of i] writeAt_nth(1) [of i off bs d]
    by (auto simp: holds_at_def writeAt_length)
qed

lemma copyAt_out:
  assumes "copyAt off b d = ((n, e), d')" and "prefix (body_bytes b) (drop off v)"
  shows "holds_at v (dBytes d) i \<Longrightarrow> holds_at v (dBytes d') i"
    and "e = None \<Longrightarrow> n = length (body_bytes b) \<and> snd (copy_all b) = None"
    and "e = None \<Longrightarrow> off \<le> i \<Longrightarrow> i < off + n \<Longrightarrow> holds_at v (dBytes d') i"
proof -
  obtain bs e0 where cb: "copy_all b = (bs, e0)" by fastforce
  have p: "prefix bs (drop off v)" using assms(2) cb by simp
  have "prefix (take m bs) (drop off v)" for m
    using p take_is_prefix prefix_order.trans by blast
  note w = holds_at_write [OF this] holds_at_write [OF p]
  show "holds_at v (dBytes d) i \<Longrightarrow> holds_at v (dBytes d') i"
    using assms(1) cb w(1,3) by (auto simp: copyAt_def Let_def split: list.splits option.splits if_splits)
  show "e = None \<Longrightarrow> n = length (body_bytes b) \<and> snd (copy_all b) = None"
    using assms(1) cb by (auto simp: copyAt_def Let_def split: list.splits option.splits if_splits)
  show "e = None \<Longrightarrow> off \<le> i \<Longrightarrow> i < off + n \<Longrightarrow> holds_at v (dBytes d') i"
    using assms(1) cb w(4) by (auto simp: copyAt_def Let_def split: list.splits option.splits if_splits)
qed

section \<open>The invariant of the parts\<close>

definition part_ok :: "bytes \<Rightarrow> int \<Rightarrow> part \<Rightarrow> bool" where
  "part_ok v ps p \<longleftrightarrow>
     (case p of
        PStart off ln \<Rightarrow> 0 \<le> off \<and> off < int (length v) \<and> ln = min ps (int (length v) - off)
      | PBody off ln b \<Rightarrow> 0 \<le> off \<and> off < int (length v) \<and> ln = min ps (int (length v) - off)
          \<and> delivers (copy_all b) (take (nat ln) (drop (nat off) v)))"

fun part_covers :: "part \<Rightarrow> nat \<Rightarrow> bool" where
  "part_covers (PStart off ln) i = (off \<le> int i \<and> int i < off + ln)"
| "part_covers (PBody off ln b) i = (off \<le> int i \<and> int i < off + ln)"

definition fp_inv :: "bytes \<Rightarrow> fetchOpts \<Rightarrow> 's fetchState \<Rightarrow> bool" where
  "fp_inv v opts f \<longleftrightarrow>
     0 \<le> fpOff f \<and> list_all (part_ok v (foPartSize opts)) (fpParts f)
     \<and> int (length (fpParts f)) \<le> foConcurrency opts
     \<and> (fpCancel f \<longrightarrow> fpErr f \<noteq> None)
     \<and> (\<not> fpLoop f \<longrightarrow> int (length v) \<le> fpOff f \<or> fctxErr f \<noteq> None)
     \<and> (fpErr f = None \<longrightarrow> (\<forall>i < length v. int i < fpOff f \<longrightarrow>
          holds_at v (dBytes (fpDst f)) i \<or> list_ex (\<lambda>p. part_covers p i) (fpParts f)))"

lemma set_dropAt: "i < length xs \<Longrightarrow> set xs = insert (xs ! i) (set (dropAt i xs))"
  by (metis Un_insert_right dropAt_def id_take_nth_drop list.set(2) set_append)

lemma length_dropAt: "i < length xs \<Longrightarrow> length (dropAt i xs) = length xs - 1"
  by (simp add: dropAt_def)

lemma list_all_dropAt: "list_all P xs \<Longrightarrow> list_all P (dropAt i xs)"
  by (auto simp: dropAt_def list_all_iff dest: in_set_takeD in_set_dropD)

lemma list_ex_dropAt:
  "i < length xs \<Longrightarrow> list_ex P xs \<longleftrightarrow> P (xs ! i) \<or> list_ex P (dropAt i xs)"
  using set_dropAt [of i xs] by (simp add: list_ex_iff)

lemma list_ex_update:
  "i < length xs \<Longrightarrow> P y = P (xs ! i) \<Longrightarrow> list_ex P (xs[i := y]) = list_ex P xs"
  by (simp add: list_ex_length) (metis nth_list_update)

lemma fctxErr_frame [simp]:
  "fctxErr (f\<lparr>fpParts := x\<rparr>) = fctxErr f" "fctxErr (f\<lparr>fpS := y\<rparr>) = fctxErr f"
  "fctxErr (f\<lparr>fpDst := d\<rparr>) = fctxErr f" "fctxErr (f\<lparr>fpLoop := b\<rparr>) = fctxErr f"
  "fctxErr (f\<lparr>fpOff := n\<rparr>) = fctxErr f"
  by (simp_all add: fctxErr_def)

lemma fp_fail_sel [simp]:
  "fpOff (fp_fail e f) = fpOff f" "fpParts (fp_fail e f) = fpParts f" "fpLoop (fp_fail e f) = fpLoop f"
  "fpErr (fp_fail e f) \<noteq> None" "fpCancel (fp_fail e f)" "fpDst (fp_fail e f) = fpDst f"
  "fpParent (fp_fail e f) = fpParent f" "fpS (fp_fail e f) = fpS f" "fctxErr (fp_fail e f) \<noteq> None"
  by (simp_all add: fp_fail_def fctxErr_def split: option.split)

lemma fp_inv_fail:
  assumes "fp_inv v opts f" and "i < length (fpParts f)"
  shows "fp_inv v opts (fp_fail e (f\<lparr>fpParts := dropAt i (fpParts f), fpDst := d\<rparr>))"
    and "fp_inv v opts (fp_fail e (f\<lparr>fpParts := dropAt i (fpParts f), fpS := s\<rparr>))"
  using assms by (auto simp: fp_inv_def list_all_dropAt length_dropAt)

lemma fp_inv_init:
  "0 \<le> foConcurrency opts \<Longrightarrow> fp_inv v opts (fp_init p d s)"
  by (simp add: fp_inv_def fp_init_def)

lemma fp_inv_spawn:
  assumes "fp_inv v opts f" and "fpLoop f" and "fpOff f < int (length v)"
    and "int (length (fpParts f)) < foConcurrency opts"
    and "0 < foPartSize opts" and "is_i64 (fpOff f + foPartSize opts)"
  shows "fp_inv v opts (fp_spawn (int (length v)) opts f)"
proof -
  have w: "wrap64 (fpOff f + foPartSize opts) = fpOff f + foPartSize opts" using assms(6) by simp
  have cov: "int i < fpOff f \<or> part_covers (PStart (fpOff f) (min (foPartSize opts)
      (int (length v) - fpOff f))) i" if "i < length v" "int i < fpOff f + foPartSize opts" for i
    using that by auto
  show ?thesis
    unfolding fp_inv_def
  proof (intro conjI)
    show "fpErr (fp_spawn (int (length v)) opts f) = None \<longrightarrow>
        (\<forall>i < length v. int i < fpOff (fp_spawn (int (length v)) opts f) \<longrightarrow>
           holds_at v (dBytes (fpDst (fp_spawn (int (length v)) opts f))) i
           \<or> list_ex (\<lambda>p. part_covers p i) (fpParts (fp_spawn (int (length v)) opts f)))"
      using assms(1) cov w by (auto simp: fp_inv_def fp_spawn_def)
  qed (use assms w in \<open>auto simp: fp_inv_def fp_spawn_def part_ok_def\<close>)
qed

lemma fp_inv_finish:
  assumes "fp_inv v opts f" and i: "i < length (fpParts f)" "fpParts f ! i = PBody off ln b"
  shows "fp_inv v opts (fp_finish i f)"
proof -
  have ok: "0 \<le> off" "off < int (length v)" "ln = min (foPartSize opts) (int (length v) - off)"
    "delivers (copy_all b) (take (nat ln) (drop (nat off) v))"
    using assms by (auto simp: fp_inv_def list_all_length part_ok_def split: part.splits dest!: spec [of _ i])
  obtain e d where cp: "copyPart off ln b (fpDst f) = (e, d)" by fastforce
  show ?thesis
  proof (cases e)
    case (Some x)
    then show ?thesis using fp_inv_fail(1) [OF assms(1) i(1)] i(2) cp by (simp add: fp_finish_def)
  next
    case None
    obtain n d' where ca: "copyAt (nat off) b (fpDst f) = ((n, None), d')" and n: "int n = ln" "d' = d"
      using cp None by (auto simp: copyPart_def split: prod.splits option.splits if_splits)
    have "prefix (body_bytes b) (take (nat ln) (drop (nat off) v))"
      using ok(4) by (simp add: delivers_def)
    then have "prefix (body_bytes b) (drop (nat off) v)"
      using take_is_prefix prefix_order.trans by blast
    note out = copyAt_out [OF ca this]
    have cover: "holds_at v (dBytes d) j" if "part_covers (PBody off ln b) j" for j
      using that out(3) n ok(1) by auto
    have "fp_inv v opts (f\<lparr>fpParts := dropAt i (fpParts f), fpDst := d\<rparr>)"
      unfolding fp_inv_def
    proof (intro conjI)
      show "fpErr (f\<lparr>fpParts := dropAt i (fpParts f), fpDst := d\<rparr>) = None \<longrightarrow>
        (\<forall>j < length v. int j < fpOff (f\<lparr>fpParts := dropAt i (fpParts f), fpDst := d\<rparr>) \<longrightarrow>
           holds_at v (dBytes (fpDst (f\<lparr>fpParts := dropAt i (fpParts f), fpDst := d\<rparr>))) j
           \<or> list_ex (\<lambda>p. part_covers p j) (fpParts (f\<lparr>fpParts := dropAt i (fpParts f), fpDst := d\<rparr>)))"
      proof (simp, intro impI allI)
        fix j
        assume a: "fpErr f = None" "j < length v" "int j < fpOff f"
        then have "holds_at v (dBytes (fpDst f)) j \<or> list_ex (\<lambda>p. part_covers p j) (fpParts f)"
          using assms(1) by (simp add: fp_inv_def)
        then show "holds_at v (dBytes d) j \<or> list_ex (\<lambda>p. part_covers p j) (dropAt i (fpParts f))"
          using out(1) n(2) cover i(2) list_ex_dropAt [OF i(1), of "\<lambda>p. part_covers p j"] by auto
      qed
    qed (use assms(1) i(1) in \<open>auto simp: fp_inv_def list_all_dropAt length_dropAt\<close>)
    then show ?thesis using cp None i(2) by (simp add: fp_finish_def)
  qed
qed

context ranged_bucket
begin

lemma fp_inv_begin:
  assumes "fp_inv v opts f" and "inv (fpS f)" and "k \<in> K" and obj: "objs (fpS f) k = Some (v, e)"
    and sz: "int (length v) < 2 ^ 62" and ps: "0 < foPartSize opts"
    and i: "i < length (fpParts f)" "fpParts f ! i = PStart off ln"
  shows "fp_inv v opts (fp_begin B c k i f) \<and> inv (fpS (fp_begin B c k i f))
    \<and> objs (fpS (fp_begin B c k i f)) = objs (fpS f)"
proof -
  have ok: "0 \<le> off" "off < int (length v)" "ln = min (foPartSize opts) (int (length v) - off)"
    using assms(1) i by (auto simp: fp_inv_def list_all_length part_ok_def split: part.splits dest!: spec [of _ i])
  have i64: "is_i64 off" "is_i64 ln" using ok sz ps by (auto simp: is_i64_def)
  obtain r s1 where g: "bGetRange B (c\<lparr>ctxErr := fctxErr f\<rparr>) k off ln (fpS f) = (r, s1)" by fastforce
  note go = getRange_ok [OF assms(2,3) i64 g]
  show ?thesis
  proof (cases r)
    case (Inl x)
    then show ?thesis
      using fp_inv_fail(2) [OF assms(1) i(1)] g go i(2) by (simp add: fp_begin_def)
  next
    case (Inr b)
    have "rng (length v) off ln" using ok sz ps by (intro rng_open) auto
    moreover have "range_of v off ln = take (nat ln) (drop (nat off) v)"
      using ok ps by (auto simp: range_of_def range_start_def Let_def)
    ultimately have "delivers (copy_all b) (take (nat ln) (drop (nat off) v))"
      using go Inr obj by (auto simp: ogetRange_spec_def)
    then have part: "part_ok v (foPartSize opts) (PBody off ln b)" using ok by (simp add: part_ok_def)
    have "list_all (part_ok v (foPartSize opts)) ((fpParts f)[i := PBody off ln b])"
      using assms(1) part by (auto simp: fp_inv_def list_all_iff dest!: set_update_subset_insert [THEN subsetD])
    moreover have "list_ex (\<lambda>p. part_covers p j) ((fpParts f)[i := PBody off ln b])
        = list_ex (\<lambda>p. part_covers p j) (fpParts f)" for j
      by (rule list_ex_update) (use i in auto)
    ultimately have "fp_inv v opts (f\<lparr>fpParts := (fpParts f)[i := PBody off ln b], fpS := s1\<rparr>)"
      using assms(1) by (simp add: fp_inv_def)
    then show ?thesis using g Inr go i(2) by (simp add: fp_begin_def)
  qed
qed

lemma fp_finish_S: "fpS (fp_finish i f) = fpS f"
  by (auto simp: fp_finish_def split: part.split prod.split option.split)

lemma fp_step_inv:
  assumes "fp_step B c k (int (length v)) opts f f'"
    and "fp_inv v opts f" and "inv (fpS f)" and "k \<in> K" and obj: "objs (fpS f) k = Some (v, e)"
    and sz: "int (length v) < 2 ^ 62" and ps: "0 < foPartSize opts" "foPartSize opts < 2 ^ 62"
  shows "fp_inv v opts f' \<and> inv (fpS f') \<and> objs (fpS f') = objs (fpS f)"
  using assms(1)
proof cases
  case Spawn
  have "is_i64 (fpOff f + foPartSize opts)"
    using Spawn(3) sz ps assms(2) by (auto simp: is_i64_def fp_inv_def)
  then show ?thesis
    using fp_inv_spawn [OF assms(2) Spawn(2-4) ps(1)] Spawn(1) assms(3) by (simp add: fp_spawn_def)
next
  case (Begin i off ln)
  then show ?thesis using fp_inv_begin [OF assms(2-4) obj sz ps(1)] by simp
next
  case (Finish i off ln b)
  then show ?thesis using fp_inv_finish [OF assms(2)] assms(3) by (simp add: fp_finish_S)
next
  case (Parent ce)
  have "fctxErr (f\<lparr>fpParent := Some ce\<rparr>) \<noteq> None" by (simp add: fctxErr_def)
  then show ?thesis using Parent(1) assms(2,3) by (auto simp: fp_inv_def)
qed (use assms(2,3) in \<open>auto simp: fp_inv_def\<close>)

lemma fp_steps_inv:
  assumes "(fp_step B c k (int (length v)) opts)\<^sup>*\<^sup>* f f'"
    and "fp_inv v opts f" and "inv (fpS f)" and "k \<in> K" and "objs (fpS f) k = Some (v, e)"
    and "int (length v) < 2 ^ 62" and "0 < foPartSize opts" "foPartSize opts < 2 ^ 62"
  shows "fp_inv v opts f' \<and> inv (fpS f') \<and> objs (fpS f') = objs (fpS f)"
  using assms(1)
proof (induction rule: rtranclp_induct)
  case (step g h)
  then show ?case using fp_step_inv [OF step.hyps(2)] assms(4-8) by simp
qed (use assms in simp)

text \<open>A run that ends without an error, under a context that is still live, is complete.\<close>

lemma fetchParts_complete:
  assumes "fetchParts B c k (int (length v)) opts d s f"
    and "inv s" and "k \<in> K" and "objs s k = Some (v, e)"
    and "int (length v) < 2 ^ 62" and "0 < foPartSize opts" "foPartSize opts < 2 ^ 62"
    and "0 \<le> foConcurrency opts" and "fpErr f = None" and "fpParent f = None"
  shows "take (length v) (dBytes (fpDst f)) = v"
    and "inv (fpS f) \<and> objs (fpS f) = objs s"
proof -
  have run: "(fp_step B c k (int (length v)) opts)\<^sup>*\<^sup>* (fp_init (ctxErr c) d s) f" and fin: "fp_done f"
    using assms(1) by (simp_all add: fetchParts_def)
  have i: "fp_inv v opts f \<and> inv (fpS f) \<and> objs (fpS f) = objs s"
    using fp_steps_inv [OF run fp_inv_init [OF assms(8)] _ assms(3) _ assms(5-7), of e]
      assms(2,4) by (simp add: fp_init_def)
  then show "inv (fpS f) \<and> objs (fpS f) = objs s" by simp
  have "\<not> fpCancel f" using i assms(9) by (auto simp: fp_inv_def)
  then have "fctxErr f = None" using assms(10) by (simp add: fctxErr_def)
  then have "int (length v) \<le> fpOff f" using i fin by (auto simp: fp_inv_def fp_done_def)
  then have all: "\<forall>j < length v. holds_at v (dBytes (fpDst f)) j"
    using i assms(9) fin by (auto simp: fp_inv_def fp_done_def)
  have "length v \<le> length (dBytes (fpDst f))"
    using all by (metis holds_at_def leI nat_neq_iff not_less_iff_gr_or_eq)
  then show "take (length v) (dBytes (fpDst f)) = v"
    using all by (intro nth_equalityI) (auto simp: holds_at_def)
qed

end

section \<open>Termination\<close>

fun part_weight :: "part \<Rightarrow> nat" where
  "part_weight (PStart off ln) = 2"
| "part_weight (PBody off ln b) = 1"

definition fp_measure :: "int \<Rightarrow> 's fetchState \<Rightarrow> nat" where
  "fp_measure sz f =
     (if fpLoop f then 1 else 0) + 3 * nat (sz - fpOff f) + sum_list (map part_weight (fpParts f))
     + (if fpParent f = None then 1 else 0)"

lemma sum_dropAt:
  "i < length xs \<Longrightarrow> sum_list (map w xs) = w (xs ! i) + sum_list (map w (dropAt i xs))" for w :: "'a \<Rightarrow> nat"
  by (subst (1) id_take_nth_drop [of i xs]) (simp_all add: dropAt_def)

lemma fp_step_decreases:
  assumes "fp_step B c k sz opts f f'" and "0 \<le> fpOff f" and "sz < 2 ^ 62"
    and "0 < foPartSize opts" "foPartSize opts < 2 ^ 62"
  shows "fp_measure sz f' < fp_measure sz f \<and> 0 \<le> fpOff f'"
  using assms(1)
proof cases
  case Spawn
  have "is_i64 (fpOff f + foPartSize opts)" using Spawn(3) assms by (auto simp: is_i64_def)
  then have w: "wrap64 (fpOff f + foPartSize opts) = fpOff f + foPartSize opts" by simp
  have "nat (sz - (fpOff f + foPartSize opts)) < nat (sz - fpOff f)" using Spawn(3) assms(4) by simp
  then show ?thesis using Spawn w assms(2,4) by (simp add: fp_measure_def fp_spawn_def)
next
  case (Begin i off ln)
  show ?thesis
    using Begin assms(2) sum_dropAt [OF Begin(2), of part_weight]
      sum_list_update_less [OF Begin(2), of part_weight]
    by (auto simp: fp_measure_def fp_begin_def split: prod.split sum.split)
next
  case (Finish i off ln b)
  show ?thesis
    using Finish assms(2) sum_dropAt [OF Finish(2), of part_weight]
    by (auto simp: fp_measure_def fp_finish_def split: prod.split option.split)
qed (use assms(2) in \<open>auto simp: fp_measure_def\<close>)

lemma fp_steps_bounded:
  assumes "(fp_step B c k sz opts ^^ n) f f'" and "0 \<le> fpOff f" and "sz < 2 ^ 62"
    and "0 < foPartSize opts" "foPartSize opts < 2 ^ 62"
  shows "n + fp_measure sz f' \<le> fp_measure sz f \<and> 0 \<le> fpOff f'"
  using assms(1)
proof (induction n arbitrary: f')
  case (Suc n)
  then obtain g where g: "(fp_step B c k sz opts ^^ n) f g" "fp_step B c k sz opts g f'" by auto
  show ?case using Suc.IH [OF g(1)] fp_step_decreases [OF g(2)] assms(3-5) by auto
qed (use assms(2) in auto)

lemma fp_progress:
  assumes "\<not> fp_done f" and "0 < foConcurrency opts"
  shows "\<exists>f'. fp_step B c k sz opts f f'"
proof (cases "fpParts f")
  case Nil
  then have loop: "fpLoop f" using assms(1) by (simp add: fp_done_def)
  show ?thesis
  proof (cases "fpOff f < sz")
    case True
    then show ?thesis
      using loop fp_step.Spawn [of f sz opts B c k] fp_step.Break [of f sz B c k opts] Nil assms(2)
      by (cases "fctxErr f") auto
  next
    case False
    then show ?thesis using loop fp_step.Exit by blast
  qed
next
  case (Cons p ps)
  then have "0 < length (fpParts f)" "fpParts f ! 0 = p" by simp_all
  then show ?thesis
    using fp_step.Begin [of 0 f] fp_step.Finish [of 0 f] by (cases p) blast+
qed

lemma fetchParts_returns:
  assumes "sz < 2 ^ 62" and "0 < foPartSize opts" "foPartSize opts < 2 ^ 62"
    and "0 < foConcurrency opts"
  shows "\<exists>f. fetchParts B c k sz opts d s f"
proof -
  have "0 \<le> fpOff f \<Longrightarrow> \<exists>g. (fp_step B c k sz opts)\<^sup>*\<^sup>* f g \<and> fp_done g" for f
  proof (induction "fp_measure sz f" arbitrary: f rule: less_induct)
    case less
    show ?case
    proof (cases "fp_done f")
      case False
      from fp_progress [OF this assms(4)] obtain f' where f': "fp_step B c k sz opts f f'" by blast
      note dec = fp_step_decreases [OF f' less.prems assms(1-3)]
      from less.hyps [of f'] dec obtain g where "(fp_step B c k sz opts)\<^sup>*\<^sup>* f' g" "fp_done g" by blast
      then show ?thesis using f' by (meson converse_rtranclp_into_rtranclp)
    qed blast
  qed
  from this [of "fp_init (ctxErr c) d s"] show ?thesis by (simp add: fetchParts_def fp_init_def)
qed

section \<open>A cancelled context\<close>

text \<open>
  The loop leaves on a cancelled context without recording an error: a run may end with no
  error and nothing written.
\<close>

lemma fetchParts_cancelled:
  assumes "0 < sz" and "ctxErr c = None"
  shows "\<exists>f. fetchParts B c k sz opts d s f \<and> fpErr f = None \<and> fpDst f = d"
proof -
  let ?f0 = "fp_init (ctxErr c) d s"
  let ?f1 = "?f0\<lparr>fpParent := Some Canceled\<rparr>" and ?f2 = "?f0\<lparr>fpParent := Some Canceled, fpLoop := False\<rparr>"
  have "fp_step B c k sz opts ?f0 ?f1" using assms(2) by (intro fp_step.Parent) (simp add: fp_init_def)
  moreover have "fp_step B c k sz opts ?f1 ?f2"
    using fp_step.Break [of ?f1 sz B c k opts] assms(1) by (simp add: fp_init_def fctxErr_def)
  ultimately have "(fp_step B c k sz opts)\<^sup>*\<^sup>* ?f0 ?f2"
    by (rule converse_rtranclp_into_rtranclp [OF _ r_into_rtranclp])
  then show ?thesis
    by (intro exI [of _ ?f2]) (simp add: fetchParts_def fp_done_def fp_init_def)
qed

end
