(* ===== verification/FetchCorrect.thy ===== *)
theory FetchCorrect
  imports FetchProps HealCorrect
begin

text \<open>
  Ranged fetching as properties: a successful download is the object unless the context ended,
  every execution of the goroutines is finite, gets stuck nowhere and stays within the
  concurrency limit, and the way a cancelled download reports success.
\<close>

interpretation fsr: ranged_bucket "fs_bucket root" "fs_inv root K" K "fs_objs root K" maxKeys fs_rng
  for root K
  by unfold_locales

section \<open>The single stream\<close>

lemma holds_all_take:
  assumes "\<forall>j < length v. holds_at v d j"
  shows "take (length v) d = v"
proof -
  have "length v \<le> length d"
    using assms by (metis holds_at_def leI nat_neq_iff not_less_iff_gr_or_eq)
  then show ?thesis using assms by (intro nth_equalityI) (auto simp: holds_at_def)
qed

context ranged_bucket
begin

lemma fetchSingle_complete:
  assumes "inv s" and "k \<in> K" and "objs s k = Some (v, e)"
    and "fetchSingle B c k d s = (None, d', s')"
  shows "take (length v) (dBytes d') = v" and "inv s' \<and> objs s' = objs s"
proof -
  obtain b t where g: "bGet B c k s = (Inr (b, t), s')"
    and cp: "\<exists>n. copyAt 0 b d = ((n, None), d')"
    using assms(4) by (auto simp: fetchSingle_def split: sum.splits prod.splits option.splits)
  note go = get_ok [OF assms(1,2) g]
  then show "inv s' \<and> objs s' = objs s" by simp
  have del: "delivers (copy_all b) v" using go assms(3) by (auto simp: oget_spec_def)
  obtain n where n: "copyAt 0 b d = ((n, None), d')" using cp by blast
  have p: "prefix (body_bytes b) (drop 0 v)" using del by (simp add: delivers_def)
  note out = copyAt_out [OF n p]
  have "body_bytes b = v" using out(2) [OF refl] del by (simp add: delivers_def)
  then have "\<forall>j < length v. holds_at v (dBytes d') j"
    using out(2) [OF refl] out(3) [OF refl] by simp
  then show "take (length v) (dBytes d') = v" by (rule holds_all_take)
qed

lemma fetchRangedAt_complete:
  assumes "fetchRangedAt B c k opts d s (i, None) d' s'"
    and "inv s" and "k \<in> K" and obj: "objs s k = Some (v, e)" and "int (length v) < 2 ^ 62"
    and "0 < foPartSize (fetchDefaults opts)" "foPartSize (fetchDefaults opts) < 2 ^ 62"
    and "0 \<le> foConcurrency (fetchDefaults opts)"
  shows "take (length v) (dBytes d') = v
    \<or> (\<exists>s1 f. fetchParts B c k (int (length v)) (fetchDefaults opts) d s1 f \<and> fpErr f = None
         \<and> fpParent f \<noteq> None \<and> d' = fpDst f)"
  using assms(1)
proof (cases rule: fetchRangedAt.cases)
  case (Small info s1)
  have "inv s1 \<and> objs s1 = objs s" using stat_ok [OF assms(2,3) Small(2)] by simp
  then show ?thesis using fetchSingle_complete(1) [OF _ assms(3) _ Small(4)] obj by simp
next
  case (Parts info s1 f)
  have o: "inv s1" "objs s1 = objs s" "oSize info = int (length v)"
    using stat_ok [OF assms(2,3), of c "Inr info" s1] Parts obj by (auto simp: ostat_spec_def oinfo_ok_def)
  show ?thesis
  proof (cases "fpParent f")
    case None
    then show ?thesis
      using fetchParts_complete(1) [OF _ o(1) assms(3) _ assms(5-8), of c d f e] Parts o(2,3) obj by simp
  next
    case (Some ce)
    then show ?thesis using Parts o(3) by auto
  qed
next
  case (Degrade info s1 f e')
  have o: "inv s1" "objs s1 = objs s" "oSize info = int (length v)"
    using stat_ok [OF assms(2,3) Degrade(2)] obj by (auto simp: ostat_spec_def oinfo_ok_def)
  have "inv (fpS f) \<and> objs (fpS f) = objs s1"
  proof -
    have init: "fp_inv v (fetchDefaults opts) (fp_init (ctxErr c) d s1)" by (rule fp_inv_init [OF assms(8)])
    have s1: "fpS (fp_init (ctxErr c) d s1) = s1" by (simp add: fp_init_def)
    have run: "(fp_step B c k (int (length v)) (fetchDefaults opts))\<^sup>*\<^sup>* (fp_init (ctxErr c) d s1) f"
      using Degrade o(3) by (simp add: fetchParts_def)
    show ?thesis
      using fp_steps_inv [OF run init _ assms(3) _ assms(5-7), unfolded s1, OF o(1)] o(2) obj by simp
  qed
  then show ?thesis using fetchSingle_complete(1) [OF _ assms(3) _ Degrade(8)] o obj by simp
qed

end

section \<open>Downloads\<close>



text \<open>
  C32. Every download ends: from the start of the loop, each step of the scheduler (a goroutine
  started, begun or finished, the loop left, the context ended) decreases a measure, so an
  execution has at most three steps per byte plus two; as long as it has not ended some step is
  possible; hence an end is reached under every schedule, and at every moment at most
  \<open>Concurrency\<close> part goroutines exist.
\<close>

theorem fetchParts_terminates:
  assumes "int (length v) < 2 ^ 62" and "0 < foPartSize opts" and "foPartSize opts < 2 ^ 62"
    and "0 < foConcurrency opts"
  shows "(\<forall>n f. (fp_step B c k (int (length v)) opts ^^ n) (fp_init p d s) f \<longrightarrow> n \<le> 3 * length v + 2
        \<and> (fp_done f \<or> (\<exists>f'. fp_step B c k (int (length v)) opts f f')))
    \<and> (\<exists>f. fetchParts B c k (int (length v)) opts d s f)"
proof -
  have m: "fp_measure (int (length v)) (fp_init p d s) \<le> 3 * length v + 2"
    by (simp add: fp_measure_def fp_init_def)
  have "n \<le> 3 * length v + 2" if "(fp_step B c k (int (length v)) opts ^^ n) (fp_init p d s) f" for n f
    using fp_steps_bounded [OF that _ assms(1-3)] m by (simp add: fp_init_def)
  moreover have "fp_done f \<or> (\<exists>f'. fp_step B c k (int (length v)) opts f f')" for f
    using fp_progress [OF _ assms(4), of f B c k "int (length v)"] by (cases "fp_done f") simp_all
  moreover have "\<exists>f. fetchParts B c k (int (length v)) opts d s f"
    by (rule fetchParts_returns [OF assms])
  ultimately show ?thesis by (intro conjI allI impI; simp)
qed

theorem fetchParts_terminates_witness:
  "\<exists>f. fetchParts (flaky [1, 2]) ctx_background ''k'' (int (length [1, 2 :: byte]))
     \<lparr>foThreshold = 1, foPartSize = 1, foConcurrency = 2\<rparr> \<lparr>dBytes = [], dFaults = []\<rparr> [] f"
proof -
  let ?o = "\<lparr>foThreshold = 1, foPartSize = 1, foConcurrency = 2\<rparr>"
  have "int (length [1, 2 :: byte]) < 2 ^ 62" "0 < foPartSize ?o" "foPartSize ?o < 2 ^ 62"
    "0 < foConcurrency ?o" by simp_all
  from conjunct2 [OF fetchParts_terminates [OF this]] show ?thesis .
qed

text \<open>
  Cancellation can pass for success: there is an execution of \<open>fetchParts\<close> on a two-byte
  object in which the caller's context ends before the first part, and which returns no error
  although it has written nothing; with it \<open>FetchRangedAt\<close> reports the download complete.
\<close>

lemma fetch_cancelled_reports_success:
  "\<exists>f. fetchParts (flaky [1, 2]) ctx_background ''k'' 2 \<lparr>foThreshold = 1, foPartSize = 1, foConcurrency = 2\<rparr>
         \<lparr>dBytes = [], dFaults = []\<rparr> [] f \<and> fpErr f = None \<and> dBytes (fpDst f) = []
     \<and> fetchRangedAt (flaky [1, 2]) ctx_background ''k'' \<lparr>foThreshold = 1, foPartSize = 1, foConcurrency = 2\<rparr>
         \<lparr>dBytes = [], dFaults = []\<rparr> []
         (Some \<lparr>oKey = ''k'', oSize = 2, oLastModified = 0, oETag = ''t''\<rparr>, None) (fpDst f) (fpS f)"
proof -
  let ?o = "\<lparr>foThreshold = 1, foPartSize = 1, foConcurrency = 2\<rparr>" and ?d = "\<lparr>dBytes = [], dFaults = []\<rparr>"
  let ?i = "\<lparr>oKey = ''k'', oSize = 2, oLastModified = 0, oETag = ''t''\<rparr>"
  have def: "fetchDefaults ?o = ?o" by (simp add: fetchDefaults_def Let_def)
  obtain f where f: "fetchParts (flaky [1, 2]) ctx_background ''k'' 2 ?o ?d [] f" "fpErr f = None" "fpDst f = ?d"
    using fetchParts_cancelled [of 2 ctx_background "flaky [1, 2]" "''k''" ?o ?d "[]"]
    by (auto simp del: split_paired_Ex)
  have st: "bStat (flaky [1, 2]) ctx_background ''k'' [] = (Inr ?i, [])"
    by (simp add: flaky_def ctx_background_def)
  have "fetchRangedAt (flaky [1, 2]) ctx_background ''k'' ?o ?d [] (Some ?i, None) (fpDst f) (fpS f)"
    using fetchRangedAt.Parts [OF st, of ?o ?d f] f by (simp add: def)
  then show ?thesis using f by auto
qed

end
