(* ===== verification/FetchReader.thy ===== *)
theory FetchReader
  imports FetchProps HealProps
begin

text \<open>
  The streaming half of fetchranged.go: \<open>FetchReader\<close>, its producer goroutine, the fetch
  goroutines and the ordered reader, as one step relation. What the caller has received is part
  of the state, so that order, completeness and the bound on buffers are invariants.
\<close>

section \<open>State\<close>

text \<open>
  A single-use result channel: its fetch goroutine not started, running, or done. The producer
  waits to send, waits for the semaphore, or has closed \<open>slots\<close>.
\<close>

datatype slot = SWait int int | SRun int int | SReady int int "err + bytes"

datatype producer = PSend | PSem | PClosed

record 's orderedReader =
  orOff :: int
  orProd :: producer
  orQueue :: "slot list"
  orRunning :: int
  orPopped :: "slot option"
  orCur :: bytes
  orConsumed :: int
  orFell :: "body option"
  orParent :: "ctxerr option"
  orCancel :: bool
  orClosed :: bool
  orOut :: bytes
  orEnd :: "err option"
  orS :: 's

definition rctxErr :: "'s orderedReader \<Rightarrow> ctxerr option" where
  "rctxErr r = (case orParent r of Some e \<Rightarrow> Some e
                | None \<Rightarrow> if orCancel r then Some Canceled else None)"

definition or_init :: "ctxerr option \<Rightarrow> 's \<Rightarrow> 's orderedReader" where
  "or_init p s = \<lparr>orOff = 0, orProd = PSend, orQueue = [], orRunning = 0, orPopped = None,
     orCur = [], orConsumed = 0, orFell = None, orParent = p, orCancel = False, orClosed = False,
     orOut = [], orEnd = None, orS = s\<rparr>"

text \<open>The answers of \<open>FetchReader\<close>: an error, a plain body, or an ordered reader.\<close>

datatype 's fetched = Plain body | Ordered "'s orderedReader"

definition fetchReader :: "('s, body) bucket \<Rightarrow> ctx \<Rightarrow> string \<Rightarrow> fetchOpts \<Rightarrow> 's
    \<Rightarrow> (err + 's fetched \<times> objectInfo) \<times> 's" where
  "fetchReader B c key opts s =
     (case bStat B c key s of
        (Inl e, s1) \<Rightarrow> (Inl e, s1)
      | (Inr info, s1) \<Rightarrow>
          if oSize info < foThreshold (fetchDefaults opts) then
            (case bGet B c key s1 of
               (Inl e, s2) \<Rightarrow> (Inl e, s2)
             | (Inr (b, etag), s2) \<Rightarrow> (Inr (Plain b, info), s2))
          else (Inr (Ordered (or_init (ctxErr c) s1), info), s1))"

section \<open>Fetching a part\<close>

text \<open>\<open>io.ReadFull\<close> into a buffer of \<open>ln\<close> bytes.\<close>

definition readFull :: "nat \<Rightarrow> body \<Rightarrow> err + bytes" where
  "readFull ln b =
     (let (bs, e) = copy_all b
      in if ln \<le> length bs then Inr (take ln bs)
         else (case e of Some x \<Rightarrow> Inl x
               | None \<Rightarrow> if bs = [] then Inl EEOF else Inl EUnexpectedEOF))"

definition fetchPart :: "('s, body) bucket \<Rightarrow> ctx \<Rightarrow> string \<Rightarrow> int \<Rightarrow> int \<Rightarrow> 's
    \<Rightarrow> (err + bytes) \<times> 's" where
  "fetchPart B c key off ln s =
     (case bGetRange B c key off ln s of
        (Inl e, s1) \<Rightarrow> (Inl e, s1)
      | (Inr b, s1) \<Rightarrow>
          (case readFull (nat ln) b of
             Inl e \<Rightarrow> (Inl (EWrap ''objectstore: fetch part'' e), s1)
           | Inr buf \<Rightarrow> (Inr buf, s1)))"

section \<open>Steps\<close>

fun slot_start :: "slot \<Rightarrow> slot" where
  "slot_start (SWait off ln) = SRun off ln"
| "slot_start x = x"

text \<open>The producer: send a slot, then take the semaphore and start the goroutine.\<close>

definition or_send :: "int \<Rightarrow> fetchOpts \<Rightarrow> 's orderedReader \<Rightarrow> 's orderedReader" where
  "or_send sz opts r =
     r\<lparr>orQueue := orQueue r @ [SWait (orOff r) (min (foPartSize opts) (sz - orOff r))],
       orProd := PSem\<rparr>"

definition or_start :: "fetchOpts \<Rightarrow> 's orderedReader \<Rightarrow> 's orderedReader" where
  "or_start opts r =
     r\<lparr>orQueue := map slot_start (orQueue r), orPopped := map_option slot_start (orPopped r),
       orRunning := orRunning r + 1, orOff := wrap64 (orOff r + foPartSize opts), orProd := PSend\<rparr>"

text \<open>The answer to an errored part: the context's error, the fallback, or the error itself.\<close>

definition or_failed :: "('s, body) bucket \<Rightarrow> ctx \<Rightarrow> string \<Rightarrow> err \<Rightarrow> 's orderedReader
    \<Rightarrow> 's orderedReader" where
  "or_failed B c key e r =
     (case rctxErr r of
        Some ce \<Rightarrow> r\<lparr>orEnd := Some (ECtx ce)\<rparr>
      | None \<Rightarrow>
          if orConsumed r = 0 \<and> \<not> errIs e ErrNotFound then
            (case bGet B (c\<lparr>ctxErr := orParent r\<rparr>) key (orS r) of
               (Inl e', s1) \<Rightarrow> r\<lparr>orCancel := True, orEnd := Some e', orS := s1\<rparr>
             | (Inr (b, etag), s1) \<Rightarrow> r\<lparr>orCancel := True, orFell := Some b, orS := s1\<rparr>)
          else r\<lparr>orCancel := True, orEnd := Some e\<rparr>)"

definition or_deliver :: "nat \<Rightarrow> 's orderedReader \<Rightarrow> 's orderedReader" where
  "or_deliver n r =
     r\<lparr>orOut := orOut r @ take n (orCur r), orCur := drop n (orCur r),
       orConsumed := wrap64 (orConsumed r + int (length (take n (orCur r))))\<rparr>"

definition or_fellRead :: "nat \<Rightarrow> body \<Rightarrow> 's orderedReader \<Rightarrow> 's orderedReader" where
  "or_fellRead m b r =
     (case body_read m b of (bs, e, b') \<Rightarrow>
        r\<lparr>orOut := orOut r @ bs, orFell := Some b', orEnd := e\<rparr>)"

definition or_close :: "'s orderedReader \<Rightarrow> 's orderedReader" where
  "or_close r =
     (if orClosed r then r
      else r\<lparr>orClosed := True, orCancel := True, orFell := map_option body_close (orFell r)\<rparr>)"

text \<open>
  A Read call is under way whenever the reader has not ended: it may take its next step. The
  reader is followed up to its first error, end of file included; what a caller that reads on
  after an error gets is not modelled.
\<close>

definition or_reading :: "'s orderedReader \<Rightarrow> bool" where
  "or_reading r \<longleftrightarrow> orEnd r = None \<and> orFell r = None \<and> \<not> orClosed r"

inductive or_step :: "('s, body) bucket \<Rightarrow> ctx \<Rightarrow> string \<Rightarrow> int \<Rightarrow> fetchOpts
    \<Rightarrow> 's orderedReader \<Rightarrow> 's orderedReader \<Rightarrow> bool"
  for B c key sz opts where
  Send: "orProd r = PSend \<Longrightarrow> orOff r < sz \<Longrightarrow> int (length (orQueue r)) < foConcurrency opts
      \<Longrightarrow> or_step B c key sz opts r (or_send sz opts r)"
| Start: "orProd r = PSem \<Longrightarrow> orRunning r < foConcurrency opts
      \<Longrightarrow> or_step B c key sz opts r (or_start opts r)"
| Quit: "orProd r = PSem \<or> orProd r = PSend \<and> orOff r < sz \<Longrightarrow> rctxErr r \<noteq> None
      \<Longrightarrow> or_step B c key sz opts r (r\<lparr>orProd := PClosed\<rparr>)"
| Finish: "orProd r = PSend \<Longrightarrow> \<not> orOff r < sz
      \<Longrightarrow> or_step B c key sz opts r (r\<lparr>orProd := PClosed\<rparr>)"
| FillQueued: "i < length (orQueue r) \<Longrightarrow> orQueue r ! i = SRun off ln
      \<Longrightarrow> fetchPart B (c\<lparr>ctxErr := rctxErr r\<rparr>) key off ln (orS r) = (res, s1)
      \<Longrightarrow> or_step B c key sz opts r
           (r\<lparr>orQueue := (orQueue r)[i := SReady off ln res], orRunning := orRunning r - 1, orS := s1\<rparr>)"
| FillPopped: "orPopped r = Some (SRun off ln)
      \<Longrightarrow> fetchPart B (c\<lparr>ctxErr := rctxErr r\<rparr>) key off ln (orS r) = (res, s1)
      \<Longrightarrow> or_step B c key sz opts r
           (r\<lparr>orPopped := Some (SReady off ln res), orRunning := orRunning r - 1, orS := s1\<rparr>)"
| Pop: "or_reading r \<Longrightarrow> orCur r = [] \<Longrightarrow> orPopped r = None \<Longrightarrow> orQueue r = x # xs
      \<Longrightarrow> or_step B c key sz opts r (r\<lparr>orPopped := Some x, orQueue := xs\<rparr>)"
| Eof: "or_reading r \<Longrightarrow> orCur r = [] \<Longrightarrow> orPopped r = None \<Longrightarrow> orQueue r = [] \<Longrightarrow> orProd r = PClosed
      \<Longrightarrow> or_step B c key sz opts r (r\<lparr>orEnd := Some EEOF\<rparr>)"
| CtxDone: "or_reading r \<Longrightarrow> orCur r = [] \<Longrightarrow> orPopped r = Some x \<Longrightarrow> rctxErr r = Some ce
      \<Longrightarrow> or_step B c key sz opts r (r\<lparr>orEnd := Some (ECtx ce)\<rparr>)"
| Take: "or_reading r \<Longrightarrow> orCur r = [] \<Longrightarrow> orPopped r = Some (SReady off ln (Inr buf))
      \<Longrightarrow> or_step B c key sz opts r (r\<lparr>orPopped := None, orCur := buf\<rparr>)"
| Failed: "or_reading r \<Longrightarrow> orCur r = [] \<Longrightarrow> orPopped r = Some (SReady off ln (Inl e))
      \<Longrightarrow> or_step B c key sz opts r (or_failed B c key e (r\<lparr>orPopped := None\<rparr>))"
| Deliver: "or_reading r \<Longrightarrow> orCur r \<noteq> [] \<Longrightarrow> or_step B c key sz opts r (or_deliver n r)"
| FellRead: "orEnd r = None \<Longrightarrow> orFell r = Some b \<Longrightarrow> \<not> orClosed r
      \<Longrightarrow> or_step B c key sz opts r (or_fellRead m b r)"
| Close: "or_step B c key sz opts r (or_close r)"
| Parent: "orParent r = None \<Longrightarrow> or_step B c key sz opts r (r\<lparr>orParent := Some ce\<rparr>)"

end
