(* ===== verification/FetchReaderProps.thy ===== *)
theory FetchReaderProps
  imports FetchReader
begin

text \<open>
  The ordered reader over a backend that keeps the bucket contract: its slots tile the object
  from the read position to the producer's, so what the caller receives is a prefix of the
  object, the end of file comes after its last byte while the context lives, the buffers stay
  within the bound, and a reader that waits is never waiting for nothing.
\<close>

section \<open>Slots\<close>

fun slot_off :: "slot \<Rightarrow> int" where
  "slot_off (SWait off ln) = off" | "slot_off (SRun off ln) = off" | "slot_off (SReady off ln res) = off"

fun slot_ln :: "slot \<Rightarrow> int" where
  "slot_ln (SWait off ln) = ln" | "slot_ln (SRun off ln) = ln" | "slot_ln (SReady off ln res) = ln"

fun slot_good :: "bytes \<Rightarrow> slot \<Rightarrow> bool" where
  "slot_good v (SReady off ln (Inr buf)) = (buf = take (nat ln) (drop (nat off) v))"
| "slot_good v (SReady off ln (Inl e)) = (e \<noteq> EEOF)"
| "slot_good v x = True"

fun slot_running :: "slot \<Rightarrow> bool" where
  "slot_running (SRun off ln) = True" | "slot_running x = False"

fun slot_waiting :: "slot \<Rightarrow> bool" where
  "slot_waiting (SWait off ln) = True" | "slot_waiting x = False"

definition slot_ok :: "bytes \<Rightarrow> int \<Rightarrow> slot \<Rightarrow> bool" where
  "slot_ok v ps x \<longleftrightarrow> 0 \<le> slot_off x \<and> slot_off x < int (length v)
     \<and> slot_ln x = min ps (int (length v) - slot_off x) \<and> slot_good v x"

text \<open>The slots follow each other from one position to another.\<close>

fun slot_chain :: "int \<Rightarrow> slot list \<Rightarrow> int \<Rightarrow> bool" where
  "slot_chain p [] q = (p = q)"
| "slot_chain p (x # xs) q = (slot_off x = p \<and> slot_chain (p + slot_ln x) xs q)"

lemma slot_chain_append:
  "slot_chain p (xs @ ys) q = (\<exists>m. slot_chain p xs m \<and> slot_chain m ys q)"
  by (induction xs arbitrary: p) auto

lemma slot_start_sel [simp]:
  "slot_off (slot_start x) = slot_off x" "slot_ln (slot_start x) = slot_ln x"
  "slot_ok v ps (slot_start x) = slot_ok v ps x" "\<not> slot_waiting (slot_start x)"
  "slot_running (slot_start x) = (slot_running x \<or> slot_waiting x)"
  by (cases x; simp add: slot_ok_def)+

lemma slot_chain_start [simp]: "slot_chain p (map slot_start xs) q = slot_chain p xs q"
  by (induction xs arbitrary: p) auto

lemma slots_ok_start [simp]: "list_all (slot_ok v ps) (map slot_start xs) = list_all (slot_ok v ps) xs"
  by (simp add: list_all_iff)

lemma slot_chain_update:
  "slot_chain p xs q \<Longrightarrow> slot_off y = slot_off (xs ! i) \<Longrightarrow> slot_ln y = slot_ln (xs ! i)
    \<Longrightarrow> slot_chain p (xs[i := y]) q"
  by (induction xs arbitrary: p i) (auto split: nat.split)

text \<open>The popped slot, then the queue.\<close>

definition or_slots :: "'s orderedReader \<Rightarrow> slot list" where
  "or_slots r = (case orPopped r of None \<Rightarrow> [] | Some x \<Rightarrow> [x]) @ orQueue r"

lemma or_slots_frame [simp]:
  "or_slots (r\<lparr>orProd := p\<rparr>) = or_slots r" "or_slots (r\<lparr>orEnd := e\<rparr>) = or_slots r"
  "or_slots (r\<lparr>orParent := pa\<rparr>) = or_slots r" "or_slots (r\<lparr>orCur := x\<rparr>) = or_slots r"
  "or_slots (r\<lparr>orOut := x\<rparr>) = or_slots r" "or_slots (r\<lparr>orConsumed := n\<rparr>) = or_slots r"
  "or_slots (r\<lparr>orRunning := n\<rparr>) = or_slots r" "or_slots (r\<lparr>orS := s\<rparr>) = or_slots r"
  "or_slots (r\<lparr>orCancel := b\<rparr>) = or_slots r" "or_slots (r\<lparr>orOff := n\<rparr>) = or_slots r"
  "or_slots (r\<lparr>orClosed := b\<rparr>) = or_slots r" "or_slots (r\<lparr>orFell := f\<rparr>) = or_slots r"
  by (simp_all add: or_slots_def)

lemma rctxErr_frame [simp]:
  "rctxErr (r\<lparr>orProd := p\<rparr>) = rctxErr r" "rctxErr (r\<lparr>orEnd := e\<rparr>) = rctxErr r"
  "rctxErr (r\<lparr>orCur := x\<rparr>) = rctxErr r" "rctxErr (r\<lparr>orOut := x\<rparr>) = rctxErr r"
  "rctxErr (r\<lparr>orConsumed := n\<rparr>) = rctxErr r" "rctxErr (r\<lparr>orRunning := n\<rparr>) = rctxErr r"
  "rctxErr (r\<lparr>orS := s\<rparr>) = rctxErr r" "rctxErr (r\<lparr>orOff := n\<rparr>) = rctxErr r"
  "rctxErr (r\<lparr>orQueue := qs\<rparr>) = rctxErr r" "rctxErr (r\<lparr>orPopped := po\<rparr>) = rctxErr r"
  "rctxErr (r\<lparr>orClosed := b\<rparr>) = rctxErr r" "rctxErr (r\<lparr>orFell := f\<rparr>) = rctxErr r"
  "rctxErr (r\<lparr>orCancel := True\<rparr>) \<noteq> None" "rctxErr (r\<lparr>orParent := Some ce\<rparr>) \<noteq> None"
  by (auto simp: rctxErr_def split: option.split)

section \<open>The invariant\<close>

text \<open>Where the chain ends: at the producer's position.\<close>

definition or_ahead :: "bytes \<Rightarrow> int \<Rightarrow> 's orderedReader \<Rightarrow> int \<Rightarrow> bool" where
  "or_ahead v ps r q \<longleftrightarrow>
     (case orProd r of
        PSem \<Rightarrow> q = orOff r + min ps (int (length v) - orOff r)
      | PSend \<Rightarrow> q = min (orOff r) (int (length v))
      | PClosed \<Rightarrow> q = int (length v) \<or> rctxErr r \<noteq> None)"

lemma or_ahead_frame:
  assumes "or_ahead v ps r q" and "orProd r' = orProd r" "orOff r' = orOff r"
    and "rctxErr r \<noteq> None \<Longrightarrow> rctxErr r' \<noteq> None"
  shows "or_ahead v ps r' q"
  using assms by (cases "orProd r") (auto simp: or_ahead_def)

text \<open>The reader in order: received, buffered, and the slots up to the producer.\<close>

definition or_line :: "bytes \<Rightarrow> int \<Rightarrow> 's orderedReader \<Rightarrow> bool" where
  "or_line v ps r \<longleftrightarrow> prefix (orOut r @ orCur r) v \<and> orConsumed r = int (length (orOut r))
     \<and> (\<exists>q. slot_chain (int (length (orOut r @ orCur r))) (or_slots r) q \<and> or_ahead v ps r q)"

lemma or_line_frame:
  assumes "or_line v ps r" and "orOut r' @ orCur r' = orOut r @ orCur r" "or_slots r' = or_slots r"
    and "orConsumed r' = int (length (orOut r'))" and "orProd r' = orProd r" "orOff r' = orOff r"
    and "rctxErr r \<noteq> None \<Longrightarrow> rctxErr r' \<noteq> None"
  shows "or_line v ps r'"
  using assms(1) or_ahead_frame [OF _ assms(5,6,7)] unfolding or_line_def assms(2,3) using assms(4) by blast

lemma or_line_same:
  assumes "or_line v ps r" and "orOut r' = orOut r" "orCur r' = orCur r" "or_slots r' = or_slots r"
    and "orConsumed r' = orConsumed r" "orProd r' = orProd r" "orOff r' = orOff r"
    and "rctxErr r \<noteq> None \<Longrightarrow> rctxErr r' \<noteq> None"
  shows "or_line v ps r'"
  by (rule or_line_frame [OF assms(1)]) (use assms in \<open>auto simp: or_line_def\<close>)

text \<open>What the caller has received, and what an ended or fallen-back reader has.\<close>

definition or_stream :: "bytes \<Rightarrow> 's orderedReader \<Rightarrow> bool" where
  "or_stream v r \<longleftrightarrow> prefix (orOut r) v
     \<and> (\<forall>b. orFell r = Some b \<longrightarrow> orEnd r = None \<longrightarrow> \<not> orClosed r \<longrightarrow>
          plain_end b \<and> delivers (copy_all b) (drop (length (orOut r)) v))
     \<and> (orCancel r \<longrightarrow> orFell r \<noteq> None \<or> orClosed r \<or> orEnd r \<noteq> None)
     \<and> (orEnd r = Some EEOF \<longrightarrow> orOut r = v \<or> orParent r \<noteq> None)"

text \<open>The buffers: the queue within its capacity, and a part is popped only when none is buffered.\<close>

definition or_bounds :: "bytes \<Rightarrow> fetchOpts \<Rightarrow> 's orderedReader \<Rightarrow> bool" where
  "or_bounds v opts r \<longleftrightarrow> list_all (slot_ok v (foPartSize opts)) (or_slots r)
     \<and> 0 \<le> orOff r \<and> (orProd r = PSem \<longrightarrow> orOff r < int (length v))
     \<and> int (length (orQueue r)) \<le> foConcurrency opts \<and> orRunning r \<le> foConcurrency opts
     \<and> (orCur r \<noteq> [] \<longrightarrow> orPopped r = None) \<and> int (length (orCur r)) \<le> foPartSize opts"

definition or_inv :: "bytes \<Rightarrow> fetchOpts \<Rightarrow> 's orderedReader \<Rightarrow> bool" where
  "or_inv v opts r \<longleftrightarrow> or_stream v r \<and> or_bounds v opts r
     \<and> (orFell r = None \<longrightarrow> orEnd r = None \<longrightarrow> or_line v (foPartSize opts) r)"

lemma or_invI:
  assumes "or_stream v r" and "or_bounds v opts r"
    and "orFell r = None \<Longrightarrow> orEnd r = None \<Longrightarrow> or_line v (foPartSize opts) r"
  shows "or_inv v opts r"
  using assms by (simp add: or_inv_def)

lemma or_inv_init:
  "0 \<le> foConcurrency opts \<Longrightarrow> 0 < foPartSize opts \<Longrightarrow> or_inv v opts (or_init p s)"
  by (auto simp: or_inv_def or_stream_def or_line_def or_bounds_def or_init_def or_slots_def or_ahead_def)

text \<open>A step that leaves what the caller sees alone.\<close>

lemma or_stream_frame:
  assumes "or_stream v r" and "orOut r' = orOut r" "orFell r' = orFell r" "orCancel r' = orCancel r"
    "orClosed r' = orClosed r" "orEnd r' = orEnd r" "orParent r' = orParent r"
  shows "or_stream v r'"
  using assms by (simp add: or_stream_def)

text \<open>An ended reader keeps only its stream and its bounds.\<close>

lemma or_inv_end:
  assumes "or_inv v opts r" and "or_reading r" and "x = EEOF \<Longrightarrow> orOut r = v \<or> orParent r \<noteq> None"
  shows "or_inv v opts (r\<lparr>orEnd := Some x\<rparr>)"
  using assms by (auto simp: or_inv_def or_stream_def or_bounds_def or_reading_def)

section \<open>The producer's steps\<close>

lemma or_send_inv:
  assumes inv: "or_inv v opts r" and p: "orProd r = PSend" "orOff r < int (length v)"
    "int (length (orQueue r)) < foConcurrency opts"
  shows "or_inv v opts (or_send (int (length v)) opts r)"
proof (rule or_invI)
  let ?r = "or_send (int (length v)) opts r" and ?ps = "foPartSize opts"
  let ?x = "SWait (orOff r) (min ?ps (int (length v) - orOff r))"
  have sl: "or_slots ?r = or_slots r @ [?x]" by (simp add: or_slots_def or_send_def)
  show "or_stream v ?r"
    using inv by (auto simp: or_inv_def or_send_def intro: or_stream_frame)
  have "slot_ok v ?ps ?x" using inv p(2) by (simp add: slot_ok_def or_inv_def or_bounds_def)
  then show "or_bounds v opts ?r"
    using inv p(2,3) unfolding or_bounds_def sl by (simp add: or_inv_def or_bounds_def or_send_def)
  assume "orFell ?r = None" "orEnd ?r = None"
  then have "or_line v ?ps r" using inv by (simp add: or_inv_def or_send_def)
  then obtain q where "slot_chain (int (length (orOut r @ orCur r))) (or_slots r) q" "q = orOff r"
    using p by (auto simp: or_line_def or_ahead_def)
  then have "slot_chain (int (length (orOut r @ orCur r))) (or_slots ?r)
      (orOff r + min ?ps (int (length v) - orOff r))"
    unfolding sl by (simp add: slot_chain_append)
  then show "or_line v ?ps ?r"
    using \<open>or_line v ?ps r\<close> by (auto simp: or_line_def or_ahead_def or_send_def)
qed

lemma or_start_inv:
  assumes inv: "or_inv v opts r" and p: "orProd r = PSem" "orRunning r < foConcurrency opts"
    and ps: "0 < foPartSize opts" "foPartSize opts < 2 ^ 62" and sz: "int (length v) < 2 ^ 62"
  shows "or_inv v opts (or_start opts r)"
proof (rule or_invI)
  let ?r = "or_start opts r" and ?ps = "foPartSize opts"
  have sl: "or_slots ?r = map slot_start (or_slots r)"
    by (simp add: or_slots_def or_start_def split: option.split)
  have off: "0 \<le> orOff r" "orOff r < int (length v)"
    using inv p(1) by (auto simp: or_inv_def or_bounds_def)
  then have "is_i64 (orOff r + ?ps)" using ps sz by (simp add: is_i64_def)
  then have off': "orOff ?r = orOff r + ?ps" by (simp add: or_start_def)
  show "or_stream v ?r"
    using inv by (auto simp: or_inv_def or_start_def intro: or_stream_frame)
  show "or_bounds v opts ?r"
    using inv p(2) off ps unfolding or_bounds_def sl off'
    by (auto simp: or_inv_def or_bounds_def or_start_def)
  assume "orFell ?r = None" "orEnd ?r = None"
  then have "or_line v ?ps r" using inv by (simp add: or_inv_def or_start_def)
  moreover have "orOff r + min ?ps (int (length v) - orOff r) = min (orOff r + ?ps) (int (length v))"
    by auto
  ultimately show "or_line v ?ps ?r"
    using p(1) off' unfolding or_line_def sl by (auto simp: or_ahead_def or_start_def)
qed

lemma or_closed_inv:
  assumes inv: "or_inv v opts r" and p: "orProd r = PSend \<and> \<not> orOff r < int (length v) \<or> rctxErr r \<noteq> None"
  shows "or_inv v opts (r\<lparr>orProd := PClosed\<rparr>)"
  using assms by (auto simp: or_inv_def or_stream_def or_bounds_def or_line_def or_ahead_def)

text \<open>A slot is filled with the result of its part.\<close>

lemma or_fill_inv:
  assumes inv: "or_inv v opts r" and i: "i < length (or_slots r)" "or_slots r ! i = SRun off ln"
    and good: "slot_good v (SReady off ln res)"
    and slots: "or_slots r' = (or_slots r)[i := SReady off ln res]"
    and frame: "orOut r' = orOut r" "orCur r' = orCur r" "orConsumed r' = orConsumed r" "orOff r' = orOff r"
      "orProd r' = orProd r" "orFell r' = orFell r" "orCancel r' = orCancel r" "orClosed r' = orClosed r"
      "orEnd r' = orEnd r" "orParent r' = orParent r"
      "length (orQueue r') = length (orQueue r)" "orRunning r' \<le> orRunning r"
      "orPopped r = None \<Longrightarrow> orPopped r' = None"
  shows "or_inv v opts r'"
proof (rule or_invI)
  show "or_stream v r'" by (rule or_stream_frame) (use inv frame in \<open>auto simp: or_inv_def\<close>)
  have "slot_ok v (foPartSize opts) (or_slots r ! i)"
    using inv i(1) by (simp add: or_inv_def or_bounds_def list_all_length)
  then have "slot_ok v (foPartSize opts) (SReady off ln res)"
    using i(2) good by (simp add: slot_ok_def)
  then have "list_all (slot_ok v (foPartSize opts)) (or_slots r')"
    unfolding slots using inv by (intro list_all_update) (auto simp: or_inv_def or_bounds_def)
  then show "or_bounds v opts r'"
    using inv frame by (auto simp: or_inv_def or_bounds_def)
  have ctx: "rctxErr r' = rctxErr r" using frame by (simp add: rctxErr_def)
  assume "orFell r' = None" "orEnd r' = None"
  then have "or_line v (foPartSize opts) r" using inv frame by (simp add: or_inv_def)
  moreover have "slot_chain p ((or_slots r)[i := SReady off ln res]) q" if "slot_chain p (or_slots r) q" for p q
    by (rule slot_chain_update [OF that]) (use i(2) in simp_all)
  ultimately show "or_line v (foPartSize opts) r'"
    unfolding or_line_def or_ahead_def slots frame ctx by blast
qed

lemma or_slots_queue:
  assumes "i < length (orQueue r)"
  shows "\<exists>j < length (or_slots r). or_slots r ! j = orQueue r ! i \<and>
    (\<forall>y n s. or_slots (r\<lparr>orQueue := (orQueue r)[i := y], orRunning := n, orS := s\<rparr>) = (or_slots r)[j := y])"
proof (cases "orPopped r")
  case None
  then show ?thesis using assms by (intro exI [of _ i]) (simp add: or_slots_def)
next
  case (Some x)
  then show ?thesis using assms by (intro exI [of _ "Suc i"]) (simp add: or_slots_def)
qed

section \<open>The reader's steps\<close>

lemma or_pop_inv:
  assumes inv: "or_inv v opts r" and pop: "orCur r = []" "orPopped r = None" "orQueue r = x # xs"
  shows "or_inv v opts (r\<lparr>orPopped := Some x, orQueue := xs\<rparr>)"
proof (rule or_invI)
  let ?r = "r\<lparr>orPopped := Some x, orQueue := xs\<rparr>"
  have sl: "or_slots ?r = or_slots r" using pop(2,3) by (simp add: or_slots_def)
  show "or_stream v ?r" using inv by (auto simp: or_inv_def intro: or_stream_frame)
  show "or_bounds v opts ?r" using inv pop unfolding or_inv_def or_bounds_def sl by auto
  assume "orFell ?r = None" "orEnd ?r = None"
  then have "or_line v (foPartSize opts) r" using inv by (simp add: or_inv_def)
  then show "or_line v (foPartSize opts) ?r"
    by (rule or_line_same) (simp_all add: sl)
qed

lemma slot_ready_length:
  assumes "slot_ok v ps (SReady off ln (Inr buf))" and "0 < ps"
  shows "int (length buf) = ln" and "ln \<le> ps" and "prefix buf (drop (nat off) v)"
  using assms by (auto simp: slot_ok_def take_is_prefix)

lemma or_take_inv:
  assumes inv: "or_inv v opts r" and rd: "or_reading r" and cur: "orCur r = []"
    and pop: "orPopped r = Some (SReady off ln (Inr buf))" and ps: "0 < foPartSize opts"
  shows "or_inv v opts (r\<lparr>orPopped := None, orCur := buf\<rparr>)"
proof (rule or_invI)
  let ?r = "r\<lparr>orPopped := None, orCur := buf\<rparr>" and ?ps = "foPartSize opts"
  have sl: "or_slots r = SReady off ln (Inr buf) # or_slots ?r"
    using pop by (simp add: or_slots_def)
  have bnd: "or_bounds v opts r" using inv by (simp add: or_inv_def)
  then have ok: "slot_ok v ?ps (SReady off ln (Inr buf))" "list_all (slot_ok v ?ps) (or_slots ?r)"
    unfolding or_bounds_def sl by simp_all
  note buf = slot_ready_length [OF ok(1) ps]
  show "or_stream v ?r" using inv by (auto simp: or_inv_def intro: or_stream_frame)
  show "or_bounds v opts ?r" using bnd ok(2) buf(1,2) by (auto simp: or_bounds_def)
  have l: "or_line v ?ps r" using inv rd by (simp add: or_inv_def or_reading_def)
  then have p: "prefix (orOut r) v" using cur by (simp add: or_line_def)
  obtain q where ch: "slot_chain (int (length (orOut r))) (or_slots r) q" "or_ahead v ?ps r q"
    using l cur by (auto simp: or_line_def)
  have "off = int (length (orOut r))" using ch(1) unfolding sl by simp
  then have "prefix (orOut r @ buf) v"
    using buf(3) p by (metis append_eq_conv_conj nat_int prefix_def same_prefix_prefix)
  moreover have "slot_chain (int (length (orOut r)) + ln) (or_slots ?r) q" using ch(1) unfolding sl by simp
  moreover have "or_ahead v ?ps ?r q" using ch(2) by (rule or_ahead_frame) simp_all
  ultimately show "or_line v ?ps ?r"
    using l buf(1) by (auto simp: or_line_def)
qed

lemma or_deliver_inv:
  assumes inv: "or_inv v opts r" and rd: "or_reading r" and sz: "int (length v) < 2 ^ 62"
  shows "or_inv v opts (or_deliver n r)"
proof (rule or_invI)
  let ?r = "or_deliver n r" and ?ps = "foPartSize opts"
  have l: "or_line v ?ps r" using inv rd by (simp add: or_inv_def or_reading_def)
  have p: "prefix (orOut r @ orCur r) v" using l by (simp add: or_line_def)
  have same: "orOut ?r @ orCur ?r = orOut r @ orCur r" by (simp add: or_deliver_def)
  have "length (orOut r @ orCur r) \<le> length v" using p by (rule prefix_length_le)
  then have "is_i64 (int (length (orOut r)) + int (length (take n (orCur r))))"
    using sz by (auto simp: is_i64_def)
  then have "orConsumed ?r = int (length (orOut ?r))"
    using l by (simp add: or_line_def or_deliver_def)
  then show "or_line v ?ps ?r"
    by (intro or_line_frame [OF l same]) (simp_all add: or_deliver_def)
  have "prefix (orOut ?r) v"
    using p same by (metis prefix_order.trans prefixI)
  then show "or_stream v ?r"
    using inv rd by (auto simp: or_inv_def or_stream_def or_deliver_def or_reading_def)
  show "or_bounds v opts ?r"
    using inv by (auto simp: or_inv_def or_bounds_def or_deliver_def)
qed

lemma or_fellRead_inv:
  assumes inv: "or_inv v opts r" and fell: "orEnd r = None" "orFell r = Some b" "\<not> orClosed r"
  shows "or_inv v opts (or_fellRead m b r)"
proof (rule or_invI)
  obtain bs e b' where rd: "body_read m b = (bs, e, b')" by (metis surj_pair)
  have r': "or_fellRead m b r = r\<lparr>orOut := orOut r @ bs, orFell := Some b', orEnd := e\<rparr>"
    by (simp add: or_fellRead_def rd)
  have st: "prefix (orOut r) v" and b: "plain_end b" "delivers (copy_all b) (drop (length (orOut r)) v)"
    using inv fell by (auto simp: or_inv_def or_stream_def)
  note d = delivers_read [OF b rd]
  obtain zs where v: "v = orOut r @ zs" using st by (auto simp: prefix_def)
  have "prefix (orOut r @ bs) v" using d(1) v by simp
  moreover have "e = Some EEOF \<Longrightarrow> orOut r @ bs = v" using d(3) v by simp
  moreover have "e = None \<Longrightarrow> plain_end b' \<and> delivers (copy_all b') (drop (length (orOut r @ bs)) v)"
    using plain_end_read [OF b(1)] rd d(2) by (simp add: add.commute)
  ultimately show "or_stream v (or_fellRead m b r)"
    using inv unfolding r' by (simp add: or_inv_def or_stream_def)
  show "or_bounds v opts (or_fellRead m b r)"
    using inv unfolding r' by (simp add: or_inv_def or_bounds_def)
  assume "orFell (or_fellRead m b r) = None"
  then show "or_line v (foPartSize opts) (or_fellRead m b r)" by (simp add: r')
qed

lemma or_close_inv:
  assumes inv: "or_inv v opts r"
  shows "or_inv v opts (or_close r)"
proof (cases "orClosed r")
  case False
  then have r': "or_close r = r\<lparr>orClosed := True, orCancel := True, orFell := map_option body_close (orFell r)\<rparr>"
    by (simp add: or_close_def)
  show ?thesis
    unfolding r'
  proof (rule or_invI)
    assume "orFell (r\<lparr>orClosed := True, orCancel := True, orFell := map_option body_close (orFell r)\<rparr>) = None"
      and "orEnd (r\<lparr>orClosed := True, orCancel := True, orFell := map_option body_close (orFell r)\<rparr>) = None"
    then have "or_line v (foPartSize opts) r" using inv by (simp add: or_inv_def)
    then show "or_line v (foPartSize opts)
        (r\<lparr>orClosed := True, orCancel := True, orFell := map_option body_close (orFell r)\<rparr>)"
      by (rule or_line_same) (simp_all add: rctxErr_def split: option.split)
  qed (use inv in \<open>auto simp: or_inv_def or_stream_def or_bounds_def\<close>)
qed (use inv in \<open>simp add: or_close_def\<close>)

lemma or_parent_inv:
  assumes inv: "or_inv v opts r"
  shows "or_inv v opts (r\<lparr>orParent := Some ce\<rparr>)"
proof (rule or_invI)
  assume "orFell (r\<lparr>orParent := Some ce\<rparr>) = None" and "orEnd (r\<lparr>orParent := Some ce\<rparr>) = None"
  then have "or_line v (foPartSize opts) r" using inv by (simp add: or_inv_def)
  then show "or_line v (foPartSize opts) (r\<lparr>orParent := Some ce\<rparr>)"
    by (rule or_line_same) simp_all
qed (use inv in \<open>auto simp: or_inv_def or_stream_def or_bounds_def\<close>)

section \<open>Over a bucket\<close>

text \<open>
  Beside what healing needs, the reader must not get a bare EOF as the error of a request: it
  would pass it on, and a caller would take it for the end of the object.
\<close>

locale part_reader = healing +
  assumes getRange_eof: "inv s \<Longrightarrow> k \<in> K \<Longrightarrow> bGetRange B c k off len s \<noteq> (Inl EEOF, s')"
    and get_eof: "inv s \<Longrightarrow> k \<in> K \<Longrightarrow> bGet B c k s \<noteq> (Inl EEOF, s')"

lemma readFull_delivers:
  assumes "delivers (copy_all b) d" and "length d = n" and "readFull n b = Inr buf"
  shows "buf = d"
proof -
  obtain bs e where cb: "copy_all b = (bs, e)" by fastforce
  have "prefix bs d" "n \<le> length bs" "buf = take n bs"
    using assms(1,3) cb by (auto simp: delivers_def readFull_def split: if_splits option.splits)
  then show ?thesis using assms(2) by (auto simp: prefix_def)
qed

context part_reader
begin

lemma fetchPart_ok:
  assumes "inv s" and "k \<in> K" and obj: "objs s k = Some (v, e)" and sz: "int (length v) < 2 ^ 62"
    and ps: "0 < ps" "ps < 2 ^ 62" and slot: "slot_ok v ps (SRun off ln)"
    and f: "fetchPart B c k off ln s = (res, s')"
  shows "inv s' \<and> objs s' = objs s \<and> slot_good v (SReady off ln res)"
proof -
  have off: "0 \<le> off" "off < int (length v)" "ln = min ps (int (length v) - off)"
    using slot by (simp_all add: slot_ok_def)
  then have i64: "is_i64 off" "is_i64 ln" using sz ps by (auto simp: is_i64_def)
  obtain r s1 where g: "bGetRange B c k off ln s = (r, s1)" by fastforce
  note go = getRange_ok [OF assms(1,2) i64 g]
  show ?thesis
  proof (cases r)
    case (Inl x)
    then have "x \<noteq> EEOF" using getRange_eof [OF assms(1,2)] g by blast
    then show ?thesis using f g Inl go by (auto simp: fetchPart_def)
  next
    case (Inr b)
    have "rng (length v) off ln" using off ps sz by (intro rng_open) auto
    moreover have "range_of v off ln = take (nat ln) (drop (nat off) v)"
      using off ps by (auto simp: range_of_def range_start_def Let_def)
    ultimately have d: "delivers (copy_all b) (take (nat ln) (drop (nat off) v))"
      using go Inr obj by (auto simp: ogetRange_spec_def)
    have "length (take (nat ln) (drop (nat off) v)) = nat ln" using off ps by auto
    note full = readFull_delivers [OF d this]
    have "slot_good v (SReady off ln res)"
    proof (cases "readFull (nat ln) b")
      case (Inl x)
      then have "res = Inl (EWrap ''objectstore: fetch part'' x)"
        using f g \<open>r = Inr b\<close> by (simp add: fetchPart_def)
      then show ?thesis by simp
    next
      case (Inr buf)
      then have "res = Inr buf" using f g \<open>r = Inr b\<close> by (simp add: fetchPart_def)
      then show ?thesis using full [OF Inr] by simp
    qed
    then show ?thesis
      using f g Inr go by (auto simp: fetchPart_def split: sum.splits)
  qed
qed

text \<open>The answer to an errored part: nothing, or the whole object through one stream.\<close>

lemma or_failed_inv:
  assumes inv: "or_inv v opts r" and rd: "or_reading r" and pop: "orPopped r = Some (SReady off ln (Inl x))"
    and S: "inv (orS r)" "k \<in> K" "objs (orS r) k = Some (v, e)" and cur: "orCur r = []"
    and st: "r' = or_failed B c k x (r\<lparr>orPopped := None\<rparr>)"
  shows "or_inv v opts r' \<and> inv (orS r') \<and> objs (orS r') = objs (orS r)"
proof -
  let ?r = "r\<lparr>orPopped := None\<rparr>" and ?ps = "foPartSize opts"
  have live: "orEnd r = None" "orFell r = None" "\<not> orClosed r" using rd by (simp_all add: or_reading_def)
  have sl: "or_slots r = SReady off ln (Inl x) # or_slots ?r" using pop by (simp add: or_slots_def)
  have bnd: "or_bounds v opts r" and str: "or_stream v r" and line: "or_line v ?ps r"
    using inv live by (simp_all add: or_inv_def)
  have x: "x \<noteq> EEOF" using bnd unfolding or_bounds_def sl by (simp add: slot_ok_def)
  have bnd': "or_bounds v opts ?r" using bnd unfolding or_bounds_def sl by auto
  have bound: "or_bounds v opts (?r\<lparr>orCancel := True, orEnd := f, orFell := g, orS := s\<rparr>)" for f g s
    using bnd' by (simp add: or_bounds_def)
  have ends: "or_inv v opts (?r\<lparr>orCancel := a, orEnd := Some y, orS := s\<rparr>)" if "y \<noteq> EEOF" for a y s
    using bnd' str that by (auto simp: or_inv_def or_stream_def or_bounds_def)
  have out: "orOut r = []" if "orConsumed r = 0"
    using line that by (simp add: or_line_def)
  have falls: "or_inv v opts (?r\<lparr>orCancel := True, orFell := Some b, orS := s\<rparr>)"
    if "orConsumed r = 0" "plain_end b" "delivers (copy_all b) v" for b s
    using bnd' str that out live by (auto simp: or_inv_def or_stream_def or_bounds_def)
  obtain gr s1 where g: "bGet B (c\<lparr>ctxErr := orParent r\<rparr>) k (orS r) = (gr, s1)" by fastforce
  note go = get_ok [OF S(1,2) g]
  have gx: "gr = Inl y \<Longrightarrow> y \<noteq> EEOF" for y using get_eof [OF S(1,2)] g by blast
  have gb: "gr = Inr (b, t) \<Longrightarrow> plain_end b \<and> delivers (copy_all b) v" for b t
    using get_plain [OF S(1,2)] g go S(3) by (auto simp: oget_spec_def)
  show ?thesis
    using ends [where a = "orCancel r" and s = "orS r"] ends [where a = True and s = "orS r"]
      ends [where a = True and s = s1] falls [where s = s1] x gx gb g go S(1)
    unfolding st or_failed_def
    by (auto split: option.splits sum.splits)
qed

end

section \<open>Every step\<close>

context part_reader
begin

lemma or_step_inv:
  assumes "or_step B c k (int (length v)) opts r r'" and inv: "or_inv v opts r"
    and S: "inv (orS r)" "k \<in> K" "objs (orS r) k = Some (v, e)" and sz: "int (length v) < 2 ^ 62"
    and ps: "0 < foPartSize opts" "foPartSize opts < 2 ^ 62"
  shows "or_inv v opts r' \<and> inv (orS r') \<and> objs (orS r') = objs (orS r)"
  using assms(1)
proof cases
  case Send
  then show ?thesis using or_send_inv [OF inv] S(1) by (simp add: or_send_def)
next
  case Start
  then show ?thesis using or_start_inv [OF inv _ _ ps sz] S(1) by (simp add: or_start_def)
next
  case Quit
  then show ?thesis using or_closed_inv [OF inv] S(1) by simp
next
  case Finish
  then show ?thesis using or_closed_inv [OF inv] S(1) by simp
next
  case (FillQueued i off ln res s1)
  obtain j where j: "j < length (or_slots r)" "or_slots r ! j = SRun off ln"
      "\<And>y n s. or_slots (r\<lparr>orQueue := (orQueue r)[i := y], orRunning := n, orS := s\<rparr>) = (or_slots r)[j := y]"
    using or_slots_queue [OF FillQueued(2)] FillQueued(3) by auto
  then have "slot_ok v (foPartSize opts) (SRun off ln)"
    using inv by (metis or_inv_def or_bounds_def list_all_length)
  note f = fetchPart_ok [OF S sz ps this FillQueued(4)]
  have "or_inv v opts r'"
    unfolding FillQueued(1)
    by (rule or_fill_inv [OF inv j(1,2) _ j(3), where res = res]) (use f in simp_all)
  then show ?thesis using f FillQueued(1) by simp
next
  case (FillPopped off ln res s1)
  have j: "0 < length (or_slots r)" "or_slots r ! 0 = SRun off ln"
      "or_slots r' = (or_slots r)[0 := SReady off ln res]"
    using FillPopped by (simp_all add: or_slots_def)
  then have "slot_ok v (foPartSize opts) (SRun off ln)"
    using inv by (metis or_inv_def or_bounds_def list_all_length)
  note f = fetchPart_ok [OF S sz ps this FillPopped(3)]
  have "or_inv v opts r'"
    by (rule or_fill_inv [OF inv j(1,2) _ j(3)]) (use f FillPopped in simp_all)
  then show ?thesis using f FillPopped(1) by simp
next
  case Pop
  then show ?thesis using or_pop_inv [OF inv] S(1) by simp
next
  case Eof
  have l: "or_line v (foPartSize opts) r" and str: "or_stream v r"
    using inv Eof(2) by (simp_all add: or_inv_def or_reading_def)
  have live: "orEnd r = None" "orFell r = None" "\<not> orClosed r" using Eof(2) by (simp_all add: or_reading_def)
  have "rctxErr r \<noteq> None \<Longrightarrow> orParent r \<noteq> None"
    using str live by (auto simp: or_stream_def rctxErr_def split: option.splits if_splits)
  moreover have "int (length (orOut r)) = int (length v) \<or> rctxErr r \<noteq> None" "prefix (orOut r) v"
    using l Eof by (auto simp: or_line_def or_ahead_def or_slots_def)
  ultimately have "orOut r = v \<or> orParent r \<noteq> None"
    by (auto simp: prefix_def)
  then show ?thesis using or_inv_end [OF inv Eof(2)] S(1) Eof(1) by simp
next
  case CtxDone
  then show ?thesis using or_inv_end [OF inv CtxDone(2), of "ECtx _"] S(1) by simp
next
  case Take
  then show ?thesis using or_take_inv [OF inv _ _ _ ps(1)] S(1) by simp
next
  case (Failed off ln x)
  show ?thesis using or_failed_inv [OF inv Failed(2,4) S Failed(3) Failed(1)] .
next
  case (Deliver n)
  then show ?thesis using or_deliver_inv [OF inv _ sz, of n] S(1) by (simp add: or_deliver_def)
next
  case (FellRead b m)
  then show ?thesis
    using or_fellRead_inv [OF inv, of b m] S(1)
    by (simp add: or_fellRead_def split: prod.split)
next
  case Close
  then show ?thesis using or_close_inv [OF inv] S(1) by (simp add: or_close_def)
next
  case (Parent ce)
  then show ?thesis using or_parent_inv [OF inv, of ce] S(1) by simp
qed

lemma or_steps_inv:
  assumes "(or_step B c k (int (length v)) opts)\<^sup>*\<^sup>* (or_init p s) r"
    and S: "inv s" "k \<in> K" "objs s k = Some (v, e)" and sz: "int (length v) < 2 ^ 62"
    and opts: "0 < foPartSize opts" "foPartSize opts < 2 ^ 62" "0 \<le> foConcurrency opts"
  shows "or_inv v opts r \<and> inv (orS r) \<and> objs (orS r) = objs s"
  using assms(1)
proof (induction rule: rtranclp_induct)
  case base
  show ?case using or_inv_init [OF opts(3,1)] S(1) by (simp add: or_init_def)
next
  case (step y z)
  then show ?case
    using or_step_inv [OF step(2) _ _ S(2) _ sz opts(1,2), where e = e] S(3) by simp
qed

end

section \<open>The bound on buffers\<close>

text \<open>The bytes of part buffers that are allocated: started or filled slots, and the one being read.\<close>

fun slot_buffer :: "slot \<Rightarrow> nat" where
  "slot_buffer (SWait off ln) = 0"
| "slot_buffer (SRun off ln) = nat ln"
| "slot_buffer (SReady off ln (Inr buf)) = length buf"
| "slot_buffer (SReady off ln (Inl e)) = 0"

definition or_buffered :: "'s orderedReader \<Rightarrow> nat" where
  "or_buffered r = sum_list (map slot_buffer (or_slots r)) + length (orCur r)"

lemma slot_buffer_le: "slot_ok v ps x \<Longrightarrow> 0 < ps \<Longrightarrow> int (slot_buffer x) \<le> ps"
  by (cases x rule: slot_buffer.cases) (auto simp: slot_ok_def)

lemma or_buffered_le:
  assumes inv: "or_inv v opts r" and ps: "0 < foPartSize opts"
  shows "int (or_buffered r) \<le> (foConcurrency opts + 1) * foPartSize opts"
proof -
  let ?ps = "foPartSize opts"
  have b: "or_bounds v opts r" using inv by (simp add: or_inv_def)
  have sum: "int (sum_list (map slot_buffer xs)) \<le> int (length xs) * ?ps" if "list_all (slot_ok v ?ps) xs" for xs
    using that
  proof (induction xs)
    case (Cons x xs)
    then have "int (slot_buffer x) \<le> ?ps" by (intro slot_buffer_le [where v = v, OF _ ps]) simp
    with Cons show ?case by (simp add: algebra_simps)
  qed simp
  have slots: "int (sum_list (map slot_buffer (or_slots r))) \<le> int (length (or_slots r)) * ?ps"
    using b by (intro sum) (simp add: or_bounds_def)
  have len: "int (length (orQueue r)) \<le> foConcurrency opts" using b by (simp add: or_bounds_def)
  show ?thesis
  proof (cases "orCur r = []")
    case True
    have "int (length (or_slots r)) \<le> foConcurrency opts + 1"
      using len by (simp add: or_slots_def split: option.split)
    then have "int (length (or_slots r)) * ?ps \<le> (foConcurrency opts + 1) * ?ps"
      using ps by (intro mult_right_mono) simp_all
    then show ?thesis using slots True by (simp add: or_buffered_def)
  next
    case False
    then have "length (or_slots r) = length (orQueue r)" "int (length (orCur r)) \<le> ?ps"
      using b by (simp_all add: or_bounds_def or_slots_def)
    moreover have "int (length (orQueue r)) * ?ps \<le> foConcurrency opts * ?ps"
      using len ps by (intro mult_right_mono) simp_all
    ultimately show ?thesis using slots by (simp add: or_buffered_def algebra_simps)
  qed
qed

section \<open>Progress\<close>

text \<open>
  While the reader lives, the semaphore counts the running fetches, and a slot waits for its
  fetch only while the producer waits for the semaphore, or the context has ended.
\<close>

definition n_running :: "slot list \<Rightarrow> nat" where
  "n_running xs = length (filter slot_running xs)"

definition n_waiting :: "slot list \<Rightarrow> nat" where
  "n_waiting xs = length (filter slot_waiting xs)"

lemma n_simps [simp]:
  "n_running [] = 0" "n_waiting [] = 0"
  "n_running (x # xs) = (if slot_running x then 1 else 0) + n_running xs"
  "n_waiting (x # xs) = (if slot_waiting x then 1 else 0) + n_waiting xs"
  "n_running (xs @ ys) = n_running xs + n_running ys"
  "n_waiting (xs @ ys) = n_waiting xs + n_waiting ys"
  by (simp_all add: n_running_def n_waiting_def)

lemma n_start [simp]:
  "n_running (map slot_start xs) = n_running xs + n_waiting xs" "n_waiting (map slot_start xs) = 0"
proof -
  show "n_running (map slot_start xs) = n_running xs + n_waiting xs"
  proof (induction xs)
    case (Cons x xs)
    then show ?case by (cases x) simp_all
  qed simp
  show "n_waiting (map slot_start xs) = 0" by (induction xs) simp_all
qed

lemma n_update:
  assumes "i < length xs" and "slot_running (xs ! i)" and "\<not> slot_running y" "\<not> slot_waiting y"
  shows "Suc (n_running (xs[i := y])) = n_running xs" and "n_waiting (xs[i := y]) = n_waiting xs"
proof -
  have nw: "\<not> slot_waiting (xs ! i)" using assms(2) by (cases "xs ! i") simp_all
  note split = id_take_nth_drop [OF assms(1)] upd_conv_take_nth_drop [OF assms(1)]
  have "n_running xs = n_running (take i xs) + Suc (n_running (drop (Suc i) xs))"
    by (subst split(1)) (simp add: assms(2))
  then show "Suc (n_running (xs[i := y])) = n_running xs" using assms(3) by (simp add: split(2))
  have "n_waiting xs = n_waiting (take i xs) + n_waiting (drop (Suc i) xs)"
    by (subst split(1)) (simp add: nw)
  then show "n_waiting (xs[i := y]) = n_waiting xs" using assms(4) by (simp add: split(2))
qed

definition or_flow :: "'s orderedReader \<Rightarrow> bool" where
  "or_flow r \<longleftrightarrow> orEnd r = None \<longrightarrow> orFell r = None \<longrightarrow>
     orRunning r = int (n_running (or_slots r))
     \<and> (case orProd r of PSend \<Rightarrow> n_waiting (or_slots r) = 0 | PSem \<Rightarrow> n_waiting (or_slots r) = 1
        | PClosed \<Rightarrow> n_waiting (or_slots r) = 0 \<or> rctxErr r \<noteq> None)"

lemma or_flow_ended: "orEnd r \<noteq> None \<or> orFell r \<noteq> None \<Longrightarrow> or_flow r"
  by (auto simp: or_flow_def)

lemma or_failed_sel:
  "orEnd (or_failed B c k e r) \<noteq> None \<or> orFell (or_failed B c k e r) \<noteq> None"
  "orClosed (or_failed B c k e r) = orClosed r" "orParent (or_failed B c k e r) = orParent r"
  by (auto simp: or_failed_def split: option.splits sum.splits prod.splits)

text \<open>A step that leaves the producer alone, and what it may do to the slots.\<close>

lemma or_flow_slots:
  assumes "or_flow r" and "orEnd r' = None \<Longrightarrow> orEnd r = None" "orFell r' = None \<Longrightarrow> orFell r = None"
    and "orProd r' = orProd r" and "orRunning r' = int (n_running (or_slots r')) + orRunning r - int (n_running (or_slots r))"
    and "n_waiting (or_slots r') = n_waiting (or_slots r)" and "rctxErr r \<noteq> None \<Longrightarrow> rctxErr r' \<noteq> None"
  shows "or_flow r'"
  using assms by (cases "orProd r") (auto simp: or_flow_def)

lemma or_step_flow:
  assumes "or_step B c k sz opts r r'" and flow: "or_flow r"
  shows "or_flow r'"
  using assms(1)
proof cases
  case Send
  then have "or_slots r' = or_slots r @ [SWait (orOff r) (min (foPartSize opts) (sz - orOff r))]"
    by (simp add: or_slots_def or_send_def)
  then show ?thesis using flow Send by (auto simp: or_flow_def or_send_def)
next
  case Start
  then have "or_slots r' = map slot_start (or_slots r)"
    by (simp add: or_slots_def or_start_def split: option.split)
  then show ?thesis using flow Start by (auto simp: or_flow_def or_start_def)
next
  case Quit
  then show ?thesis using flow by (auto simp: or_flow_def)
next
  case Finish
  then show ?thesis using flow by (auto simp: or_flow_def)
next
  case (FillQueued i off ln res s1)
  obtain j where j: "j < length (or_slots r)" "or_slots r ! j = SRun off ln"
      "\<And>y n s. or_slots (r\<lparr>orQueue := (orQueue r)[i := y], orRunning := n, orS := s\<rparr>) = (or_slots r)[j := y]"
    using or_slots_queue [OF FillQueued(2)] FillQueued(3) by auto
  have "slot_running (or_slots r ! j)" using j(2) by simp
  note n = n_update [OF j(1) this, of "SReady off ln res"]
  have sl: "or_slots r' = (or_slots r)[j := SReady off ln res]" using j(3) FillQueued(1) by simp
  show ?thesis
    by (rule or_flow_slots [OF flow]) (use n in \<open>simp_all add: sl, simp_all add: FillQueued(1)\<close>)
next
  case (FillPopped off ln res s1)
  then have "or_slots r = SRun off ln # orQueue r" "or_slots r' = SReady off ln res # orQueue r"
    by (simp_all add: or_slots_def)
  then show ?thesis
    by (intro or_flow_slots [OF flow]) (simp_all add: FillPopped(1))
next
  case (Pop x xs)
  then have "or_slots r' = or_slots r" by (simp add: or_slots_def)
  then show ?thesis by (intro or_flow_slots [OF flow]) (simp_all add: Pop(1))
next
  case Eof
  then show ?thesis by (intro or_flow_ended) simp
next
  case CtxDone
  then show ?thesis by (intro or_flow_ended) simp
next
  case (Take off ln buf)
  then have "or_slots r = SReady off ln (Inr buf) # or_slots r'" by (simp add: or_slots_def)
  then show ?thesis by (intro or_flow_slots [OF flow]) (simp_all add: Take(1))
next
  case Failed
  then show ?thesis
    by (intro or_flow_ended) (use or_failed_sel(1) in blast)
next
  case (Deliver n)
  then show ?thesis by (intro or_flow_slots [OF flow]) (simp_all add: or_deliver_def)
next
  case (FellRead b m)
  then show ?thesis
    by (intro or_flow_ended) (simp add: or_fellRead_def split: prod.split)
next
  case Close
  then show ?thesis
    using flow by (auto simp: or_close_def or_flow_def rctxErr_def split: producer.splits option.splits)
next
  case (Parent ce)
  then show ?thesis by (intro or_flow_slots [OF flow]) simp_all
qed

lemma or_steps_flow: "(or_step B c k sz opts)\<^sup>*\<^sup>* (or_init p s) r \<Longrightarrow> or_flow r"
proof (induction rule: rtranclp_induct)
  case base
  show ?case by (simp add: or_flow_def or_init_def or_slots_def)
next
  case (step y z)
  then show ?case using or_step_flow by blast
qed

text \<open>
  A reader whose Read call is under way has a step of its own, its fetches' or its producer's,
  that changes it.
\<close>

definition or_moves :: "('s, body) bucket \<Rightarrow> ctx \<Rightarrow> string \<Rightarrow> int \<Rightarrow> fetchOpts \<Rightarrow> 's orderedReader \<Rightarrow> bool" where
  "or_moves B c k sz opts r \<longleftrightarrow>
     (\<exists>r'. or_step B c k sz opts r r' \<and> orClosed r' = orClosed r \<and> orParent r' = orParent r \<and> r' \<noteq> r)"

lemma or_movesI:
  assumes "or_step B c k sz opts r r'" and "orClosed r' = orClosed r" "orParent r' = orParent r"
    and "orProd r' \<noteq> orProd r \<or> orPopped r' \<noteq> orPopped r \<or> orEnd r' \<noteq> orEnd r \<or> orFell r' \<noteq> orFell r
      \<or> orRunning r' \<noteq> orRunning r \<or> orCur r' \<noteq> orCur r"
  shows "or_moves B c k sz opts r"
  using assms unfolding or_moves_def by metis

lemma moves_producer:
  assumes "orProd r = PSend \<or> orProd r = PSem \<and> orRunning r < foConcurrency opts"
    and "int (length (orQueue r)) < foConcurrency opts \<or> orProd r = PSem"
  shows "or_moves B c k sz opts r"
proof (cases "orProd r = PSem")
  case True
  then have "or_step B c k sz opts r (or_start opts r)" using assms by (intro Start) simp_all
  then show ?thesis by (rule or_movesI) (use True in \<open>simp_all add: or_start_def\<close>)
next
  case False
  then have send: "orProd r = PSend" "int (length (orQueue r)) < foConcurrency opts" using assms by auto
  show ?thesis
  proof (cases "orOff r < sz")
    case True
    have "or_step B c k sz opts r (or_send sz opts r)" by (rule Send [OF send(1) True send(2)])
    then show ?thesis by (rule or_movesI) (use send in \<open>simp_all add: or_send_def\<close>)
  next
    case False
    have "or_step B c k sz opts r (r\<lparr>orProd := PClosed\<rparr>)" by (rule Finish [OF send(1) False])
    then show ?thesis by (rule or_movesI) (use send in simp_all)
  qed
qed

text \<open>Some fetch runs: it can finish, whether its slot is popped or queued.\<close>

lemma moves_running:
  assumes "0 < n_running (or_slots r)"
  shows "or_moves B c k sz opts r"
proof -
  have n: "0 < n_running (orQueue r) \<or> (\<exists>off ln. orPopped r = Some (SRun off ln))"
    using assms by (auto simp: or_slots_def split: option.splits if_splits elim: slot_running.elims)
  show ?thesis
  proof (cases "0 < n_running (orQueue r)")
    case True
    then obtain i where i: "i < length (orQueue r)" "slot_running (orQueue r ! i)"
      by (auto simp: n_running_def filter_empty_conv in_set_conv_nth)
    then obtain off ln where run: "orQueue r ! i = SRun off ln" by (cases "orQueue r ! i") simp_all
    obtain res s1 where f: "fetchPart B (c\<lparr>ctxErr := rctxErr r\<rparr>) k off ln (orS r) = (res, s1)" by fastforce
    show ?thesis by (rule or_movesI [OF FillQueued [OF i(1) run f]]) simp_all
  next
    case False
    then obtain off ln where run: "orPopped r = Some (SRun off ln)" using n by auto
    obtain res s1 where f: "fetchPart B (c\<lparr>ctxErr := rctxErr r\<rparr>) k off ln (orS r) = (res, s1)" by fastforce
    show ?thesis by (rule or_movesI [OF FillPopped [OF run f]]) simp_all
  qed
qed

text \<open>The popped slot is waiting for the semaphore: the producer takes it, or a fetch frees it.\<close>

lemma moves_waiting:
  assumes flow: "or_flow r" and rd: "or_reading r" and cur: "orCur r = []" and conc: "0 < foConcurrency opts"
    and pop: "orPopped r = Some (SWait off ln)"
  shows "or_moves B c k sz opts r"
proof (cases "rctxErr r")
  case (Some ce)
  show ?thesis
    by (rule or_movesI [OF CtxDone [OF rd cur pop Some]]) (use rd in \<open>simp_all add: or_reading_def\<close>)
next
  case None
  have live: "orEnd r = None" "orFell r = None" using rd by (simp_all add: or_reading_def)
  have "n_waiting (or_slots r) \<noteq> 0" using pop by (simp add: or_slots_def)
  then have sem: "orProd r = PSem"
    using flow live None by (cases "orProd r") (auto simp: or_flow_def)
  show ?thesis
  proof (cases "orRunning r < foConcurrency opts")
    case True
    then show ?thesis using sem by (intro moves_producer) simp_all
  next
    case False
    then show ?thesis using flow live conc by (intro moves_running) (auto simp: or_flow_def)
  qed
qed

lemma moves_popped:
  assumes flow: "or_flow r" and rd: "or_reading r" and cur: "orCur r = []" and conc: "0 < foConcurrency opts"
    and pop: "orPopped r = Some x"
  shows "or_moves B c k sz opts r"
proof (cases x)
  case (SWait off ln)
  then show ?thesis using moves_waiting [OF flow rd cur conc] pop by simp
next
  case (SRun off ln)
  then show ?thesis using pop by (intro moves_running) (simp add: or_slots_def)
next
  case (SReady off ln res)
  show ?thesis
  proof (cases res)
    case (Inr buf)
    then have "orPopped r = Some (SReady off ln (Inr buf))" using pop SReady by simp
    from or_movesI [OF Take [OF rd cur this]] show ?thesis using pop by simp
  next
    case (Inl e)
    then have "orPopped r = Some (SReady off ln (Inl e))" using pop SReady by simp
    from or_movesI [OF Failed [OF rd cur this]] show ?thesis
      using rd or_failed_sel [of B c k e "r\<lparr>orPopped := None\<rparr>"] by (auto simp: or_reading_def)
  qed
qed

lemma moves_empty:
  assumes flow: "or_flow r" and rd: "or_reading r" and cur: "orCur r = []" and conc: "0 < foConcurrency opts"
    and pop: "orPopped r = None"
  shows "or_moves B c k sz opts r"
proof (cases "orQueue r")
  case (Cons x xs)
  show ?thesis by (rule or_movesI [OF Pop [OF rd cur pop Cons]]) (simp_all add: pop)
next
  case Nil
  have live: "orEnd r = None" "orFell r = None" using rd by (simp_all add: or_reading_def)
  show ?thesis
  proof (cases "orProd r")
    case PSend
    then show ?thesis using Nil conc by (intro moves_producer) simp_all
  next
    case PSem
    then show ?thesis
      using flow live Nil pop conc by (intro moves_producer) (simp_all add: or_flow_def or_slots_def)
  next
    case PClosed
    show ?thesis by (rule or_movesI [OF Eof [OF rd cur pop Nil PClosed]]) (simp_all add: live)
  qed
qed

lemma or_progress:
  assumes flow: "or_flow r" and rd: "or_reading r" and conc: "0 < foConcurrency opts"
  shows "or_moves B c k sz opts r"
proof (cases "orCur r = []")
  case True
  then show ?thesis
    using moves_popped [OF flow rd True conc] moves_empty [OF flow rd True conc]
    by (cases "orPopped r") simp_all
next
  case False
  have "orCur (or_deliver 1 r) \<noteq> orCur r" using False by (cases "orCur r") (simp_all add: or_deliver_def)
  then show ?thesis
    by (intro or_movesI [OF Deliver [OF rd False, where n = 1]]) (simp_all add: or_deliver_def)
qed

section \<open>Termination\<close>

text \<open>
  What is left to do: the part of the object the producer has not reached, the slots by their
  length and stage, the buffer, and whether the reader has ended or fallen back.
\<close>

fun slot_work :: "slot \<Rightarrow> nat" where
  "slot_work (SWait off ln) = nat ln + 3"
| "slot_work (SRun off ln) = nat ln + 2"
| "slot_work (SReady off ln res) = nat ln + 1"

fun or_unsent :: "int \<Rightarrow> int \<Rightarrow> producer \<Rightarrow> int \<Rightarrow> nat" where
  "or_unsent sz ps PSend off = 7 * nat (sz - off) + 1"
| "or_unsent sz ps PSem off = 7 * nat (sz - off - ps) + 2"
| "or_unsent sz ps PClosed off = 0"

definition or_measure :: "int \<Rightarrow> int \<Rightarrow> 's orderedReader \<Rightarrow> nat" where
  "or_measure sz ps r = or_unsent sz ps (orProd r) (orOff r) + sum_list (map (\<lambda>x. slot_work x + 1) (orQueue r))
     + (case orPopped r of None \<Rightarrow> 0 | Some x \<Rightarrow> slot_work x) + length (orCur r)
     + (if orEnd r = None then 1 else 0) + (if orFell r = None then 1 else 0)"

lemma slot_work_start: "slot_work (slot_start x) \<le> slot_work x"
  by (cases x) simp_all

lemma slots_work_start:
  "sum_list (map (\<lambda>x. slot_work x + 1) (map slot_start xs)) \<le> sum_list (map (\<lambda>x. slot_work x + 1) xs)"
  by (induction xs) (auto intro: add_mono slot_work_start)

lemma or_failed_measure:
  assumes "orEnd r = None" and "orFell r = None"
  shows "or_measure sz ps (or_failed B c k e r) < or_measure sz ps r"
  using assms
  by (auto simp: or_failed_def or_measure_def
      split: option.splits sum.splits prod.splits)

lemma or_measure_pop: "orPopped r = Some x \<Longrightarrow> or_measure sz ps (r\<lparr>orPopped := None\<rparr>) \<le> or_measure sz ps r"
  by (simp add: or_measure_def)

lemma or_deliver_less:
  assumes inv: "or_inv v opts r" and rd: "or_reading r" and sz: "int (length v) < 2 ^ 62"
    and ne: "or_deliver n r \<noteq> r"
  shows "or_measure z ps (or_deliver n r) < or_measure z ps r"
proof -
  have "take n (orCur r) \<noteq> []"
  proof
    assume t: "take n (orCur r) = []"
    have "or_line v (foPartSize opts) r" using inv rd by (simp add: or_inv_def or_reading_def)
    then have "prefix (orOut r @ orCur r) v" "orConsumed r = int (length (orOut r))"
      by (simp_all add: or_line_def)
    then have "is_i64 (orConsumed r)" using sz prefix_length_le by (fastforce simp: is_i64_def)
    then have "or_deliver n r = r" using t by (auto simp: or_deliver_def)
    then show False using ne by simp
  qed
  then have "length (drop n (orCur r)) < length (orCur r)" by (cases n; cases "orCur r") auto
  then show ?thesis by (simp add: or_measure_def or_deliver_def)
qed

lemma or_step_decreases:
  assumes st: "or_step B c k (int (length v)) opts r r'" and inv: "or_inv v opts r"
    and sz: "int (length v) < 2 ^ 62" and ps: "0 < foPartSize opts" "foPartSize opts < 2 ^ 62"
    and own: "orClosed r' = orClosed r" "orParent r' = orParent r" "r' \<noteq> r" "orFell r = None"
  shows "or_measure (int (length v)) (foPartSize opts) r' < or_measure (int (length v)) (foPartSize opts) r"
proof -
  have b: "or_bounds v opts r" using inv by (simp add: or_inv_def)
  from st show ?thesis
  proof cases
    case Send
    have "0 \<le> orOff r" using b by (simp add: or_bounds_def)
    then show ?thesis
      using Send ps by (auto simp: or_measure_def or_send_def min_def)
  next
    case Start
    have off: "0 \<le> orOff r" "orOff r < int (length v)" using b Start by (auto simp: or_bounds_def)
    then have "is_i64 (orOff r + foPartSize opts)" using ps sz by (simp add: is_i64_def)
    then have w: "wrap64 (orOff r + foPartSize opts) = orOff r + foPartSize opts" by (rule wrap64_id)
    have "(case orPopped r' of None \<Rightarrow> 0 | Some x \<Rightarrow> slot_work x)
        \<le> (case orPopped r of None \<Rightarrow> 0 | Some x \<Rightarrow> slot_work x)"
      using Start by (auto simp: or_start_def slot_work_start split: option.split)
    then show ?thesis
      using Start slots_work_start [of "orQueue r"] w
      by (simp add: or_measure_def or_start_def algebra_simps)
  next
    case Quit
    then show ?thesis by (auto simp: or_measure_def)
  next
    case Finish
    then show ?thesis by (auto simp: or_measure_def)
  next
    case (FillQueued i off ln res s1)
    have "slot_work (SReady off ln res) + 1 < slot_work (orQueue r ! i) + 1" using FillQueued by simp
    from sum_list_update_less [where f = "\<lambda>x. slot_work x + 1", OF FillQueued(2) this]
    show ?thesis by (simp add: or_measure_def FillQueued(1))
  next
    case FillPopped
    then show ?thesis by (simp add: or_measure_def)
  next
    case Pop
    then show ?thesis by (simp add: or_measure_def)
  next
    case Eof
    then show ?thesis by (simp add: or_measure_def or_reading_def)
  next
    case CtxDone
    then show ?thesis by (simp add: or_measure_def or_reading_def)
  next
    case (Take off ln buf)
    have "slot_ok v (foPartSize opts) (SReady off ln (Inr buf))"
      using b Take by (simp add: or_bounds_def or_slots_def)
    from slot_ready_length(1) [OF this ps(1)] show ?thesis
      using Take by (simp add: or_measure_def)
  next
    case (Failed off ln e)
    have "or_measure (int (length v)) (foPartSize opts) r'
        < or_measure (int (length v)) (foPartSize opts) (r\<lparr>orPopped := None\<rparr>)"
      unfolding Failed(1) by (rule or_failed_measure) (use Failed in \<open>simp_all add: or_reading_def\<close>)
    then show ?thesis using or_measure_pop [OF Failed(4)] less_le_trans by blast
  next
    case (Deliver n)
    then show ?thesis using or_deliver_less [OF inv _ sz] own(3) by blast
  next
    case FellRead
    then show ?thesis using own(4) by simp
  next
    case Close
    then show ?thesis using own(1,3) by (auto simp: or_close_def split: if_splits)
  next
    case (Parent ce)
    then show ?thesis using own(2) by simp
  qed
qed


end
