(* ===== verification/FetchReaderCorrect.thy ===== *)
theory FetchReaderCorrect
  imports FetchReaderProps FetchCorrect
begin

text \<open>
  Streaming downloads as properties: what the ordered reader delivers, what it buffers, that a
  Read always returns, and the clean end of file that a cancelled download ends with.
\<close>

lemma fs_getRange_not_eof: "fst (fs_getRange root c k off len s) \<noteq> Inl EEOF"
  by (auto simp: fs_getRange_def keyPath_def Let_def split: option.splits sum.splits prod.splits if_splits)

lemma fs_get_not_eof: "fst (fs_get root c k s) \<noteq> Inl EEOF"
  by (auto simp: fs_get_def keyPath_def Let_def split: option.splits sum.splits prod.splits if_splits)

interpretation fsp: part_reader "fs_bucket root" "fs_inv root K" K "fs_objs root K" maxKeys fs_rng
  for root K
proof (unfold_locales, goal_cases)
  case (1 s k c off len s')
  then show ?case using fs_getRange_not_eof [of root c k off len s] by (auto simp: fs_bucket_def)
next
  case (2 s k c s')
  then show ?case using fs_get_not_eof [of root c k s] by (auto simp: fs_bucket_def)
qed

interpretation flp: part_reader "flaky v" "\<lambda>s. True" "{''k''}" "\<lambda>s. [''k'' \<mapsto> (v, ''t'')]" 1
    "\<lambda>sz off len. True"
  for v
  by unfold_locales (auto simp: flaky_def split: option.splits)

context part_reader
begin

lemma fetchReader_delivers:
  assumes "fetchReader B c k opts s = (Inr (f, info), s1)"
    and "inv s" and "k \<in> K" and "objs s k = Some (v, e)" and sz: "int (length v) < 2 ^ 62"
    and opts: "0 < foPartSize (fetchDefaults opts)" "foPartSize (fetchDefaults opts) < 2 ^ 62"
      "0 \<le> foConcurrency (fetchDefaults opts)"
  shows "oSize info = int (length v)" and "f = Plain b \<Longrightarrow> plain_end b \<and> delivers (copy_all b) v"
    and "f = Ordered r0 \<Longrightarrow> (or_step B c k (int (length v)) (fetchDefaults opts))\<^sup>*\<^sup>* r0 r
      \<Longrightarrow> or_inv v (fetchDefaults opts) r \<and> or_flow r"
proof -
  obtain si s0 where st: "bStat B c k s = (si, s0)" by fastforce
  note so = stat_ok [OF assms(2,3) st]
  have i: "si = Inr info" using assms(1) st by (auto simp: fetchReader_def split: sum.splits prod.splits if_splits)
  have inv0: "inv s0" "objs s0 = objs s" and size: "oSize info = int (length v)"
    using so i assms(4) by (auto simp: ostat_spec_def oinfo_ok_def)
  show "oSize info = int (length v)" by (rule size)
  show "plain_end b \<and> delivers (copy_all b) v" if "f = Plain b"
  proof -
    obtain gr s2 where gr: "bGet B c k s0 = (gr, s2)" by fastforce
    have "\<exists>t. gr = Inr (b, t)"
      using assms(1) st i that gr by (auto simp: fetchReader_def split: sum.splits if_splits)
    then obtain t where g: "bGet B c k s0 = (Inr (b, t), s2)" using gr by blast
    show ?thesis
      using get_ok [OF inv0(1) assms(3) g] get_plain [OF inv0(1) assms(3) g] inv0(2) assms(4)
      by (auto simp: oget_spec_def)
  qed
  assume "f = Ordered r0" and run: "(or_step B c k (int (length v)) (fetchDefaults opts))\<^sup>*\<^sup>* r0 r"
  then have r0: "r0 = or_init (ctxErr c) s0"
    using assms(1) st i by (auto simp: fetchReader_def split: sum.splits prod.splits if_splits)
  have "objs s0 k = Some (v, e)" using inv0(2) assms(4) by simp
  from or_steps_inv [OF run [unfolded r0] inv0(1) assms(3) this sz opts]
    or_steps_flow [OF run [unfolded r0]]
  show "or_inv v (fetchDefaults opts) r \<and> or_flow r" by simp
qed

end

section \<open>What a streaming download delivers\<close>

text \<open>
  C33. A streaming download is the object: over any bucket that keeps the contract, whatever the
  faults, the interleaving of the producer, the part goroutines and the reads, and the point at
  which the parts fail and a single stream takes over, the bytes the caller has received are a
  prefix of the object, and when the reader reports the end of file it has delivered all of it,
  unless the caller's context ended.
\<close>

theorem reader_delivers_object:
  assumes "part_reader B sinv K objs page rng"
    and "fetchReader B c k opts s = (Inr (f, info), s1)"
    and "sinv s" and "k \<in> K" and "objs s k = Some (v, e)" and "int (length v) < 2 ^ 62"
    and "0 < foPartSize (fetchDefaults opts)" and "foPartSize (fetchDefaults opts) < 2 ^ 62"
    and "0 \<le> foConcurrency (fetchDefaults opts)"
  shows "case f of
      Plain b \<Rightarrow> delivers (copy_all b) v
    | Ordered r0 \<Rightarrow> \<forall>r. (or_step B c k (oSize info) (fetchDefaults opts))\<^sup>*\<^sup>* r0 r \<longrightarrow>
        prefix (orOut r) v \<and> (orEnd r = Some EEOF \<longrightarrow> orOut r = v \<or> orParent r \<noteq> None)"
proof -
  note fr = part_reader.fetchReader_delivers [OF assms]
  show ?thesis
    using fr(1,2) fr(3) by (cases f) (auto simp: or_inv_def or_stream_def)
qed


text \<open>
  C35. A Read always returns, if the requests of its parts do: whenever a Read call is under way
  on a reader that has neither ended nor fallen back, some step of the reader, of a fetch or of
  the producer is enabled, whatever part failed and whenever the context ended; and each such
  step uses up a measure, so none of them can go on forever.
\<close>

theorem reader_progress:
  assumes "part_reader B sinv K objs page rng"
    and "fetchReader B c k opts s = (Inr (Ordered r0, info), s1)"
    and "sinv s" and "k \<in> K" and "objs s k = Some (v, e)" and "int (length v) < 2 ^ 62"
    and "0 < foPartSize (fetchDefaults opts)" and "foPartSize (fetchDefaults opts) < 2 ^ 62"
    and "0 < foConcurrency (fetchDefaults opts)"
    and "(or_step B c k (oSize info) (fetchDefaults opts))\<^sup>*\<^sup>* r0 r" and "or_reading r"
  shows "(\<exists>r'. or_step B c k (oSize info) (fetchDefaults opts) r r'
      \<and> orClosed r' = orClosed r \<and> orParent r' = orParent r \<and> r' \<noteq> r)
    \<and> (\<forall>r'. or_step B c k (oSize info) (fetchDefaults opts) r r'
      \<and> orClosed r' = orClosed r \<and> orParent r' = orParent r \<and> r' \<noteq> r \<longrightarrow>
        or_measure (oSize info) (foPartSize (fetchDefaults opts)) r'
          < or_measure (oSize info) (foPartSize (fetchDefaults opts)) r)"
proof -
  have "0 \<le> foConcurrency (fetchDefaults opts)" using assms(9) by simp
  note fr = part_reader.fetchReader_delivers [OF assms(1-8) this]
  have inv: "or_inv v (fetchDefaults opts) r" and flow: "or_flow r"
    using fr(3) [OF refl] fr(1) assms(10) by simp_all
  have fell: "orFell r = None" using assms(11) by (simp add: or_reading_def)
  show ?thesis
    using or_progress [OF flow assms(11,9), of B c k "oSize info"]
      or_step_decreases [OF _ inv assms(6-8) _ _ _ fell, where B = B and c = c and k = k] fr(1)
    by (simp add: or_moves_def)
qed

section \<open>A reader in three steps\<close>

definition ex_fetch :: fetchOpts where
  "ex_fetch = \<lparr>foThreshold = 1, foPartSize = 1, foConcurrency = 1\<rparr>"

definition ex_info :: objectInfo where
  "ex_info = \<lparr>oKey = ''k'', oSize = 2, oLastModified = 0, oETag = ''t''\<rparr>"

lemma ex_fetch_defaults [simp]: "fetchDefaults ex_fetch = ex_fetch"
  by (simp add: fetchDefaults_def ex_fetch_def Let_def)

lemma ex_fetch_sel [simp]: "foThreshold ex_fetch = 1" "foPartSize ex_fetch = 1" "foConcurrency ex_fetch = 1"
  by (simp_all add: ex_fetch_def)

lemma ex_reader:
  "fetchReader (flaky [1, 2]) ctx_background ''k'' ex_fetch [] = (Inr (Ordered (or_init None []), ex_info), [])"
  by (simp add: fetchReader_def flaky_def ctx_background_def ex_info_def)

text \<open>The first part fetched and delivered, the second not sent.\<close>

definition ex_after_one :: "nat list orderedReader" where
  "ex_after_one = \<lparr>orOff = 1, orProd = PSend, orQueue = [], orRunning = 0, orPopped = None,
     orCur = [], orConsumed = 1, orFell = None, orParent = None, orCancel = False, orClosed = False,
     orOut = [1], orEnd = None, orS = []\<rparr>"

lemma ex_part:
  "fetchPart (flaky [1, 2]) (ctx_background\<lparr>ctxErr := None\<rparr>) ''k'' 0 1 [] = (Inr [1], [])"
  by (simp add: fetchPart_def flaky_def ctx_background_def cut_body_def readFull_def range_of_def
      range_start_def Let_def)

lemma ex_one_delivered:
  "(or_step (flaky [1, 2]) ctx_background ''k'' 2 ex_fetch)\<^sup>*\<^sup>* (or_init None []) ex_after_one"
proof -
  let ?st = "or_step (flaky [1, 2]) ctx_background ''k'' 2 ex_fetch"
  define r1 where "r1 = or_send 2 ex_fetch (or_init None ([] :: nat list))"
  define r2 where "r2 = or_start ex_fetch r1"
  define r3 where "r3 = r2\<lparr>orQueue := (orQueue r2)[0 := SReady 0 1 (Inr [1])], orRunning := orRunning r2 - 1, orS := []\<rparr>"
  define r4 where "r4 = r3\<lparr>orPopped := Some (SReady 0 1 (Inr [1])), orQueue := []\<rparr>"
  define r5 where "r5 = r4\<lparr>orPopped := None, orCur := [1]\<rparr>"
  note defs = r1_def r2_def r3_def r4_def r5_def or_send_def or_start_def or_init_def or_reading_def
  have s1: "?st (or_init None []) r1"
    unfolding r1_def by (rule Send) (simp_all add: or_init_def)
  have s2: "?st r1 r2"
    unfolding r2_def by (rule Start) (simp_all add: defs)
  have part: "fetchPart (flaky [1, 2]) (ctx_background\<lparr>ctxErr := rctxErr r2\<rparr>) ''k'' 0 1 (orS r2) = (Inr [1], [])"
    using ex_part by (simp add: rctxErr_def defs)
  have s3: "?st r2 r3"
    unfolding r3_def by (rule FillQueued [OF _ _ part]) (simp_all add: defs)
  have s4: "?st r3 r4"
    unfolding r4_def by (rule Pop) (simp_all add: defs)
  have s5: "?st r4 r5"
    unfolding r5_def by (rule Take) (simp_all add: defs)
  have "or_deliver 1 r5 = ex_after_one"
    by (simp add: or_deliver_def defs ex_after_one_def wrap64_id is_i64_def)
  moreover have "?st r5 (or_deliver 1 r5)"
    by (rule Deliver) (simp_all add: defs)
  ultimately have s6: "?st r5 ex_after_one" by simp
  show ?thesis
    by (rule converse_rtranclp_into_rtranclp, rule s1, rule converse_rtranclp_into_rtranclp, rule s2,
        rule converse_rtranclp_into_rtranclp, rule s3, rule converse_rtranclp_into_rtranclp, rule s4,
        rule converse_rtranclp_into_rtranclp, rule s5, rule r_into_rtranclp, rule s6)
qed

text \<open>
  A cancelled streaming download ends with a clean end of file: the producer stops and closes the
  channel of slots, and the next Read returns the end of file instead of the context's error.
\<close>

lemma reader_cancelled_reports_eof:
  "\<exists>r0 r. fetchReader (flaky [1, 2]) ctx_background ''k'' ex_fetch [] = (Inr (Ordered r0, ex_info), [])
    \<and> (or_step (flaky [1, 2]) ctx_background ''k'' (oSize ex_info) (fetchDefaults ex_fetch))\<^sup>*\<^sup>* r0 r
    \<and> orEnd r = Some EEOF \<and> orOut r = [1] \<and> orParent r = Some Canceled \<and> \<not> orClosed r"
proof -
  let ?st = "or_step (flaky [1, 2]) ctx_background ''k'' 2 ex_fetch"
  define r1 where "r1 = ex_after_one\<lparr>orParent := Some Canceled\<rparr>"
  define r2 where "r2 = r1\<lparr>orProd := PClosed\<rparr>"
  define r3 where "r3 = r2\<lparr>orEnd := Some EEOF\<rparr>"
  note defs = r1_def r2_def r3_def ex_after_one_def or_reading_def rctxErr_def
  have s1: "?st ex_after_one r1"
    unfolding r1_def by (rule Parent) (simp add: ex_after_one_def)
  have s2: "?st r1 r2"
    unfolding r2_def by (rule Quit) (simp_all add: defs)
  have s3: "?st r2 r3"
    unfolding r3_def by (rule Eof) (simp_all add: defs)
  have run: "?st\<^sup>*\<^sup>* (or_init None []) r3"
    by (rule rtranclp.rtrancl_into_rtrancl, rule rtranclp.rtrancl_into_rtrancl,
        rule rtranclp.rtrancl_into_rtrancl, rule ex_one_delivered, rule s1, rule s2, rule s3)
  have "orEnd r3 = Some EEOF" "orOut r3 = [1]" "orParent r3 = Some Canceled" "\<not> orClosed r3"
    by (simp_all add: defs)
  moreover have "oSize ex_info = 2" by (simp add: ex_info_def)
  ultimately show ?thesis
    using ex_reader run by (intro exI [of _ "or_init None []"] exI [of _ r3]) simp
qed

text \<open>
  C36. Cancelled downloads can pass for complete ones, on an object of two bytes. \<open>FetchRangedAt\<close>: the
  caller's context ends before the first part, and the call returns no error although it has written
  nothing. \<open>FetchReader\<close>, in parts of one byte: the context ends after the first byte, and the next Read
  returns the end of file, so a caller that copies the stream takes one byte for the whole object.
\<close>

theorem cancelled_downloads_succeed:
  "(\<exists>d' s'. fetchRangedAt (flaky [1, 2]) ctx_background ''k'' \<lparr>foThreshold = 1, foPartSize = 1, foConcurrency = 2\<rparr>
         \<lparr>dBytes = [], dFaults = []\<rparr> [] (Some ex_info, None) d' s' \<and> dBytes d' = [])
    \<and> (\<exists>r0 r. fetchReader (flaky [1, 2]) ctx_background ''k'' ex_fetch [] = (Inr (Ordered r0, ex_info), [])
        \<and> (or_step (flaky [1, 2]) ctx_background ''k'' (oSize ex_info) (fetchDefaults ex_fetch))\<^sup>*\<^sup>* r0 r
        \<and> orEnd r = Some EEOF \<and> orOut r = [1] \<and> orParent r = Some Canceled \<and> \<not> orClosed r)"
proof (rule conjI)
  show "\<exists>d' s'. fetchRangedAt (flaky [1, 2]) ctx_background ''k'' \<lparr>foThreshold = 1, foPartSize = 1, foConcurrency = 2\<rparr>
         \<lparr>dBytes = [], dFaults = []\<rparr> [] (Some ex_info, None) d' s' \<and> dBytes d' = []"
    using fetch_cancelled_reports_success unfolding ex_info_def by blast
qed (rule reader_cancelled_reports_eof)

section \<open>Witnesses\<close>

lemma ex_object: "[''k'' \<mapsto> ([1, 2 :: byte], ''t'')] ''k'' = Some ([1, 2], ''t'')"
  "int (length [1, 2 :: byte]) < 2 ^ 62" by simp_all

lemma ex_part_reader:
  "part_reader (flaky [1, 2]) (\<lambda>s. True) {''k''} (\<lambda>s. [''k'' \<mapsto> ([1, 2], ''t'')]) 1 (\<lambda>sz off len. True)"
  by (rule flp.part_reader_axioms)

lemma ex_run:
  "(or_step (flaky [1, 2]) ctx_background ''k'' (oSize ex_info) (fetchDefaults ex_fetch))\<^sup>*\<^sup>* (or_init None []) ex_after_one"
  using ex_one_delivered by (simp add: ex_info_def)

theorem reader_delivers_object_witness:
  "prefix (orOut ex_after_one) [1, 2] \<and> orOut ex_after_one \<noteq> []"
  using reader_delivers_object [OF ex_part_reader ex_reader TrueI singletonI ex_object] ex_run by (simp, simp add: ex_after_one_def)


theorem reader_progress_witness:
  "\<exists>r'. or_step (flaky [1, 2]) ctx_background ''k'' 2 ex_fetch ex_after_one r' \<and> r' \<noteq> ex_after_one"
proof -
  have rd: "or_reading ex_after_one" by (simp add: or_reading_def ex_after_one_def)
  note pr = reader_progress [OF ex_part_reader ex_reader TrueI singletonI ex_object _ _ _ ex_run rd]
  have "oSize ex_info = 2" by (simp add: ex_info_def)
  then show ?thesis using conjunct1 [OF pr] by auto
qed


end
