(* ===== verification/Url.thy ===== *)
theory Url
  imports S3 Heal
begin

text \<open>
  url.go: opening a bucket from a URL. Go's package net/url is modelled as far as the code uses
  it: splitting and unescaping a URL, and reading its query (bracketed hosts are accepted but
  their zone identifiers are not examined). The SDK's configuration loading stays a parameter,
  as in S3.thy; the process environment is a function.
\<close>

section \<open>Escapes\<close>

definition unhex :: "char \<Rightarrow> nat option" where
  "unhex c =
     (let n = of_char c :: nat
      in if 48 \<le> n \<and> n \<le> 57 then Some (n - 48)
         else if 97 \<le> n \<and> n \<le> 102 then Some (n - 87)
         else if 65 \<le> n \<and> n \<le> 70 then Some (n - 55)
         else None)"

text \<open>\<open>url.QueryUnescape\<close> (with plus as a space) and \<open>url.PathUnescape\<close>.\<close>

fun unescape :: "bool \<Rightarrow> string \<Rightarrow> string option" where
  "unescape qry [] = Some []"
| "unescape qry (c # cs) =
     (if c = CHR ''%'' then
        (case cs of
           h # l # r \<Rightarrow>
             (case (unhex h, unhex l) of
                (Some a, Some b) \<Rightarrow> map_option ((#) (char_of (16 * a + b))) (unescape qry r)
              | _ \<Rightarrow> None)
         | _ \<Rightarrow> None)
      else map_option ((#) (if qry \<and> c = CHR ''+'' then CHR '' '' else c)) (unescape qry cs))"

text \<open>\<open>strings.Cut\<close> at a one-byte separator.\<close>

definition cut :: "char \<Rightarrow> string \<Rightarrow> string \<times> string" where
  "cut sep s = (takeWhile (\<lambda>c. c \<noteq> sep) s, drop 1 (dropWhile (\<lambda>c. c \<noteq> sep) s))"

section \<open>Queries\<close>

text \<open>\<open>url.ParseQuery\<close>: malformed settings are dropped, as \<open>(*URL).Query\<close> does.\<close>

definition parseSetting :: "string \<Rightarrow> (string \<times> string) option" where
  "parseSetting seg =
     (if CHR '';'' \<in> set seg \<or> seg = '''' then None
      else case cut (CHR ''='') seg of (k, v) \<Rightarrow>
        (case (unescape True k, unescape True v) of
           (Some k', Some v') \<Rightarrow> Some (k', v')
         | _ \<Rightarrow> None))"

definition parseQuery :: "string \<Rightarrow> (string \<times> string) list" where
  "parseQuery q = List.map_filter parseSetting (split_on (CHR ''&'') q)"

definition queryGet :: "(string \<times> string) list \<Rightarrow> string \<Rightarrow> string" where
  "queryGet q k = (case List.find (\<lambda>p. fst p = k) q of None \<Rightarrow> '''' | Some p \<Rightarrow> snd p)"

section \<open>URLs\<close>

record url =
  uScheme :: string
  uUser :: "string option"
  uHost :: string
  uPath :: string
  uRawQuery :: string

definition in_range :: "nat \<Rightarrow> nat \<Rightarrow> char \<Rightarrow> bool" where
  "in_range a b c \<longleftrightarrow> a \<le> of_char c \<and> (of_char c :: nat) \<le> b"

definition isAlpha :: "char \<Rightarrow> bool" where
  "isAlpha c \<longleftrightarrow> in_range 97 122 c \<or> in_range 65 90 c"

definition isAlnum :: "char \<Rightarrow> bool" where
  "isAlnum c \<longleftrightarrow> isAlpha c \<or> in_range 48 57 c"

definition toLower :: "char \<Rightarrow> char" where
  "toLower c = (if in_range 65 90 c then char_of (of_char c + 32 :: nat) else c)"

definition isCTL :: "char \<Rightarrow> bool" where
  "isCTL c \<longleftrightarrow> (of_char c :: nat) < 32 \<or> (of_char c :: nat) = 127"

definition getScheme :: "string \<Rightarrow> err + string \<times> string" where
  "getScheme raw =
     (let p = takeWhile (\<lambda>c. isAlnum c \<or> c \<in> set ''+-.'') raw; r = drop (length p) raw
      in if p \<noteq> [] \<and> \<not> isAlpha (hd p) then Inr ('''', raw)
         else (case r of
                 c # rest \<Rightarrow>
                   if c \<noteq> CHR '':'' then Inr ('''', raw)
                   else if p = [] then Inl (EMsg ''missing protocol scheme'')
                   else Inr (p, rest)
               | [] \<Rightarrow> Inr ('''', raw)))"

text \<open>The bytes a host may contain unescaped, and its escapes: bytes above 127, and the percent sign.\<close>

definition host_char :: "char \<Rightarrow> bool" where
  "host_char c \<longleftrightarrow> isAlnum c \<or> c \<in> set ''-_.~!$&()*+,;=:[]<>'' \<or> (of_char c :: nat) \<in> {34, 39}
     \<or> 128 \<le> (of_char c :: nat)"

fun host_escapes :: "string \<Rightarrow> bool" where
  "host_escapes [] = True"
| "host_escapes (c # cs) =
     (if c = CHR ''%'' then
        (case cs of
           h # l # r \<Rightarrow> (case unhex h of None \<Rightarrow> False
                        | Some a \<Rightarrow> (8 \<le> a \<or> [h, l] = ''25'') \<and> host_escapes r)
         | _ \<Rightarrow> False)
      else host_char c \<and> host_escapes cs)"

definition validOptionalPort :: "string \<Rightarrow> bool" where
  "validOptionalPort p \<longleftrightarrow> (case p of [] \<Rightarrow> True | c # ds \<Rightarrow> c = CHR '':'' \<and> list_all (in_range 48 57) ds)"

text \<open>From the last separator on, the separator included; nothing if there is none.\<close>

definition from_last :: "char \<Rightarrow> string \<Rightarrow> string" where
  "from_last sep s =
     (if sep \<in> set s then sep # rev (takeWhile (\<lambda>c. c \<noteq> sep) (rev s)) else [])"

definition parseHost :: "string \<Rightarrow> err + string" where
  "parseHost h =
     (let bracketed = prefix ''['' h;
          port = (if bracketed then drop 1 (from_last (CHR '']'') h) else from_last (CHR '':'') h)
      in if bracketed \<and> CHR '']'' \<notin> set h then Inl (EMsg ''missing ] in host'')
         else if \<not> validOptionalPort port then Inl (EMsg ''invalid port'')
         else if \<not> host_escapes h then Inl (EMsg ''invalid character in host name'')
         else (case unescape False h of None \<Rightarrow> Inl (EMsg ''invalid URL escape'') | Some h' \<Rightarrow> Inr h'))"

definition validUserinfo :: "string \<Rightarrow> bool" where
  "validUserinfo s \<longleftrightarrow> list_all (\<lambda>c. isAlnum c \<or> c \<in> set ''-._:~!$&()*+,;=%@'' \<or> (of_char c :: nat) = 39) s"

definition parseAuthority :: "string \<Rightarrow> err + string option \<times> string" where
  "parseAuthority a =
     (let at = from_last (CHR ''@'') a;
          host = (if at = [] then a else drop 1 at);
          user = take (length a - length at) a
      in case parseHost host of
           Inl e \<Rightarrow> Inl e
         | Inr h \<Rightarrow>
             if at = [] then Inr (None, h)
             else if \<not> validUserinfo user then Inl (EMsg ''invalid userinfo'')
             else (case unescape False user of
                     None \<Rightarrow> Inl (EMsg ''invalid URL escape'')
                   | Some u \<Rightarrow> Inr (Some u, h)))"

text \<open>\<open>url.Parse\<close>; an opaque URL has neither host nor path.\<close>

definition urlParse :: "string \<Rightarrow> err + url" where
  "urlParse raw =
     (case cut (CHR ''#'') raw of (r0, frag) \<Rightarrow>
      if list_ex isCTL r0 \<or> unescape False frag = None then Inl (EMsg ''invalid URL'')
      else case getScheme r0 of
        Inl e \<Rightarrow> Inl e
      | Inr (scheme, rest) \<Rightarrow>
          (case cut (CHR ''?'') rest of (rest, query) \<Rightarrow>
           let base = \<lparr>uScheme = map toLower scheme, uUser = None, uHost = '''', uPath = '''',
                       uRawQuery = query\<rparr>
           in if \<not> prefix ''/'' rest \<and> scheme \<noteq> '''' then Inr base
              else if \<not> prefix ''/'' rest \<and> CHR '':'' \<in> set (fst (cut (CHR ''/'') rest)) then
                Inl (EMsg ''first path segment in URL cannot contain colon'')
              else
                let hier = prefix ''//'' rest \<and> (scheme \<noteq> '''' \<or> \<not> prefix ''///'' rest);
                    auth = (if hier then fst (cut (CHR ''/'') (drop 2 rest)) else '''');
                    path = (if hier then drop (length auth + 2) rest else rest)
                in case (if hier then parseAuthority auth else Inr (None, '''')) of
                     Inl e \<Rightarrow> Inl e
                   | Inr (user, host) \<Rightarrow>
                       (case unescape False path of
                          None \<Rightarrow> Inl (EMsg ''invalid URL escape'')
                        | Some p \<Rightarrow> Inr (base\<lparr>uUser := user, uHost := host, uPath := p\<rparr>))))"

section \<open>Opening\<close>

definition invalid :: "string \<Rightarrow> err" where
  "invalid what = EMsg (''objectstore: invalid '' @ what)"

text \<open>The region: the query's, or the first of the two environment variables that is set.\<close>

definition urlRegion :: "(string \<Rightarrow> string) \<Rightarrow> string \<Rightarrow> string" where
  "urlRegion env r =
     (if r = '''' then
        (if env ''AWS_REGION'' \<noteq> '''' then env ''AWS_REGION'' else env ''AWS_DEFAULT_REGION'')
      else r)"

definition s3ConfigFromURL :: "(string \<Rightarrow> string) \<Rightarrow> url \<Rightarrow> err + s3Config" where
  "s3ConfigFromURL env u =
     (if uUser u \<noteq> None then Inl (EMsg ''objectstore: s3:// URL must not embed credentials'')
      else if uHost u = '''' then Inl (EMsg ''objectstore: s3:// URL missing bucket'')
      else
        let q = parseQuery (uRawQuery u);
            cfg = \<lparr>cfgBucket = uHost u, cfgPrefix = trimPrefix (uPath u) ''/'',
                   cfgRegion = urlRegion env (queryGet q ''region''),
                   cfgEndpointURL = queryGet q ''endpoint'',
                   cfgUsePathStyle = queryGet q ''endpoint'' \<noteq> '''',
                   cfgAccessKey = '''', cfgSecretKey = '''', cfgSessionToken = '''',
                   cfgHTTPClient = None, cfgForceIPv4 = False, cfgClients = 0, cfgMaxAttempts = 0\<rparr>;
            ps = queryGet q ''path-style''; ip = queryGet q ''ip-version'';
            cl = queryGet q ''clients''
        in case (if ps = '''' then Some (cfgUsePathStyle cfg) else parseBool ps) of
             None \<Rightarrow> Inl (invalid ''path-style'')
           | Some style \<Rightarrow>
               if ip \<noteq> '''' \<and> ip \<noteq> ''4'' \<and> ip \<noteq> ''6'' then Inl (invalid ''ip-version'')
               else (case (if cl = '''' then Some 0 else atoi cl) of
                       None \<Rightarrow> Inl (invalid ''clients'')
                     | Some n \<Rightarrow>
                         if cl \<noteq> '''' \<and> n < 1 then Inl (invalid ''clients'')
                         else Inr (cfg\<lparr>cfgUsePathStyle := style, cfgForceIPv4 := ip = ''4'',
                                       cfgClients := n\<rparr>)))"

text \<open>What \<open>Open\<close> returns: a directory, or an S3 backend, healing or not.\<close>

datatype 'c opened = OpenedFS path | OpenedS3 'c s3 | OpenedHealing 'c s3 healOpts

text \<open>\<open>filepath.Abs\<close> of an absolute path without dot-dot segments.\<close>

definition cleanPath :: "string \<Rightarrow> path" where
  "cleanPath p = filter (\<lambda>w. w \<noteq> '''' \<and> w \<noteq> ''.'') (split_on (CHR ''/'') p)"

definition openFileURL :: "url \<Rightarrow> fsys \<Rightarrow> (err + path) \<times> fsys" where
  "openFileURL u s =
     (if uHost u \<noteq> '''' \<and> uHost u \<noteq> ''localhost'' then
        (Inl (EMsg ''objectstore: file:// host must be empty or localhost''), s)
      else if uPath u = '''' then (Inl (EMsg ''objectstore: file:// URL missing path''), s)
      else openFS (cleanPath (uPath u)) s)"

definition zeroHealOpts :: healOpts where
  "zeroHealOpts = \<lparr>hoFloorBps = 0, hoWindow = 0, hoAttempts = 0, hoBackoff = 0\<rparr>"

definition openS3URL where
  "openS3URL env load newFromConfig u =
     (case s3ConfigFromURL env u of
        Inl e \<Rightarrow> Inl e
      | Inr cfg \<Rightarrow>
          (case openS3 load newFromConfig cfg of
             Inl e \<Rightarrow> Inl e
           | Inr (client, a) \<Rightarrow>
               let v = queryGet (parseQuery (uRawQuery u)) ''heal''
               in if v = '''' then Inr (OpenedHealing client a (healDefaults zeroHealOpts))
                  else (case parseBool v of
                          None \<Rightarrow> Inl (invalid ''heal'')
                        | Some True \<Rightarrow> Inr (OpenedHealing client a (healDefaults zeroHealOpts))
                        | Some False \<Rightarrow> Inr (OpenedS3 client a))))"

definition openURL where
  "openURL env load newFromConfig raw s =
     (if raw = '''' then (Inl (EMsg ''objectstore: empty URL''), s)
      else case urlParse raw of
        Inl e \<Rightarrow> (Inl (EWrap ''objectstore: parse'' e), s)
      | Inr u \<Rightarrow>
          if uScheme u = ''file'' then
            (case openFileURL u s of
               (Inl e, s') \<Rightarrow> (Inl e, s')
             | (Inr root, s') \<Rightarrow> (Inr (OpenedFS root), s'))
          else if uScheme u = ''s3'' then (openS3URL env load newFromConfig u, s)
          else (Inl (EMsg ''objectstore: unsupported scheme''), s))"

end
