(* ===== verification/UrlCorrect.thy ===== *)
theory UrlCorrect
  imports Url FSCorrect S3Correct
begin

text \<open>
  Opening by URL as properties: every configuration a URL can express is read back from the URL
  printed for it, what an opened S3 backend looks like, that a URL with credentials is refused,
  that a file URL opens its directory, and two options that the code does not honour.
\<close>

section \<open>Printing queries\<close>

text \<open>\<open>url.QueryEscape\<close>.\<close>

definition hex_upper :: "nat \<Rightarrow> char" where
  "hex_upper n = char_of (if n < 10 then 48 + n else 55 + n)"

definition escapeByte :: "char \<Rightarrow> string" where
  "escapeByte c =
     (if isAlnum c \<or> c \<in> set ''-_.~'' then [c]
      else if c = CHR '' '' then ''+''
      else [CHR ''%'', hex_upper (of_char c div 16), hex_upper (of_char c mod 16)])"

definition queryEscape :: "string \<Rightarrow> string" where
  "queryEscape s = concat (map escapeByte s)"

definition setting :: "string \<times> string \<Rightarrow> string" where
  "setting p = queryEscape (fst p) @ CHR ''='' # queryEscape (snd p)"

definition showQuery :: "(string \<times> string) list \<Rightarrow> string" where
  "showQuery ps = join_with (CHR ''&'') (map setting ps)"

lemma unhex_upper: "n < 16 \<Longrightarrow> unhex (hex_upper n) = Some n"
  by (auto simp: unhex_def hex_upper_def Let_def of_char_of)

lemma char_nibbles: "(char_of (16 * (of_char c div 16) + of_char c mod 16 :: nat) :: char) = c"
  by simp

lemma of_char_lt_256: "(of_char c :: nat) < 256"
  by (rule nat_of_char_less_256)

lemma unescape_escapeByte: "unescape True (escapeByte c @ s) = map_option ((#) c) (unescape True s)"
proof -
  have "(of_char c :: nat) div 16 < 16" using of_char_lt_256 [of c] by (simp add: less_mult_imp_div_less)
  then have h: "unhex (hex_upper (of_char c div 16)) = Some (of_char c div 16)" 
    "unhex (hex_upper (of_char c mod 16)) = Some (of_char c mod 16)"
    by (simp_all add: unhex_upper)
  have "\<not> isAlnum (CHR ''%'')" "\<not> isAlnum (CHR ''+'')" "char_of (37 :: nat) = CHR ''%''" by code_simp+
  then show ?thesis using h by (auto simp: escapeByte_def)
qed

lemma unescape_queryEscape: "unescape True (queryEscape s) = Some s"
  by (induction s) (simp_all add: queryEscape_def unescape_escapeByte)

lemma hex_upper_plain: "n < 16 \<Longrightarrow> hex_upper n \<notin> set ''&=;''"
proof -
  have "list_all (\<lambda>n. hex_upper n \<notin> set ''&=;'') [0..<16]" by code_simp
  then show "n < 16 \<Longrightarrow> hex_upper n \<notin> set ''&=;''" by (simp add: list_all_iff)
qed

lemma escapeByte_plain: "x \<in> set (escapeByte c) \<Longrightarrow> x \<notin> set ''&=;''"
proof -
  have "\<not> isAlnum (CHR ''&'')" "\<not> isAlnum (CHR ''='')" "\<not> isAlnum (CHR '';'')" by code_simp+
  moreover have "(of_char c :: nat) div 16 < 16"
    using of_char_lt_256 [of c] by (simp add: less_mult_imp_div_less)
  ultimately show "x \<in> set (escapeByte c) \<Longrightarrow> x \<notin> set ''&=;''"
    using hex_upper_plain [of "of_char c div 16"] hex_upper_plain [of "of_char c mod 16"]
    by (auto simp: escapeByte_def split: if_splits)
qed

lemma queryEscape_plain:
  "CHR ''&'' \<notin> set (queryEscape s)" "CHR ''='' \<notin> set (queryEscape s)" "CHR '';'' \<notin> set (queryEscape s)"
  using escapeByte_plain by (fastforce simp: queryEscape_def)+

lemma cut_setting: "cut (CHR ''='') (setting p) = (queryEscape (fst p), queryEscape (snd p))"
proof -
  have "\<forall>c \<in> set (queryEscape (fst p)). c \<noteq> CHR ''=''" using queryEscape_plain(2) by blast
  then show ?thesis by (simp add: cut_def setting_def takeWhile_append2 dropWhile_append2)
qed

lemma parseSetting_setting: "parseSetting (setting p) = Some p"
proof -
  have "CHR '';'' \<notin> set (setting p)" using queryEscape_plain(3) by (auto simp: setting_def)
  then show ?thesis
    by (simp add: parseSetting_def cut_setting unescape_queryEscape) (simp add: setting_def)
qed

lemma parseQuery_showQuery: "ps \<noteq> [] \<Longrightarrow> parseQuery (showQuery ps) = ps"
proof -
  assume "ps \<noteq> []"
  then have "split_on (CHR ''&'') (showQuery ps) = map setting ps"
    unfolding showQuery_def using queryEscape_plain(1) by (intro split_join) (auto simp: setting_def)
  moreover have "List.map_filter parseSetting (map setting qs) = qs" for qs
    by (induction qs) (simp_all add: parseSetting_setting)
  ultimately show ?thesis by (simp add: parseQuery_def)
qed

section \<open>The configuration of an S3 URL\<close>

text \<open>
  The URL of a configuration, with every option that is not the default spelled out, and the
  configurations a URL can express.
\<close>

definition urlOfConfig :: "s3Config \<Rightarrow> url" where
  "urlOfConfig cfg = \<lparr>uScheme = ''s3'', uUser = None, uHost = cfgBucket cfg,
     uPath = ''/'' @ cfgPrefix cfg,
     uRawQuery = showQuery
       ([(''region'', cfgRegion cfg), (''endpoint'', cfgEndpointURL cfg),
         (''path-style'', if cfgUsePathStyle cfg then ''true'' else ''false'')]
        @ (if cfgForceIPv4 cfg then [(''ip-version'', ''4'')] else [])
        @ (if cfgClients cfg > 0 then [(''clients'', showInt (cfgClients cfg))] else []))\<rparr>"

definition url_config :: "s3Config \<Rightarrow> bool" where
  "url_config cfg \<longleftrightarrow> cfgBucket cfg \<noteq> '''' \<and> cfgRegion cfg \<noteq> '''' \<and> cfgAccessKey cfg = ''''
     \<and> cfgSecretKey cfg = '''' \<and> cfgSessionToken cfg = '''' \<and> cfgHTTPClient cfg = None
     \<and> 0 \<le> cfgClients cfg \<and> is_i64 (cfgClients cfg) \<and> cfgMaxAttempts cfg = 0"

lemma showInt_pos: "0 < n \<Longrightarrow> showInt n \<noteq> ''''"
  by (simp add: showInt_def)

text \<open>
  C37. Reading back what was printed: for every configuration that a URL can express (any bucket,
  prefix, region, endpoint, addressing style, IP version and number of clients, with arbitrary
  bytes escaped in the query), \<open>s3ConfigFromURL\<close> of its URL is that configuration,
  whatever the environment variables say.
\<close>

theorem url_config_roundtrip:
  assumes "url_config cfg"
  shows "s3ConfigFromURL env (urlOfConfig cfg) = Inr cfg"
proof -
  have pq: "parseQuery (uRawQuery (urlOfConfig cfg))
    = [(''region'', cfgRegion cfg), (''endpoint'', cfgEndpointURL cfg),
         (''path-style'', if cfgUsePathStyle cfg then ''true'' else ''false'')]
        @ (if cfgForceIPv4 cfg then [(''ip-version'', ''4'')] else [])
        @ (if cfgClients cfg > 0 then [(''clients'', showInt (cfgClients cfg))] else [])"
    by (simp only: urlOfConfig_def url.select_convs) (rule parseQuery_showQuery, simp)
  have sel: "uUser (urlOfConfig cfg) = None" "uHost (urlOfConfig cfg) = cfgBucket cfg"
    "trimPrefix (uPath (urlOfConfig cfg)) ''/'' = cfgPrefix cfg"
    by (simp_all add: urlOfConfig_def trimPrefix_def)
  have cl: "cfgClients cfg > 0 \<or> cfgClients cfg = 0" "is_i64 (cfgClients cfg)"
    using assms by (auto simp: url_config_def)
  have style: "parseBool (if cfgUsePathStyle cfg then ''true'' else ''false'') = Some (cfgUsePathStyle cfg)"
    "(if cfgUsePathStyle cfg then ''true'' else ''false'') \<noteq> ''''"
    by (auto simp: parseBool_def)
  show ?thesis
    unfolding s3ConfigFromURL_def pq sel
    using assms cl style atoi_showInt [OF cl(2)] showInt_pos [of "cfgClients cfg"]
    by (cases cfg) (auto simp: url_config_def urlRegion_def queryGet_def Let_def)
qed

definition ex_config :: s3Config where
  "ex_config = \<lparr>cfgBucket = ''b'', cfgPrefix = ''p/q'', cfgRegion = ''eu west'', cfgEndpointURL = ''https://x?&'',
     cfgUsePathStyle = False, cfgAccessKey = '''', cfgSecretKey = '''', cfgSessionToken = '''',
     cfgHTTPClient = None, cfgForceIPv4 = True, cfgClients = 12, cfgMaxAttempts = 0\<rparr>"

theorem url_config_roundtrip_witness:
  "s3ConfigFromURL (\<lambda>v. ''us'') (urlOfConfig ex_config) = Inr ex_config"
  by (rule url_config_roundtrip) (simp add: url_config_def ex_config_def is_i64_def)

text \<open>
  What opens from an S3 URL: if \<open>openS3URL\<close> succeeds, the URL carried no credentials and
  named a bucket; the backend serves that bucket under the URL's path, which is empty or ends
  with a slash; and it heals its reads with the default options unless the query says
  heal=false in one of the spellings of \<open>strconv.ParseBool\<close>.
\<close>

theorem open_s3_result:
  assumes "openS3URL env load newFromConfig u = Inr opened"
  shows "uUser u = None \<and> uHost u \<noteq> '''' \<and> (\<exists>client a.
      s3Bucket a = uHost u
    \<and> s3Prefix a = (if trimPrefix (uPath u) ''/'' = '''' then '''' else normPrefix (trimPrefix (uPath u) ''/''))
    \<and> (opened = OpenedHealing client a \<lparr>hoFloorBps = 102400, hoWindow = 10000000000, hoAttempts = 6,
                                         hoBackoff = 100000000\<rparr>
         \<and> parseBool (queryGet (parseQuery (uRawQuery u)) ''heal'') \<noteq> Some False
       \<or> opened = OpenedS3 client a \<and> parseBool (queryGet (parseQuery (uRawQuery u)) ''heal'') = Some False))"
proof -
  obtain cfg where cfg: "s3ConfigFromURL env u = Inr cfg"
    using assms by (auto simp: openS3URL_def split: sum.splits)
  have c: "uUser u = None" "uHost u \<noteq> ''''" "cfgBucket cfg = uHost u"
    "cfgPrefix cfg = trimPrefix (uPath u) ''/''"
    using cfg by (auto simp: s3ConfigFromURL_def Let_def split: if_splits option.splits)
  obtain client a where o: "openS3 load newFromConfig cfg = Inr (client, a)"
    using assms cfg by (auto simp: openS3URL_def split: sum.splits)
  have a: "s3Bucket a = uHost u" "s3Prefix a
      = (if trimPrefix (uPath u) ''/'' = '''' then '''' else normPrefix (trimPrefix (uPath u) ''/''))"
    using o c by (auto simp: openS3_def Let_def normPrefix_def split: sum.splits if_splits)
  have h: "healDefaults zeroHealOpts = \<lparr>hoFloorBps = 102400, hoWindow = 10000000000, hoAttempts = 6,
      hoBackoff = 100000000\<rparr>"
    by (simp add: healDefaults_def zeroHealOpts_def Let_def defaultFloorBps_def defaultWindow_def second_def)
  have p: "parseBool '''' = None" by (simp add: parseBool_def)
  show ?thesis
    using assms cfg o c a h p
    by (auto simp: openS3URL_def Let_def split: if_splits option.splits bool.splits
        intro!: exI [of _ client] exI [of _ a])
qed

theorem open_s3_result_witness:
  "(\<exists>client a. s3Bucket a = ''b'' \<and> OpenedS3 () \<lparr>s3Bucket = ''b'', s3Prefix = ''p/''\<rparr> = OpenedS3 client a)
   \<and> openS3URL (\<lambda>v. '''') (\<lambda>os. Inr ()) (\<lambda>aws f. ())
       \<lparr>uScheme = ''s3'', uUser = None, uHost = ''b'', uPath = ''/p'', uRawQuery = ''heal=0''\<rparr>
     = Inr (OpenedS3 () \<lparr>s3Bucket = ''b'', s3Prefix = ''p/''\<rparr>)"
proof -
  have o: "openS3URL (\<lambda>v. '''') (\<lambda>os. Inr ()) (\<lambda>aws f. ())
       \<lparr>uScheme = ''s3'', uUser = None, uHost = ''b'', uPath = ''/p'', uRawQuery = ''heal=0''\<rparr>
     = Inr (OpenedS3 () \<lparr>s3Bucket = ''b'', s3Prefix = ''p/''\<rparr>)"
    by code_simp
  from open_s3_result [OF o] o show ?thesis by auto
qed

text \<open>
  Two documented options that the code does not honour: with an endpoint, path-style=false
  is parsed into the configuration but the client is built with path-style addressing
  regardless; and clients=0, documented as the default, is an error.
\<close>

theorem url_divergences:
  "(case urlParse ''s3://b?path-style=false&endpoint=https://x'' of
      Inr u \<Rightarrow> (case s3ConfigFromURL (\<lambda>v. '''') u of
          Inr cfg \<Rightarrow> \<not> cfgUsePathStyle cfg \<and> optUsePathStyle (s3_options cfg
             \<lparr>optDisableLogChecksum = False, optBaseEndpoint = None, optUsePathStyle = False\<rparr>)
        | _ \<Rightarrow> False)
    | _ \<Rightarrow> False)
   \<and> (case urlParse ''s3://b?clients=0'' of
      Inr u \<Rightarrow> s3ConfigFromURL (\<lambda>v. '''') u = Inl (invalid ''clients'')
    | _ \<Rightarrow> False)"
  by (intro conjI; code_simp)

section \<open>File URLs\<close>

definition plain_segment :: "string \<Rightarrow> bool" where
  "plain_segment w \<longleftrightarrow> w \<noteq> '''' \<and> list_all isAlnum w"

definition filePath :: "string list \<Rightarrow> string" where
  "filePath ws = concat (map (\<lambda>w. CHR ''/'' # w) ws)"

lemma alnum_facts:
  "\<not> isAlnum (CHR ''/'')" "\<not> isAlnum (CHR ''%'')" "\<not> isAlnum (CHR ''#'')" "\<not> isAlnum (CHR ''?'')"
  "\<not> isAlnum (CHR ''.'')" "\<not> isAlnum (CHR '':'')" "\<not> isCTL (CHR ''/'')"
  by code_simp+

lemma alnum_not_CTL: "isAlnum c \<Longrightarrow> \<not> isCTL c"
  by (auto simp: isAlnum_def isAlpha_def in_range_def isCTL_def)

lemma filePath_chars:
  "list_all plain_segment ws \<Longrightarrow> c \<in> set (filePath ws) \<Longrightarrow> isAlnum c \<or> c = CHR ''/''"
  by (auto simp: filePath_def plain_segment_def list_all_iff split: if_splits)

lemma cut_none: "sep \<notin> set s \<Longrightarrow> cut sep s = (s, '''')"
proof -
  assume "sep \<notin> set s"
  then have all: "\<forall>c \<in> set s. c \<noteq> sep" by blast
  then have "dropWhile (\<lambda>c. c \<noteq> sep) s = []" "takeWhile (\<lambda>c. c \<noteq> sep) s = s"
    by (simp_all add: takeWhile_eq_all_conv)
  then show ?thesis by (simp only: cut_def drop_Nil)
qed

lemma unescape_plain: "CHR ''%'' \<notin> set s \<Longrightarrow> unescape False s = Some s"
  by (induction s) auto

lemma split_filePath:
  "list_all plain_segment ws \<Longrightarrow> ws \<noteq> [] \<Longrightarrow> cleanPath (filePath ws) = ws"
proof -
  assume ws: "list_all plain_segment ws" "ws \<noteq> []"
  have "filePath ws = join_with (CHR ''/'') ('''' # ws)"
    using ws(2) by (induction ws) (auto simp: filePath_def join_with_Cons)
  moreover have "split_on (CHR ''/'') (join_with (CHR ''/'') ('''' # ws)) = '''' # ws"
    using ws(1) alnum_facts(1) by (intro split_join) (auto simp: plain_segment_def list_all_iff)
  moreover have "filter (\<lambda>w. w \<noteq> '''' \<and> w \<noteq> ''.'') ws = ws"
    using ws(1) alnum_facts(5) by (auto simp: filter_id_conv plain_segment_def list_all_iff)
  ultimately show ?thesis by (simp add: cleanPath_def)
qed

lemma urlParse_file:
  assumes "list_all plain_segment ws" and "ws \<noteq> []"
  shows "urlParse (''file://'' @ filePath ws)
    = Inr \<lparr>uScheme = ''file'', uUser = None, uHost = '''', uPath = filePath ws, uRawQuery = ''''\<rparr>"
proof -
  let ?p = "filePath ws"
  note ch = filePath_chars [OF assms(1)]
  have no: "CHR ''#'' \<notin> set ?p" "CHR ''?'' \<notin> set ?p" "CHR ''%'' \<notin> set ?p"
    using ch alnum_facts by blast+
  have ctl: "\<not> list_ex isCTL (''file://'' @ ?p)"
  proof -
    have "\<not> list_ex isCTL ''file://''" by code_simp
    moreover have "\<not> list_ex isCTL ?p" using ch alnum_not_CTL alnum_facts(7) by (auto simp: list_ex_iff)
    ultimately show ?thesis by (simp only: list_ex_append simp_thms)
  qed
  have slash: "\<exists>q. ?p = CHR ''/'' # q" using assms(2) by (cases ws) (auto simp: filePath_def)
  have sch: "getScheme (''file://'' @ ?p) = Inr (''file'', ''//'' @ ?p)"
  proof -
    have a: "isAlnum (CHR ''f'')" "isAlnum (CHR ''i'')" "isAlnum (CHR ''l'')" "isAlnum (CHR ''e'')"
      "isAlpha (CHR ''f'')" by code_simp+
    then show ?thesis using alnum_facts(6) by (simp add: getScheme_def Let_def)
  qed
  have low: "map toLower ''file'' = ''file''" by code_simp
  have host: "parseAuthority '''' = Inr (None, '''')"
    by code_simp
  have "cut (CHR ''#'') (''file://'' @ ?p) = (''file://'' @ ?p, '''')" using no by (intro cut_none) simp
  moreover have "cut (CHR ''?'') (''//'' @ ?p) = (''//'' @ ?p, '''')" using no by (intro cut_none) simp
  moreover have "fst (cut (CHR ''/'') ?p) = ''''" using slash by (auto simp: cut_def)
  ultimately show ?thesis
    using sch low host ctl unescape_plain [OF no(3)]
    by (simp add: urlParse_def Let_def)
qed

text \<open>
  A file URL opens its directory: for a path of alphanumeric segments, below which nothing
  but directories is in the way, and without a fault of the environment, \<open>Open\<close> on
  \<open>file://\<close> and the path succeeds with the backend rooted there; the directory exists
  afterwards, and no file has changed.
\<close>

theorem open_file_url:
  assumes "list_all plain_segment ws" and "ws \<noteq> []" and "fs_wf s" and "ffaults s = []"
    and "\<forall>xs. prefix xs ws \<longrightarrow> node_at s xs \<in> {None, Some DirN}"
  shows "\<exists>s'. openURL env load newFromConfig (''file://'' @ filePath ws) s = (Inr (OpenedFS ws), s')
    \<and> node_at s' ws = Some DirN \<and> file_at s' = file_at s \<and> fs_wf s'"
proof -
  obtain r s' where m: "os_mkdirAll ws s = (r, s')" by fastforce
  have r: "r = Inr ()" using os_mkdirAll_quiet [OF assms(3,4), of ws] assms(5) m by simp
  have "uPath \<lparr>uScheme = ''file'', uUser = None, uHost = '''', uPath = filePath ws, uRawQuery = ''''\<rparr> \<noteq> ''''"
    using assms(2) by (cases ws) (auto simp: filePath_def)
  then have "openURL env load newFromConfig (''file://'' @ filePath ws) s = (Inr (OpenedFS ws), s')"
    using urlParse_file [OF assms(1,2)] split_filePath [OF assms(1,2)] m r
    by (simp add: openURL_def openFileURL_def openFS_def)
  then show ?thesis
    using os_mkdirAll_out [OF m assms(3)] r only_new_dirs_file by auto
qed

theorem open_file_url_witness:
  "\<exists>s'. openURL (\<lambda>v. '''') (\<lambda>os. Inr ()) (\<lambda>aws f. ()) (''file://'' @ filePath [''r'', ''new'']) ex_fs
     = (Inr (OpenedFS [''r'', ''new'']), s') \<and> node_at s' [''r'', ''new''] = Some DirN"
proof -
  have "isAlnum (CHR ''r'')" "isAlnum (CHR ''n'')" "isAlnum (CHR ''e'')" "isAlnum (CHR ''w'')" by code_simp+
  then have seg: "list_all plain_segment [''r'', ''new'']" by (simp add: plain_segment_def)
  have wf: "fs_wf ex_fs" by (rule fs_inv_wf [OF ex_inv])
  have way: "\<forall>xs. prefix xs [''r'', ''new''] \<longrightarrow> node_at ex_fs xs \<in> {None, Some DirN}"
    by (auto simp: ex_node_at prefix_Cons)
  from open_file_url [OF seg list.distinct(2) wf fs_quiet_faults [OF ex_quiet] way] show ?thesis by blast
qed

end
