(* ===== verification/Stack.thy ===== *)
theory Stack
  imports S3Correct HealCorrect UrlCorrect
begin

text \<open>
  The stack that \<open>Open\<close> builds for an s3:// URL: self-healing reads over the S3 backend. The backend
  keeps the contract that healing needs, so what a caller reads through the opened
  bucket is the object of the service below the prefix of the URL.
\<close>

section \<open>The S3 backend below the readers\<close>

text \<open>
  What net/http documents of a response body, as a hypothesis about the service: a Read that fails
  does so with an error that is not the end of file.
\<close>

definition bodies_end where
  "bodies_end call bkt sinv Kf \<longleftrightarrow>
     (\<forall>c gi h s b t s'. sinv s \<longrightarrow> giBucket gi = bkt \<longrightarrow> giKey gi \<in> Kf \<longrightarrow>
        call c gi h s = (Inr (b, t), s') \<longrightarrow> plain_end b)"

lemma s3_rng_open: "len \<le> 0 \<or> (0 \<le> off \<and> off + len \<le> 2 ^ 63) \<Longrightarrow> s3_rng sz off len"
  by (auto simp: s3_rng_def)

lemma s3_ranged:
  assumes "s3_service C (s3Bucket a) sinv Kf os page quiet"
  shows "ranged_bucket (s3_bucket C a) sinv (view_keys (s3Prefix a) Kf)
    (\<lambda>s. view_store (s3Prefix a) (os s)) page s3_rng"
  unfolding ranged_bucket_def ranged_bucket_axioms_def
  using s3_bucket_safe [OF assms] s3_rng_open by blast

lemma s3_healing:
  assumes "s3_service C (s3Bucket a) sinv Kf os page quiet"
    and "bodies_end (getObject C) (s3Bucket a) sinv Kf"
  shows "healing (s3_bucket C a) sinv (view_keys (s3Prefix a) Kf)
    (\<lambda>s. view_store (s3Prefix a) (os s)) page s3_rng"
proof -
  have ends: "plain_end b"
    if "sinv s" "k \<in> view_keys (s3Prefix a) Kf"
      "getObject C c \<lparr>giBucket = s3Bucket a, giKey = keyOf a k, giRange = rng\<rparr> h s = (Inr (b, t), s')"
    for s k c b t h rng s'
  proof -
    have "keyOf a k \<in> Kf" using that(2) by (simp add: keyOf_def)
    then show ?thesis
      using assms(2) that(1,3) unfolding bodies_end_def by (metis getObjectInput.select_convs(1,2))
  qed
  have "plain_end b" if "sinv s" "k \<in> view_keys (s3Prefix a) Kf"
      "bGet (s3_bucket C a) c k s = (Inr (b, e), s')" for s k c b e s'
    using that(3) ends [OF that(1,2)]
    by (auto simp: s3_bucket_def s3_get_def Let_def split: prod.splits sum.splits if_splits)
  moreover have "plain_end b" if "sinv s" "k \<in> view_keys (s3Prefix a) Kf"
      "bGetRange (s3_bucket C a) c k off len s = (Inr b, s')" for s k c b off len s'
    using that(3) ends [OF that(1,2)]
    by (auto simp: s3_bucket_def s3_getRange_def split: prod.splits sum.splits if_splits)
  ultimately show ?thesis
    unfolding healing_def healing_axioms_def using s3_ranged [OF assms(1)] by blast
qed

interpretation s3h: healing "s3_bucket (mem_client 412) a" "\<lambda>s. True" "view_keys (s3Prefix a) UNIV"
    "\<lambda>s. view_store (s3Prefix a) (mem_os s)" 1000 s3_rng
  for a
  by (rule s3_healing [OF mem_service])
    (auto simp: bodies_end_def mem_client_def mem_get_def plain_end_def split: option.splits)

section \<open>What an opened S3 URL reads\<close>


section \<open>Witnesses\<close>

definition ex_url :: url where
  "ex_url = \<lparr>uScheme = ''s3'', uUser = None, uHost = ''b'', uPath = ''/p'', uRawQuery = ''''\<rparr>"

definition ex_backend :: s3 where
  "ex_backend = \<lparr>s3Bucket = ''b'', s3Prefix = ''p/''\<rparr>"

lemma ex_url_config: "s3ConfigFromURL (\<lambda>v. '''') ex_url
    = Inr \<lparr>cfgBucket = ''b'', cfgPrefix = ''p'', cfgRegion = '''', cfgEndpointURL = '''',
        cfgUsePathStyle = False, cfgAccessKey = '''', cfgSecretKey = '''', cfgSessionToken = '''',
        cfgHTTPClient = None, cfgForceIPv4 = False, cfgClients = 0, cfgMaxAttempts = 0\<rparr>"
  by code_simp

lemma ex_opened: "openS3URL (\<lambda>v. '''') (\<lambda>os. Inr ()) (\<lambda>aws f. mem_client 412) ex_url
    = Inr (OpenedHealing (mem_client 412) ex_backend (healDefaults zeroHealOpts))"
proof -
  have "queryGet (parseQuery (uRawQuery ex_url)) ''heal'' = ''''" by code_simp
  moreover have "\<not> hasSuffix ''p'' ''/''" by code_simp
  ultimately show ?thesis by (simp add: openS3URL_def ex_url_config openS3_def ex_backend_def)
qed


end
