(* ===== verification/ClientSet.thy ===== *)
theory ClientSet
  imports Errors Float64
begin

text \<open>
  clientset.go: the striped transports of the S3 client. Stripes live in a heap, because a
  request keeps the stripe it was issued on after the slot has been given a fresh one; the set
  and the requests in flight form a state whose steps are the atomic actions of concurrent
  \<open>RoundTrip\<close> calls, of body closes and of the sockets. Times are nanoseconds; the zero
  \<open>time.Time\<close> is \<open>None\<close>. The rate test computes in float64, as the code does.
  The transports themselves (net/http) are not part of the repository: a transport is the
  number of its stripe, and its answers are steps of the environment.
\<close>

section \<open>Stripes\<close>

record stripe =
  stInflight :: int
  stBytes :: int
  stCheckedAt :: "int option"
  stCheckBytes :: int
  stBelowSince :: "int option"

definition newStripe :: stripe where
  "newStripe = \<lparr>stInflight = 0, stBytes = 0, stCheckedAt = None, stCheckBytes = 0, stBelowSince = None\<rparr>"

text \<open>
  \<open>float64(n) / elapsed.Seconds() < float64(floor)\<close>, where a zero divisor gives an infinity or no number.
\<close>

definition rateBelow :: "int \<Rightarrow> int \<Rightarrow> int \<Rightarrow> bool" where
  "rateBelow n elapsed floor \<longleftrightarrow>
     (if elapsed = 0 then n < 0 else rate_less n elapsed floor)"

definition sick :: "int \<Rightarrow> int \<Rightarrow> int \<Rightarrow> stripe \<Rightarrow> bool \<times> stripe" where
  "sick now floor window s =
     (case stCheckedAt s of
        None \<Rightarrow> (False, s\<lparr>stCheckedAt := Some now, stCheckBytes := stBytes s\<rparr>)
      | Some t \<Rightarrow>
          let elapsed = now - t in
          if elapsed \<ge> goQuot window 4 then
            let b = stBytes s;
                s1 = s\<lparr>stCheckedAt := Some now, stCheckBytes := b\<rparr>;
                s2 = (if stInflight s > 0 \<and> rateBelow (b - stCheckBytes s) elapsed floor then
                        (case stBelowSince s of
                           None \<Rightarrow> s1\<lparr>stBelowSince := Some (now - elapsed)\<rparr>
                         | Some x \<Rightarrow> s1)
                      else s1\<lparr>stBelowSince := None\<rparr>)
            in (case stBelowSince s2 of
                  None \<Rightarrow> (False, s2)
                | Some x \<Rightarrow> (now - x \<ge> window, s2))
          else (False, s))"

section \<open>The set\<close>

definition defaultClients :: int where
  "defaultClients = 4"

record clientSet =
  csFloor :: int
  csWindow :: int
  csNext :: "64 word"
  csSlots :: "nat list"
  csHeap :: "stripe list"
  csLastLog :: int

definition newClientSet :: "int \<Rightarrow> int \<Rightarrow> int \<Rightarrow> clientSet" where
  "newClientSet k floor window =
     (let n = nat (if k \<le> 0 then defaultClients else k)
      in \<lparr>csFloor = floor, csWindow = window, csNext = 0, csSlots = [0..<n],
          csHeap = replicate n newStripe, csLastLog = 0\<rparr>)"

text \<open>The next slot, round robin.\<close>

definition pick :: "clientSet \<Rightarrow> nat \<times> clientSet" where
  "pick c = (let n = csNext c + 1
             in (unat n mod length (csSlots c), c\<lparr>csNext := n\<rparr>))"

definition set_stripe :: "nat \<Rightarrow> stripe \<Rightarrow> clientSet \<Rightarrow> clientSet" where
  "set_stripe p s c = c\<lparr>csHeap := (csHeap c)[p := s]\<rparr>"

definition addInflight :: "nat \<Rightarrow> int \<Rightarrow> clientSet \<Rightarrow> clientSet" where
  "addInflight p d c = set_stripe p ((csHeap c ! p)\<lparr>stInflight := stInflight (csHeap c ! p) + d\<rparr>) c"

text \<open>\<open>warnEvicted\<close>: whether it logs; at most one line in five seconds.\<close>

definition warnEvicted :: "int \<Rightarrow> clientSet \<Rightarrow> bool \<times> clientSet" where
  "warnEvicted now c =
     (if now - csLastLog c < 5000000000 then (False, c) else (True, c\<lparr>csLastLog := now\<rparr>))"

text \<open>Replacing a stripe: the new one is allocated, and the slot swapped if it still holds the old.\<close>

definition evict :: "int \<Rightarrow> nat \<Rightarrow> nat \<Rightarrow> clientSet \<Rightarrow> nat option \<times> clientSet" where
  "evict now i p c =
     (let fresh = length (csHeap c);
          c1 = c\<lparr>csHeap := csHeap c @ [newStripe]\<rparr>
      in if csSlots c ! i = p then
           (Some fresh, snd (warnEvicted now (c1\<lparr>csSlots := (csSlots c)[i := fresh]\<rparr>)))
         else (None, c1))"

text \<open>\<open>(*countingConn).Read\<close>: a socket of the stripe delivered \<open>n\<close> bytes.\<close>

definition connRead :: "nat \<Rightarrow> nat \<Rightarrow> clientSet \<Rightarrow> clientSet" where
  "connRead p n c = set_stripe p ((csHeap c ! p)\<lparr>stBytes := stBytes (csHeap c ! p) + int n\<rparr>) c"

section \<open>Concurrent requests\<close>

text \<open>
  Where a request is: it has loaded its slot; found it sick; lost the swap to another request;
  holds its stripe; is in the transport; has a body, open or closed; or has failed.
\<close>

datatype request =
    RLoaded nat nat
  | RSick nat nat
  | RReload nat
  | RReady nat
  | RSent nat
  | RBody nat bool
  | RFailed

record cset =
  csSet :: clientSet
  csReqs :: "request list"

definition upd_req :: "nat \<Rightarrow> request \<Rightarrow> clientSet \<Rightarrow> cset \<Rightarrow> cset" where
  "upd_req j r c x = \<lparr>csSet = c, csReqs = (csReqs x)[j := r]\<rparr>"

inductive cs_step :: "cset \<Rightarrow> cset \<Rightarrow> bool" where
  Issue: "pick (csSet x) = (i, c)
      \<Longrightarrow> cs_step x \<lparr>csSet = c, csReqs = csReqs x @ [RLoaded i (csSlots c ! i)]\<rparr>"
| Healthy: "j < length (csReqs x) \<Longrightarrow> csReqs x ! j = RLoaded i p
      \<Longrightarrow> sick now (csFloor (csSet x)) (csWindow (csSet x)) (csHeap (csSet x) ! p) = (False, s)
      \<Longrightarrow> cs_step x (upd_req j (RReady p) (set_stripe p s (csSet x)) x)"
| Sick: "j < length (csReqs x) \<Longrightarrow> csReqs x ! j = RLoaded i p
      \<Longrightarrow> sick now (csFloor (csSet x)) (csWindow (csSet x)) (csHeap (csSet x) ! p) = (True, s)
      \<Longrightarrow> cs_step x (upd_req j (RSick i p) (set_stripe p s (csSet x)) x)"
| Evict: "j < length (csReqs x) \<Longrightarrow> csReqs x ! j = RSick i p
      \<Longrightarrow> evict now i p (csSet x) = (Some q, c) \<Longrightarrow> cs_step x (upd_req j (RReady q) c x)"
| Lost: "j < length (csReqs x) \<Longrightarrow> csReqs x ! j = RSick i p
      \<Longrightarrow> evict now i p (csSet x) = (None, c) \<Longrightarrow> cs_step x (upd_req j (RReload i) c x)"
| Reload: "j < length (csReqs x) \<Longrightarrow> csReqs x ! j = RReload i
      \<Longrightarrow> cs_step x (upd_req j (RReady (csSlots (csSet x) ! i)) (csSet x) x)"
| Send: "j < length (csReqs x) \<Longrightarrow> csReqs x ! j = RReady p
      \<Longrightarrow> cs_step x (upd_req j (RSent p) (addInflight p 1 (csSet x)) x)"
| Fail: "j < length (csReqs x) \<Longrightarrow> csReqs x ! j = RSent p
      \<Longrightarrow> cs_step x (upd_req j RFailed (addInflight p (- 1) (csSet x)) x)"
| Answer: "j < length (csReqs x) \<Longrightarrow> csReqs x ! j = RSent p
      \<Longrightarrow> cs_step x (upd_req j (RBody p False) (csSet x) x)"
| CloseBody: "j < length (csReqs x) \<Longrightarrow> csReqs x ! j = RBody p closed
      \<Longrightarrow> cs_step x (upd_req j (RBody p True)
            (if closed then csSet x else addInflight p (- 1) (csSet x)) x)"
| Socket: "p < length (csHeap (csSet x)) \<Longrightarrow> cs_step x (x\<lparr>csSet := connRead p n (csSet x)\<rparr>)"

definition cs_init :: "int \<Rightarrow> int \<Rightarrow> int \<Rightarrow> cset" where
  "cs_init k floor window = \<lparr>csSet = newClientSet k floor window, csReqs = []\<rparr>"

inductive_cases cs_stepE: "cs_step x y"

section \<open>The transport of a stripe\<close>

text \<open>The network a dial uses, and the settings of the transport, in nanoseconds.\<close>

definition dialNetwork :: "bool \<Rightarrow> string \<Rightarrow> string" where
  "dialNetwork forceIPv4 network =
     (if forceIPv4 \<and> (network = ''tcp'' \<or> network = ''tcp6'') then ''tcp4'' else network)"

record transport =
  trDialTimeout :: int
  trKeepAlive :: int
  trForceHTTP2 :: bool
  trMaxIdleConns :: int
  trMaxIdleConnsPerHost :: int
  trIdleConnTimeout :: int
  trTLSHandshakeTimeout :: int
  trResponseHeaderTimeout :: int
  trExpectContinueTimeout :: int
  trNetwork :: "string \<Rightarrow> string"

definition stripeTransport :: "bool \<Rightarrow> int \<Rightarrow> transport" where
  "stripeTransport forceIPv4 window = \<lparr>trDialTimeout = 30000000000, trKeepAlive = 30000000000,
     trForceHTTP2 = True, trMaxIdleConns = 100, trMaxIdleConnsPerHost = 10,
     trIdleConnTimeout = 90000000000, trTLSHandshakeTimeout = 10000000000,
     trResponseHeaderTimeout = window, trExpectContinueTimeout = 1000000000,
     trNetwork = dialNetwork forceIPv4\<rparr>"

end
