(* ===== verification/ClientSetCorrect.thy ===== *)
theory ClientSetCorrect
  imports ClientSet Float64Props
begin

text \<open>
  The striped transports as properties: the in-flight counts are exact in every reachable state,
  requests are spread evenly over the slots, and a stripe is found sick exactly for delivering
  too little while requests are in flight.
\<close>

section \<open>In-flight accounting\<close>

text \<open>A request counts on the stripe it was sent on until it fails or its body is closed.\<close>

fun holds :: "nat \<Rightarrow> request \<Rightarrow> bool" where
  "holds p (RSent q) = (p = q)"
| "holds p (RBody q shut) = (p = q \<and> \<not> shut)"
| "holds p r = False"

fun req_ok :: "clientSet \<Rightarrow> request \<Rightarrow> bool" where
  "req_ok c (RLoaded i p) = (i < length (csSlots c) \<and> p < length (csHeap c))"
| "req_ok c (RSick i p) = (i < length (csSlots c) \<and> p < length (csHeap c))"
| "req_ok c (RReload i) = (i < length (csSlots c))"
| "req_ok c (RReady p) = (p < length (csHeap c))"
| "req_ok c (RSent p) = (p < length (csHeap c))"
| "req_ok c (RBody p shut) = (p < length (csHeap c))"
| "req_ok c RFailed = True"

definition in_flight :: "nat \<Rightarrow> request list \<Rightarrow> int" where
  "in_flight p rs = int (length (filter (holds p) rs))"

definition cs_inv :: "cset \<Rightarrow> bool" where
  "cs_inv x \<longleftrightarrow> csSlots (csSet x) \<noteq> [] \<and> list_all (\<lambda>p. p < length (csHeap (csSet x))) (csSlots (csSet x))
     \<and> list_all (req_ok (csSet x)) (csReqs x)
     \<and> (\<forall>p < length (csHeap (csSet x)). stInflight (csHeap (csSet x) ! p) = in_flight p (csReqs x))"

lemma in_flight_update:
  "j < length rs \<Longrightarrow> in_flight p (rs[j := r])
    = in_flight p rs - (if holds p (rs ! j) then 1 else 0) + (if holds p r then 1 else 0)"
proof -
  assume j: "j < length rs"
  have "filter (holds p) rs = filter (holds p) (take j rs @ rs ! j # drop (Suc j) rs)"
    using id_take_nth_drop [OF j] by simp
  then show ?thesis by (simp add: in_flight_def upd_conv_take_nth_drop [OF j])
qed

lemma in_flight_snoc [simp]: "in_flight p (rs @ [r]) = in_flight p rs + (if holds p r then 1 else 0)"
  by (simp add: in_flight_def)

lemma set_stripe_sel [simp]:
  "csSlots (set_stripe p s c) = csSlots c" "length (csHeap (set_stripe p s c)) = length (csHeap c)"
  "csHeap (set_stripe p s c) = (csHeap c)[p := s]"
  by (simp_all add: set_stripe_def)

lemma addInflight_sel [simp]:
  "csSlots (addInflight p d c) = csSlots c"
  "csHeap (addInflight p d c) = (csHeap c)[p := (csHeap c ! p)\<lparr>stInflight := stInflight (csHeap c ! p) + d\<rparr>]"
  by (simp_all add: addInflight_def)

lemma connRead_sel [simp]:
  "csSlots (connRead p n c) = csSlots c"
  "csHeap (connRead p n c) = (csHeap c)[p := (csHeap c ! p)\<lparr>stBytes := stBytes (csHeap c ! p) + int n\<rparr>]"
  by (simp_all add: connRead_def)

lemma sick_inflight: "sick now bps window s = (b, s') \<Longrightarrow> stInflight s' = stInflight s"
  by (auto simp: sick_def Let_def split: option.splits if_splits)

lemma req_ok_mono:
  "req_ok c r \<Longrightarrow> length (csSlots c') = length (csSlots c) \<Longrightarrow> length (csHeap c) \<le> length (csHeap c')
    \<Longrightarrow> req_ok c' r"
  by (cases r) auto

lemma reqs_mono:
  "list_all (req_ok c) rs \<Longrightarrow> length (csSlots c') = length (csSlots c) \<Longrightarrow> length (csHeap c) \<le> length (csHeap c')
    \<Longrightarrow> list_all (req_ok c') rs"
  using req_ok_mono by (auto simp: list_all_iff)

text \<open>What keeps the invariant: a request moves, and the counts move with it.\<close>

lemma cs_inv_update:
  assumes inv: "cs_inv x" and j: "j < length (csReqs x)"
    and slots: "length (csSlots c) = length (csSlots (csSet x))" "list_all (\<lambda>p. p < length (csHeap c)) (csSlots c)"
    and heap: "length (csHeap (csSet x)) \<le> length (csHeap c)"
    and old: "\<And>p. p < length (csHeap (csSet x)) \<Longrightarrow> stInflight (csHeap c ! p) = stInflight (csHeap (csSet x) ! p)
        - (if holds p (csReqs x ! j) then 1 else 0) + (if holds p r then 1 else 0)"
    and new: "\<And>p. length (csHeap (csSet x)) \<le> p \<Longrightarrow> p < length (csHeap c) \<Longrightarrow> stInflight (csHeap c ! p) = 0
        \<and> \<not> holds p r"
    and r: "req_ok c r"
  shows "cs_inv (upd_req j r c x)"
proof -
  have reqs: "list_all (req_ok c) (csReqs x)"
    using reqs_mono [OF _ slots(1) heap] inv by (simp add: cs_inv_def)
  have "list_all (req_ok c) ((csReqs x)[j := r])"
    using reqs r by (rule list_all_update)
  moreover have "stInflight (csHeap c ! p) = in_flight p ((csReqs x)[j := r])" if p: "p < length (csHeap c)" for p
  proof (cases "p < length (csHeap (csSet x))")
    case True
    then show ?thesis using old [OF True] inv j by (simp add: cs_inv_def in_flight_update)
  next
    case False
    have no: "\<not> holds p q" if "req_ok (csSet x) q" for q
      using that False by (cases q) auto
    have all: "\<forall>q \<in> set (csReqs x). \<not> holds p q"
      using inv no by (auto simp: cs_inv_def list_all_iff)
    then have "in_flight p (csReqs x) = 0" by (simp add: in_flight_def)
    then show ?thesis using new [of p] False p j all by (simp add: in_flight_update)
  qed
  moreover have "csSlots c \<noteq> []" using slots(1) inv by (auto simp: cs_inv_def)
  ultimately show ?thesis using slots(2) by (simp add: cs_inv_def upd_req_def)
qed

lemma cs_inv_init: "cs_inv (cs_init k bps window)"
  by (auto simp: cs_inv_def cs_init_def newClientSet_def Let_def defaultClients_def newStripe_def
      in_flight_def list_all_iff)

lemma warnEvicted_sel [simp]:
  "csSlots (snd (warnEvicted now c)) = csSlots c" "csHeap (snd (warnEvicted now c)) = csHeap c"
  by (simp_all add: warnEvicted_def)

lemma evict_sel:
  assumes "evict now i p c = (q, c')" and "list_all (\<lambda>p. p < length (csHeap c)) (csSlots c)"
  shows "length (csSlots c') = length (csSlots c)" and "csHeap c' = csHeap c @ [newStripe]"
    and "list_all (\<lambda>p. p < length (csHeap c')) (csSlots c')"
    and "q = Some f \<Longrightarrow> f = length (csHeap c)"
proof -
  have "list_all (\<lambda>p. p < Suc (length (csHeap c))) (csSlots c)"
    using assms(2) by (auto simp: list_all_iff)
  then show "list_all (\<lambda>p. p < length (csHeap c')) (csSlots c')"
    using assms(1) by (auto simp: evict_def Let_def split: if_splits intro: list_all_update)
qed (use assms in \<open>auto simp: evict_def Let_def split: if_splits\<close>)

lemma cs_step_inv:
  assumes "cs_step x y" and inv: "cs_inv x"
  shows "cs_inv y"
proof -
  have sl: "list_all (\<lambda>p. p < length (csHeap (csSet x))) (csSlots (csSet x))"
    and req: "\<And>j. j < length (csReqs x) \<Longrightarrow> req_ok (csSet x) (csReqs x ! j)"
    using inv by (auto simp: cs_inv_def list_all_length)
  note upd = cs_inv_update [OF inv]
  from assms(1) show ?thesis
  proof cases
    case (Issue i c)
    have i: "i < length (csSlots (csSet x))" "csSlots c = csSlots (csSet x)" "csHeap c = csHeap (csSet x)"
      using Issue(2) inv by (auto simp: pick_def Let_def cs_inv_def)
    then have "csSlots c ! i < length (csHeap c)" using sl by (auto simp: list_all_length)
    moreover have "list_all (req_ok c) (csReqs x)"
      using reqs_mono [of "csSet x" "csReqs x" c] inv i by (simp add: cs_inv_def)
    ultimately show ?thesis using inv Issue(1) i by (simp add: cs_inv_def)
  next
    case (Healthy j i p now s)
    then show ?thesis
      using req [of j] sick_inflight [OF Healthy(4)] sl
      by (auto intro!: upd simp: nth_list_update split: if_splits)
  next
    case (Sick j i p now s)
    then show ?thesis
      using req [of j] sick_inflight [OF Sick(4)] sl
      by (auto intro!: upd simp: nth_list_update split: if_splits)
  next
    case (Evict j i p now q c)
    have i: "i < length (csSlots (csSet x))" using req [of j] Evict by simp
    note ev = evict_sel [OF Evict(4) sl]
    show ?thesis
      unfolding Evict(1)
      by (rule upd) (use ev Evict in \<open>auto simp: nth_append newStripe_def\<close>)
  next
    case (Lost j i p now c)
    have i: "i < length (csSlots (csSet x))" using req [of j] Lost by simp
    note ev = evict_sel [OF Lost(4) sl]
    show ?thesis
      unfolding Lost(1)
      by (rule upd) (use ev Lost i in \<open>auto simp: nth_append newStripe_def\<close>)
  next
    case (Reload j i)
    then show ?thesis
      using req [of j] sl by (auto intro!: upd simp: list_all_length)
  next
    case (Send j p)
    then show ?thesis
      using req [of j] sl by (auto intro!: upd simp: nth_list_update)
  next
    case (Fail j p)
    then show ?thesis
      using req [of j] sl by (auto intro!: upd simp: nth_list_update)
  next
    case (Answer j p)
    then show ?thesis
      using req [of j] sl by (auto intro!: upd)
  next
    case (CloseBody j p shut)
    then show ?thesis
      using req [of j] sl by (auto intro!: upd simp: nth_list_update)
  next
    case (Socket p n)
    then show ?thesis
      using inv reqs_mono [of "csSet x" "csReqs x" "connRead p n (csSet x)"]
      by (auto simp: cs_inv_def nth_list_update)
  qed
qed

lemma cs_reachable_inv: "cs_step\<^sup>*\<^sup>* (cs_init k bps window) x \<Longrightarrow> cs_inv x"
  by (induction rule: rtranclp_induct) (auto intro: cs_inv_init cs_step_inv)

text \<open>No two slots share a transport, and the number of slots is fixed.\<close>

lemma evict_distinct:
  assumes "evict now i p c = (q, c')" and "list_all (\<lambda>p. p < length (csHeap c)) (csSlots c)"
    and "distinct (csSlots c)"
  shows "distinct (csSlots c')"
proof -
  have "length (csHeap c) \<notin> set (csSlots c)" using assms(2) by (auto simp: list_all_iff)
  then show ?thesis
    using assms(1,3) by (auto simp: evict_def Let_def split: if_splits intro: distinct_list_update)
qed

lemma cs_step_slots:
  assumes "cs_step x y" and "cs_inv x" and "distinct (csSlots (csSet x))"
  shows "distinct (csSlots (csSet y)) \<and> length (csSlots (csSet y)) = length (csSlots (csSet x))"
proof -
  have sl: "list_all (\<lambda>p. p < length (csHeap (csSet x))) (csSlots (csSet x))"
    using assms(2) by (simp add: cs_inv_def)
  from assms(1) show ?thesis
    by cases (use assms(3) evict_distinct [OF _ sl] evict_sel(1) [OF _ sl]
        in \<open>auto simp: upd_req_def pick_def Let_def\<close>)
qed

lemma cs_reachable_slots:
  "cs_step\<^sup>*\<^sup>* (cs_init k bps window) x
    \<Longrightarrow> distinct (csSlots (csSet x)) \<and> length (csSlots (csSet x)) = nat (if k \<le> 0 then 4 else k)"
proof (induction rule: rtranclp_induct)
  case base
  show ?case by (simp add: cs_init_def newClientSet_def Let_def defaultClients_def)
next
  case (step y z)
  then show ?case using cs_step_slots [OF step(2) cs_reachable_inv [OF step(1)]] by simp
qed

fun released :: "request \<Rightarrow> bool" where
  "released (RBody p shut) = shut"
| "released RFailed = True"
| "released r = False"

lemma released_holds: "released r \<Longrightarrow> \<not> holds p r"
  by (cases r) auto

text \<open>C38. In every state that concurrent requests can reach, the in-flight counter of each stripe,
  abandoned ones included, is the number of requests that were sent on it and have neither failed
  nor had their body closed: it is never negative, whatever number of times a body is closed, and
  it is zero once every request is over; and no two slots ever share a stripe.\<close>

theorem clientset_inflight:
  assumes "cs_step\<^sup>*\<^sup>* (cs_init k bps window) x" and "p < length (csHeap (csSet x))"
  shows "stInflight (csHeap (csSet x) ! p) = int (length (filter (holds p) (csReqs x)))
    \<and> 0 \<le> stInflight (csHeap (csSet x) ! p)
    \<and> (list_all released (csReqs x) \<longrightarrow> stInflight (csHeap (csSet x) ! p) = 0)
    \<and> distinct (csSlots (csSet x)) \<and> length (csSlots (csSet x)) = nat (if k \<le> 0 then 4 else k)"
proof -
  have eq: "stInflight (csHeap (csSet x) ! p) = int (length (filter (holds p) (csReqs x)))"
    using cs_reachable_inv [OF assms(1)] assms(2) by (simp add: cs_inv_def in_flight_def)
  moreover have "list_all released (csReqs x) \<Longrightarrow> filter (holds p) (csReqs x) = []"
    by (auto simp: list_all_iff filter_empty_conv dest: released_holds)
  ultimately show ?thesis using cs_reachable_slots [OF assms(1)] by simp
qed

section \<open>Round robin\<close>

primrec picks :: "nat \<Rightarrow> clientSet \<Rightarrow> nat list" where
  "picks 0 c = []"
| "picks (Suc n) c = (case pick c of (i, c') \<Rightarrow> i # picks n c')"

lemma picks_nth:
  "unat (csNext c) + n < 2 ^ 64
    \<Longrightarrow> picks n c = map (\<lambda>k. (unat (csNext c) + Suc k) mod length (csSlots c)) [0..<n]"
proof (induction n arbitrary: c)
  case (Suc n)
  have "unat (csNext c + 1) = unat (csNext c) + 1"
    using Suc.prems by (subst unat_add_lem [THEN iffD1]) auto
  then have nx: "unat (csNext (snd (pick c))) = Suc (unat (csNext c))"
      and slots: "csSlots (snd (pick c)) = csSlots c"
      and fst: "fst (pick c) = Suc (unat (csNext c)) mod length (csSlots c)"
    by (simp_all add: pick_def Let_def)
  have "picks (Suc n) c = fst (pick c) # picks n (snd (pick c))" by (simp add: split_beta)
  also have "\<dots> = Suc (unat (csNext c)) mod length (csSlots c)
      # map (\<lambda>k. (unat (csNext c) + Suc (Suc k)) mod length (csSlots c)) [0..<n]"
    using Suc.IH [of "snd (pick c)"] Suc.prems nx slots fst by simp
  also have "\<dots> = map (\<lambda>k. (unat (csNext c) + Suc k) mod length (csSlots c)) [0..<Suc n]"
    by (simp add: map_upt_Suc del: upt_Suc)
  finally show ?case .
qed simp

lemma mod_shift_inj:
  assumes "(a + j) mod n = (a + k) mod n" and "j < n" and "k < (n::nat)"
  shows "j = k"
proof -
  have "int (a + j) mod int n = int (a + k) mod int n"
    using assms(1) by (metis zmod_int)
  then have "int n dvd int (a + j) - int (a + k)" by (simp add: mod_eq_dvd_iff)
  then have "int n dvd int j - int k" by simp
  moreover from this have "int n dvd int k - int j" by (simp add: dvd_diff_commute)
  ultimately have "\<not> 0 < int j - int k" "\<not> 0 < int k - int j"
    using zdvd_not_zless [of "int j - int k" "int n"] zdvd_not_zless [of "int k - int j" "int n"]
      assms(2,3) by linarith+
  then show ?thesis by linarith
qed

text \<open>Requests are striped evenly: as long as the 64-bit counter does not wrap in between, any
  K consecutive requests use each of the K slots exactly once.\<close>

lemma round_robin:
  assumes "csSlots c \<noteq> []" and "unat (csNext c) + length (csSlots c) < 2 ^ 64"
  shows "distinct (picks (length (csSlots c)) c)
    \<and> set (picks (length (csSlots c)) c) = {..<length (csSlots c)}"
proof -
  let ?n = "length (csSlots c)" and ?p = "picks (length (csSlots c)) c"
  have d: "distinct ?p"
    unfolding picks_nth [OF assms(2)]
    by (auto simp: distinct_map inj_on_def
        intro: mod_shift_inj [where a = "Suc (unat (csNext c))" and n = ?n])
  have "set ?p \<subseteq> {..<?n}" using assms(1) by (auto simp: picks_nth [OF assms(2)])
  moreover have "card (set ?p) = card {..<?n}"
    using distinct_card [OF d] by (simp add: picks_nth [OF assms(2)])
  ultimately show ?thesis using d by (metis card_subset_eq finite_lessThan)
qed

section \<open>When a stripe is sick\<close>

text \<open>What happens to one stripe: it is checked, its sockets deliver, requests come and go.\<close>

datatype event = Check int | Read nat | Flight int

fun observe :: "int \<Rightarrow> int \<Rightarrow> stripe \<Rightarrow> event \<Rightarrow> stripe" where
  "observe bps window s (Check t) = snd (sick t bps window s)"
| "observe bps window s (Read n) = s\<lparr>stBytes := stBytes s + int n\<rparr>"
| "observe bps window s (Flight d) = s\<lparr>stInflight := stInflight s + d\<rparr>"

definition watch :: "int \<Rightarrow> int \<Rightarrow> stripe \<Rightarrow> event list \<Rightarrow> stripe" where
  "watch bps window = foldl (observe bps window)"

fun delivered :: "event list \<Rightarrow> int" where
  "delivered (Read n # es) = int n + delivered es"
| "delivered (e # es) = delivered es"
| "delivered [] = 0"

lemma delivered_append [simp]: "delivered (es @ fs) = delivered es + delivered fs"
  by (induction es rule: delivered.induct) simp_all

lemma watch_simps [simp]:
  "watch bps window s [] = s"
  "watch bps window s (e # es) = watch bps window (observe bps window s e) es"
  "watch bps window s (es @ fs) = watch bps window (watch bps window s es) fs"
  by (simp_all add: watch_def)

text \<open>
  Fewer than \<open>bps\<close> bytes a second, up to the rounding of the code's float64 comparison: one part in
  2^50. Stretches of time add up.
\<close>

definition under :: "int \<Rightarrow> int \<Rightarrow> int \<Rightarrow> bool" where
  "under bps n d \<longleftrightarrow> n * 1000000000 * (2 ^ 50 - 1) < bps * d * 2 ^ 50"

lemma under_add: "under bps n d \<Longrightarrow> under bps m e \<Longrightarrow> under bps (n + m) (d + e)"
  by (simp add: under_def distrib_left distrib_right)

lemma rateBelow_under: "0 \<le> n \<Longrightarrow> 0 < d \<Longrightarrow> 0 \<le> bps \<Longrightarrow> rateBelow n d bps \<Longrightarrow> under bps n d"
  using rate_less_sound [of n d bps] by (simp only: rateBelow_def under_def)

lemma under_rateBelow:
  "0 \<le> n \<Longrightarrow> 0 < d \<Longrightarrow> n * 1000000000 * 2 ^ 50 < bps * d * (2 ^ 50 - 1) \<Longrightarrow> rateBelow n d bps"
  using rate_less_complete [of n d bps] by (simp only: rateBelow_def) simp

lemma delivered_nonneg [simp]: "0 \<le> delivered es"
  by (induction es rule: delivered.induct) simp_all

text \<open>
  What the fields of a stripe say of its past: the last sample, the bytes since, and, when it is
  below, an earlier sample since which it delivered too little.
\<close>

definition past :: "int \<Rightarrow> event list \<Rightarrow> stripe \<Rightarrow> bool" where
  "past bps es s \<longleftrightarrow>
     (case stCheckedAt s of
        None \<Rightarrow> stBelowSince s = None
      | Some t \<Rightarrow> (\<exists>es1 es2. es = es1 @ Check t # es2 \<and> stBytes s = stCheckBytes s + delivered es2
          \<and> (\<forall>x. stBelowSince s = Some x \<longrightarrow>
               (\<exists>es0 mid. es1 = es0 @ Check x # mid \<and> under bps (delivered mid) (t - x)))))"

lemma pastI:
  assumes "stCheckedAt s = Some t" and "es = es1 @ Check t # es2" and "stBytes s = stCheckBytes s + delivered es2"
    and "\<And>x. stBelowSince s = Some x \<Longrightarrow>
      \<exists>es0 mid. es1 = es0 @ Check x # mid \<and> under bps (delivered mid) (t - x)"
  shows "past bps es s"
  unfolding past_def assms(1) option.case
  by (intro exI [of _ es1] exI [of _ es2] conjI allI impI assms)

lemma pastE:
  assumes "past bps es s" and "stCheckedAt s = Some t"
  obtains es1 es2 where "es = es1 @ Check t # es2" and "stBytes s = stCheckBytes s + delivered es2"
    and "\<forall>x. stBelowSince s = Some x \<longrightarrow>
      (\<exists>es0 mid. es1 = es0 @ Check x # mid \<and> under bps (delivered mid) (t - x))"
  using assms unfolding past_def by (simp, blast)

lemma past_new: "past bps [] newStripe"
  by (simp add: past_def newStripe_def)

lemma past_other:
  assumes "past bps es s" and "stCheckedAt s' = stCheckedAt s" "stCheckBytes s' = stCheckBytes s"
    "stBelowSince s' = stBelowSince s" "stBytes s' = stBytes s + delivered [e]"
  shows "past bps (es @ [e]) s'"
proof (cases "stCheckedAt s")
  case None
  then show ?thesis using assms by (simp add: past_def)
next
  case (Some t)
  show ?thesis
  proof (rule pastE [OF assms(1) Some])
    fix es1 es2
    assume es: "es = es1 @ Check t # es2" "stBytes s = stCheckBytes s + delivered es2"
      and below: "\<forall>x. stBelowSince s = Some x \<longrightarrow>
        (\<exists>es0 mid. es1 = es0 @ Check x # mid \<and> under bps (delivered mid) (t - x))"
    show ?thesis
      by (rule pastI [where t = t and ?es1.0 = es1 and ?es2.0 = "es2 @ [e]"])
        (use Some assms(2-5) es below in \<open>simp_all\<close>)
  qed
qed

text \<open>A sample: what it leaves is determined by whether the rate since the last one is too low.\<close>

lemma sick_sample:
  fixes bps :: int
  assumes "stCheckedAt s = Some t" and "goQuot window 4 \<le> now - t"
  defines "low \<equiv> stInflight s > 0 \<and> rateBelow (stBytes s - stCheckBytes s) (now - t) bps"
  defines "since \<equiv> (if low then Some (case stBelowSince s of None \<Rightarrow> t | Some x \<Rightarrow> x) else None)"
  shows "sick now bps window s = ((case since of None \<Rightarrow> False | Some x \<Rightarrow> window \<le> now - x),
    s\<lparr>stCheckedAt := Some now, stCheckBytes := stBytes s, stBelowSince := since\<rparr>)"
  using assms(1,2) by (auto simp: sick_def Let_def low_def since_def split: option.splits)

lemma sick_early:
  "stCheckedAt s = Some t \<Longrightarrow> now - t < goQuot window 4 \<Longrightarrow> sick now bps window s = (False, s)"
  by (simp add: sick_def Let_def)

lemma past_check:
  assumes past: "past bps es s" and w: "4 \<le> window" and fl: "0 \<le> bps"
  shows "past bps (es @ [Check now]) (snd (sick now bps window s))"
proof (cases "stCheckedAt s")
  case None
  then have "snd (sick now bps window s) = s\<lparr>stCheckedAt := Some now, stCheckBytes := stBytes s\<rparr>"
      "stBelowSince s = None"
    using past by (simp_all add: sick_def past_def)
  then show ?thesis by (intro pastI [where t = now and ?es1.0 = es and ?es2.0 = "[]"]) simp_all
next
  case (Some t)
  show ?thesis
  proof (cases "goQuot window 4 \<le> now - t")
    case False
    then show ?thesis using past_other [OF past, of s "Check now"] Some by (simp add: sick_early)
  next
    case True
    then have pos: "0 < now - t" using w by (simp add: goQuot_pos)
    obtain es1 es2 where es: "es = es1 @ Check t # es2" "stBytes s = stCheckBytes s + delivered es2"
        and below: "\<forall>x. stBelowSince s = Some x \<longrightarrow>
           (\<exists>es0 mid. es1 = es0 @ Check x # mid \<and> under bps (delivered mid) (t - x))"
      by (rule pastE [OF past Some])
    have since: "\<exists>es0 mid. es = es0 @ Check x # mid \<and> under bps (delivered mid) (now - x)"
      if low: "under bps (delivered es2) (now - t)"
        and x: "x = (case stBelowSince s of None \<Rightarrow> t | Some y \<Rightarrow> y)" for x
    proof (cases "stBelowSince s")
      case None
      then show ?thesis using es(1) low x by (intro exI [of _ es1] exI [of _ es2]) simp
    next
      case (Some y)
      then obtain es0 mid where "es1 = es0 @ Check x # mid"
          "under bps (delivered mid) (t - x)"
        using below x by auto
      then show ?thesis
        using es(1) low
        by (intro exI [of _ es0] exI [of _ "mid @ Check t # es2"])
          (use under_add [of bps "delivered mid" "t - x"] in fastforce)
    qed
    have "rateBelow (delivered es2) (now - t) bps \<Longrightarrow> under bps (delivered es2) (now - t)"
      by (rule rateBelow_under [OF delivered_nonneg pos fl])
    then show ?thesis
      using since unfolding sick_sample [OF Some True]
      by (intro pastI [where t = now and ?es1.0 = es and ?es2.0 = "[]"])
        (use es(2) in \<open>auto split: if_splits\<close>)
  qed
qed

lemma past_watch: "4 \<le> window \<Longrightarrow> 0 \<le> bps \<Longrightarrow> past bps es (watch bps window newStripe es)"
proof (induction es rule: rev_induct)
  case (snoc e es)
  then show ?case
    by (cases e) (auto intro: past_check past_other)
qed (simp add: past_new)

text \<open>C39. A stripe is replaced only for cause, whatever its history of checks, deliveries and
  requests: when a check of a stripe fires, there are requests in flight on it, and since some
  earlier check, at least a window ago, its sockets have delivered less than the floor rate, within
  the rounding of the code's float64 comparison (one part in 2^50).
  In particular an idle stripe is never sick.\<close>

theorem sick_sound:
  assumes "4 \<le> window" and "0 \<le> bps"
    and "sick now bps window (watch bps window newStripe es) = (True, s')"
  shows "0 < stInflight s' \<and> (\<exists>before x since. es = before @ Check x # since \<and> window \<le> now - x
    \<and> delivered since * 1000000000 * (2 ^ 50 - 1) < bps * (now - x) * 2 ^ 50)"
proof -
  let ?s = "watch bps window newStripe es"
  obtain t where t: "stCheckedAt ?s = Some t" and due: "goQuot window 4 \<le> now - t"
    using assms(3) by (auto simp: sick_def Let_def split: option.splits if_splits)
  obtain x where x: "stBelowSince s' = Some x" "window \<le> now - x" and fly: "0 < stInflight s'"
    using assms(3) unfolding sick_sample [OF t due] by (auto split: if_splits)
  have at: "stCheckedAt s' = Some now" and bytes: "stBytes s' = stCheckBytes s'"
    using assms(3) unfolding sick_sample [OF t due] by auto
  have "past bps (es @ [Check now]) s'"
    using past_check [OF past_watch [OF assms(1,2)] assms(1,2), of es now] assms(3) by simp
  then obtain es1 es2 where es: "es @ [Check now] = es1 @ Check now # es2" "delivered es2 = 0"
      and "\<exists>es0 mid. es1 = es0 @ Check x # mid \<and> under bps (delivered mid) (now - x)"
    by (rule pastE [OF _ at]) (use x bytes in auto)
  then obtain es0 mid where mid: "es1 = es0 @ Check x # mid"
      "under bps (delivered mid) (now - x)" by blast
  show ?thesis
  proof (cases es2 rule: rev_cases)
    case Nil
    then show ?thesis using es mid x fly by (auto simp: under_def)
  next
    case (snoc ys e)
    then have "es = es0 @ Check x # mid @ Check now # ys" "delivered ys = 0"
      using es mid(1) by auto
    then show ?thesis
      using mid(2) x fly unfolding under_def by (intro conjI exI [of _ es0] exI [of _ x] exI [of _ "mid @ Check now # ys"]) auto
  qed
qed

text \<open>A run of samples, each with the bytes delivered since the one before, all too few.\<close>

primrec feed :: "(int \<times> nat) list \<Rightarrow> event list" where
  "feed [] = []"
| "feed (x # xs) = Read (snd x) # Check (fst x) # feed xs"

fun starved :: "int \<Rightarrow> int \<Rightarrow> int \<Rightarrow> (int \<times> nat) list \<Rightarrow> bool" where
  "starved bps window t0 [] = True"
| "starved bps window t0 ((t, n) # xs) \<longleftrightarrow>
     window div 4 \<le> t - t0 \<and> int n * 1000000000 * 2 ^ 50 < bps * (t - t0) * (2 ^ 50 - 1) \<and> starved bps window t xs"

lemma starved_append [simp]:
  "starved bps window t0 (xs @ [(t, n)]) \<longleftrightarrow> starved bps window t0 xs
    \<and> window div 4 \<le> t - List.last (t0 # map fst xs)
    \<and> int n * 1000000000 * 2 ^ 50 < bps * (t - List.last (t0 # map fst xs)) * (2 ^ 50 - 1)"
  by (induction bps window t0 xs rule: starved.induct) auto

text \<open>Since when a stripe sampled at \<open>t\<close> would count as below.\<close>

definition below_from :: "int \<Rightarrow> stripe \<Rightarrow> int" where
  "below_from t s = (case stBelowSince s of None \<Rightarrow> t | Some x \<Rightarrow> x)"

text \<open>While the samples starve, the stripe stays below since its first sample at the latest.\<close>

lemma watch_starved:
  fixes bps :: int
  assumes "4 \<le> window" and "starved bps window t0 xs" and "0 < stInflight s"
    and "stCheckedAt s = Some t0" and "stCheckBytes s = stBytes s"
    and "below_from t0 s \<le> limit"
  shows "case watch bps window s (feed xs) of s' \<Rightarrow> 0 < stInflight s'
    \<and> stCheckedAt s' = Some (List.last (t0 # map fst xs)) \<and> stCheckBytes s' = stBytes s'
    \<and> below_from (List.last (t0 # map fst xs)) s' \<le> limit"
  using assms(2-)
proof (induction xs arbitrary: s t0)
  case Nil
  then show ?case by simp
next
  case (Cons y xs)
  obtain t n where y: "y = (t, n)" by (cases y)
  have due: "window div 4 \<le> t - t0" and pos: "0 < t - t0"
    using Cons.prems(1) assms(1) y by auto
  have rate: "rateBelow (int n) (t - t0) bps"
    using Cons.prems(1) pos y by (intro under_rateBelow) simp_all
  define u where "u = observe bps window (s\<lparr>stBytes := stBytes s + int n\<rparr>) (Check t)"
  have u: "u = s\<lparr>stBytes := stBytes s + int n, stCheckedAt := Some t, stCheckBytes := stBytes s + int n,
      stBelowSince := Some (case stBelowSince s of None \<Rightarrow> t0 | Some x \<Rightarrow> x)\<rparr>"
    using Cons.prems y unfolding u_def
    using due assms(1) rate by (simp add: sick_sample [where t = t0] goQuot_pos)
  have "watch bps window s (feed (y # xs)) = watch bps window u (feed xs)"
    by (simp add: y u_def)
  moreover have "starved bps window t xs" "0 < stInflight u" "stCheckedAt u = Some t"
      "stCheckBytes u = stBytes u" "below_from t u \<le> limit"
    using Cons.prems y by (auto simp: u below_from_def split: option.splits)
  note Cons.IH [OF this]
  ultimately show ?case by (simp add: y)
qed


section \<open>Witnesses\<close>

text \<open>A set of one stripe with one request sent on it.\<close>

definition ex_cset :: cset where
  "ex_cset = \<lparr>csSet = \<lparr>csFloor = 102400, csWindow = 10000000000, csNext = 1, csSlots = [0],
      csHeap = [\<lparr>stInflight = 1, stBytes = 0, stCheckedAt = Some 7, stCheckBytes = 0, stBelowSince = None\<rparr>],
      csLastLog = 0\<rparr>, csReqs = [RSent 0]\<rparr>"

lemma ex_cset_reachable: "cs_step\<^sup>*\<^sup>* (cs_init 1 102400 10000000000) ex_cset"
proof -
  let ?c0 = "newClientSet 1 102400 10000000000"
  let ?c1 = "?c0\<lparr>csNext := 1\<rparr>"
  let ?x1 = "\<lparr>csSet = ?c1, csReqs = [RLoaded 0 0]\<rparr>"
  let ?s = "newStripe\<lparr>stCheckedAt := Some 7\<rparr>"
  let ?x2 = "\<lparr>csSet = set_stripe 0 ?s ?c1, csReqs = [RReady 0]\<rparr>"
  have a: "cs_step (cs_init 1 102400 10000000000) ?x1"
    using Issue [of "cs_init 1 102400 10000000000" 0 ?c1]
    by (simp add: cs_init_def newClientSet_def pick_def)
  have b: "cs_step ?x1 ?x2"
    using Healthy [of 0 ?x1 0 0 7 ?s]
    by (simp add: newClientSet_def upd_req_def sick_def newStripe_def)
  have c: "cs_step ?x2 ex_cset"
    using Send [of 0 ?x2 0]
    by (simp add: newClientSet_def upd_req_def set_stripe_def addInflight_def newStripe_def ex_cset_def)
  show ?thesis
    by (rule converse_rtranclp_into_rtranclp, rule a, rule converse_rtranclp_into_rtranclp, rule b,
        rule r_into_rtranclp, rule c)
qed

lemma clientset_inflight_witness:
  "stInflight (csHeap (csSet ex_cset) ! 0) = int (length (filter (holds 0) (csReqs ex_cset)))
    \<and> csReqs ex_cset = [RSent 0]"
  using clientset_inflight [OF ex_cset_reachable, of 0] by (simp add: ex_cset_def)

lemma round_robin_witness:
  "distinct (picks 4 (newClientSet 0 102400 10000000000))
    \<and> set (picks 4 (newClientSet 0 102400 10000000000)) = {..<4}"
  using round_robin [of "newClientSet 0 102400 10000000000"]
  by (simp add: newClientSet_def defaultClients_def)

lemma ex_rate: "rateBelow 1000 5000000000 102400"
  by (rule under_rateBelow) simp_all

lemma sick_sound_witness:
  "\<exists>before x since. [Check 0, Flight 1, Read 1000, Check 5000000000, Read 1000] = before @ Check x # since
    \<and> 10000000000 \<le> 10000000000 - x \<and> delivered since * 1000000000 * (2 ^ 50 - 1) < 102400 * (10000000000 - x) * 2 ^ 50"
proof -
  define s where "s = watch 102400 10000000000 newStripe
    [Check 0, Flight 1, Read 1000, Check 5000000000, Read 1000]"
  have "s = \<lparr>stInflight = 1, stBytes = 2000, stCheckedAt = Some 5000000000, stCheckBytes = 1000,
      stBelowSince = Some 0\<rparr>"
    by (simp add: s_def newStripe_def sick_def Let_def goQuot_def ex_rate)
  then have "sick 10000000000 102400 10000000000 s = (True, snd (sick 10000000000 102400 10000000000 s))"
    by (simp add: sick_def Let_def goQuot_def ex_rate)
  from sick_sound [OF _ _ this [unfolded s_def]] show ?thesis by (rule conjunct2) simp_all
qed



end
